(* ===== verification/Net_Prelude.thy ===== *)
theory Net_Prelude
  imports Main "HOL-Library.Word"
begin

text \<open>
  Shared vocabulary of the development: bytes and machine sizes, the error values of the
  checked build, sequencing of fallible operations, slices of byte vectors, and the generic
  notion of a transition system with an invariant that the event-driven components share.

  The library is built with \<^verbatim>\<open>-g\<close> and without \<^verbatim>\<open>NDEBUG\<close>
  (\<^verbatim>\<open>src/mynetlib/net/Makefile\<close>), so a failing \<^verbatim>\<open>assert\<close> ends the
  process; the model makes it the value \<open>Inl AssertFailed\<close>.
\<close>

unbundle bit_operations_syntax

named_theorems res_simps \<open>case analysis of checked results\<close>
named_theorems slice_simps \<open>slices and in-place writes of byte vectors\<close>

section \<open>Types\<close>

type_synonym byte = "8 word"
type_synonym i16 = "16 word"
type_synonym i32 = "32 word"
type_synonym i64 = "64 word"

datatype error =
    AssertFailed      \<comment> \<open>a failing \<open>assert\<close>\<close>
  | LengthError       \<comment> \<open>\<open>std::length_error\<close> of a vector that would grow beyond its maximum\<close>
  | UseAfterFree      \<comment> \<open>access through a dangling or null pointer\<close>
  | Fatal             \<comment> \<open>\<open>LOG_FATAL\<close> and \<open>LOG_SYSFATAL\<close>, which abort\<close>
  | LogicError        \<comment> \<open>\<open>std::logic_error\<close>\<close>
  | BadAlloc          \<comment> \<open>\<open>std::bad_alloc\<close>: the allocator has no memory left\<close>
  | OutOfBounds       \<comment> \<open>an index outside an array, a vector or a descriptor set\<close>
  | BadCast           \<comment> \<open>\<open>boost::bad_any_cast\<close>\<close>

type_synonym 'a res = "error + 'a"

section \<open>Sequencing of fallible operations\<close>

definition bind_res :: "'a res \<Rightarrow> ('a \<Rightarrow> 'b res) \<Rightarrow> 'b res" where
  "bind_res m f = (case m of Inl e \<Rightarrow> Inl e | Inr x \<Rightarrow> f x)"

definition assert_res :: "bool \<Rightarrow> 'a res \<Rightarrow> 'a res" where
  "assert_res c r = (if c then r else Inl AssertFailed)"

lemma bind_res_simps [simp]:
  "bind_res (Inl e) f = Inl e"
  "bind_res (Inr x) f = f x"
  by (simp_all add: bind_res_def)

lemma bind_res_Inr [res_simps]: "bind_res m f = Inr y \<longleftrightarrow> (\<exists>x. m = Inr x \<and> f x = Inr y)"
  by (cases m) auto

lemma bind_res_Inl [res_simps]:
  "bind_res m f = Inl e \<longleftrightarrow> m = Inl e \<or> (\<exists>x. m = Inr x \<and> f x = Inl e)"
  by (cases m) auto

lemma bind_res_assoc: "bind_res (bind_res m f) g = bind_res m (\<lambda>x. bind_res (f x) g)"
  by (cases m) auto

lemma assert_res_simps [simp]:
  "assert_res True r = r"
  "assert_res False r = Inl AssertFailed"
  by (simp_all add: assert_res_def)

lemma assert_res_Inr [res_simps]: "assert_res c r = Inr y \<longleftrightarrow> c \<and> r = Inr y"
  by (simp add: assert_res_def)

lemma assert_res_Inl [res_simps]:
  "assert_res c r = Inl e \<longleftrightarrow> (\<not> c \<and> e = AssertFailed) \<or> (c \<and> r = Inl e)"
  by (auto simp: assert_res_def)

text \<open>Running an operation over a list, stopping at the first error.\<close>

fun fold_res :: "('a \<Rightarrow> 's \<Rightarrow> 's res) \<Rightarrow> 'a list \<Rightarrow> 's \<Rightarrow> 's res" where
  "fold_res f [] s = Inr s"
| "fold_res f (x # xs) s = bind_res (f x s) (fold_res f xs)"

lemma fold_res_append:
  "fold_res f (xs @ ys) s = bind_res (fold_res f xs s) (fold_res f ys)"
  by (induction xs arbitrary: s) (auto simp: bind_res_assoc bind_res_def split: sum.split)

lemma fold_res_inv:
  assumes "P s" and "fold_res f xs s = Inr t"
    and "\<And>x s s'. x \<in> set xs \<Longrightarrow> P s \<Longrightarrow> f x s = Inr s' \<Longrightarrow> P s'"
  shows "P t"
  using assms
proof (induction xs arbitrary: s)
  case Nil
  then show ?case by simp
next
  case (Cons x xs)
  from Cons.prems(2) obtain s' where s': "f x s = Inr s'" "fold_res f xs s' = Inr t"
    by (auto simp: res_simps)
  with Cons.prems(1) have "P s'" by (intro Cons.prems(3) [of x s s']) simp_all
  then show ?case using s'(2) Cons.prems(3) by (rule Cons.IH) simp_all
qed

text \<open>Total versions: every step succeeds. The second carries the elements still to be handled.\<close>

lemma fold_res_total:
  assumes "P s" and "\<And>x s. x \<in> set xs \<Longrightarrow> P s \<Longrightarrow> \<exists>s'. f x s = Inr s' \<and> P s'"
  shows "\<exists>t. fold_res f xs s = Inr t \<and> P t"
  using assms
proof (induction xs arbitrary: s)
  case (Cons x xs)
  obtain s' where s': "f x s = Inr s'" "P s'" using Cons.prems by (metis list.set_intros(1))
  from Cons.IH [OF s'(2)] Cons.prems(2) obtain t where "fold_res f xs s' = Inr t" "P t"
    by (metis list.set_intros(2))
  with s'(1) show ?case by simp
qed simp

lemma fold_res_remaining:
  assumes "P xs s" and "\<And>x xs s. P (x # xs) s \<Longrightarrow> \<exists>s'. f x s = Inr s' \<and> P xs s'"
  shows "\<exists>t. fold_res f xs s = Inr t \<and> P [] t"
  using assms(1)
proof (induction xs arbitrary: s)
  case (Cons x xs)
  from assms(2) [OF Cons.prems] obtain s' where "f x s = Inr s'" "P xs s'" by blast
  with Cons.IH [of s'] show ?case by simp
qed simp

text \<open>An operation that succeeds with \<open>P\<close> unless the allocator runs out of memory.\<close>

definition safe :: "('a \<Rightarrow> bool) \<Rightarrow> 'a res \<Rightarrow> bool" where
  "safe P r = (case r of Inl e \<Rightarrow> e = BadAlloc | Inr x \<Rightarrow> P x)"

lemma safe_simps [simp]:
  "safe P (Inr x) = P x"
  "safe P (Inl e) \<longleftrightarrow> e = BadAlloc"
  by (simp_all add: safe_def)

lemma safe_bind: "safe Q m \<Longrightarrow> (\<And>x. m = Inr x \<Longrightarrow> Q x \<Longrightarrow> safe P (f x)) \<Longrightarrow> safe P (bind_res m f)"
  by (cases m) auto

lemma safe_mono: "safe Q m \<Longrightarrow> (\<And>x. m = Inr x \<Longrightarrow> Q x \<Longrightarrow> P x) \<Longrightarrow> safe P m"
  by (cases m) auto

lemma safe_fold:
  assumes "P s" and "\<And>x s. x \<in> set xs \<Longrightarrow> P s \<Longrightarrow> safe P (f x s)"
  shows "safe P (fold_res f xs s)"
  using assms
proof (induction xs arbitrary: s)
  case (Cons x xs)
  then show ?case by (auto intro!: safe_bind [of P])
qed simp

lemma safe_fold_remaining:
  assumes "P xs s" and "\<And>x xs s. P (x # xs) s \<Longrightarrow> safe (P xs) (f x s)"
  shows "safe (P []) (fold_res f xs s)"
  using assms(1)
proof (induction xs arbitrary: s)
  case (Cons x xs)
  then show ?case using assms(2) by (auto intro!: safe_bind [of "P xs"])
qed simp

section \<open>Machine sizes\<close>

text \<open>\<open>size_t\<close> is kept as a natural number with the wrap-around at \<open>2 ^ 64\<close> written out.\<close>

definition size_add :: "nat \<Rightarrow> nat \<Rightarrow> nat" where
  "size_add a b = (a + b) mod 2 ^ 64"

definition vector_max_size :: nat where
  "vector_max_size = 2 ^ 63 - 1"

lemma size_add_exact [simp]: "a + b < 2 ^ 64 \<Longrightarrow> size_add a b = a + b"
  by (simp add: size_add_def)

lemma size_add_le [simp]: "size_add a b \<le> a + b"
  by (simp add: size_add_def)

section \<open>Slices of byte vectors\<close>

definition slice_of :: "nat \<Rightarrow> nat \<Rightarrow> 'a list \<Rightarrow> 'a list" where
  "slice_of i j xs = take (j - i) (drop i xs)"

text \<open>\<open>std::copy\<close> of \<open>ys\<close> over the elements of \<open>xs\<close> from position \<open>i\<close> on.\<close>

definition write_at :: "nat \<Rightarrow> 'a list \<Rightarrow> 'a list \<Rightarrow> 'a list" where
  "write_at i ys xs = take i xs @ ys @ drop (i + length ys) xs"

lemma slice_of_alt: "slice_of i j xs = drop i (take j xs)"
  by (simp add: slice_of_def drop_take)

lemma length_slice_of [slice_simps]: "j \<le> length xs \<Longrightarrow> length (slice_of i j xs) = j - i"
  by (auto simp: slice_of_def)

lemma slice_of_empty [slice_simps]: "j \<le> i \<Longrightarrow> slice_of i j xs = []"
  by (simp add: slice_of_def)

lemma length_write_at [slice_simps]:
  "i + length ys \<le> length xs \<Longrightarrow> length (write_at i ys xs) = length xs"
  by (auto simp: write_at_def)

lemma write_at_Nil [slice_simps]: "write_at i [] xs = xs"
  by (simp add: write_at_def)

lemma slice_of_append: "i \<le> k \<Longrightarrow> k \<le> j \<Longrightarrow> slice_of i k xs @ slice_of k j xs = slice_of i j xs"
proof -
  assume ik: "i \<le> k" and kj: "k \<le> j"
  have "take (j - i) (drop i xs) = take (k - i) (drop i xs) @ take (j - k) (drop (k - i) (drop i xs))"
    using take_add [of "k - i" "j - k" "drop i xs"] ik kj by simp
  then show ?thesis
    using ik by (simp add: slice_of_def)
qed

lemma slice_of_write_before [slice_simps]:
  "i \<le> j \<Longrightarrow> j \<le> k \<Longrightarrow> k \<le> length xs \<Longrightarrow> slice_of i j (write_at k ys xs) = slice_of i j xs"
  by (simp add: slice_of_alt write_at_def)

lemma slice_of_write_same [slice_simps]:
  "i + length ys \<le> length xs \<Longrightarrow> slice_of i (i + length ys) (write_at i ys xs) = ys"
  by (simp add: slice_of_def write_at_def)

lemma slice_of_write_after [slice_simps]:
  assumes "k + length ys \<le> i" and "i \<le> length xs" and "j \<le> length xs"
  shows "slice_of i j (write_at k ys xs) = slice_of i j xs"
proof -
  have "drop i (write_at k ys xs) = drop i xs"
    using assms by (simp add: write_at_def add.commute)
  then show ?thesis by (simp add: slice_of_def)
qed

lemma slice_of_append_list [slice_simps]:
  "j \<le> length xs \<Longrightarrow> slice_of i j (xs @ ys) = slice_of i j xs"
  by (simp add: slice_of_def)

lemma take_slice_of [slice_simps]:
  "n \<le> j - i \<Longrightarrow> take n (slice_of i j xs) = slice_of i (i + n) xs"
  by (simp add: slice_of_def min_def)

lemma drop_slice_of [slice_simps]: "drop n (slice_of i j xs) = slice_of (i + n) j xs"
  by (simp add: slice_of_def drop_take add.commute)

text \<open>\<open>std::search\<close>: the offset of the first occurrence of a pattern, or the length.\<close>

fun std_search :: "'a list \<Rightarrow> 'a list \<Rightarrow> nat" where
  "std_search [] pat = 0"
| "std_search (x # xs) pat =
     (if take (length pat) (x # xs) = pat then 0 else Suc (std_search xs pat))"

lemma std_search_le: "std_search xs pat \<le> length xs"
  by (induction xs) auto

lemma std_search_found:
  "std_search xs pat < length xs \<Longrightarrow> take (length pat) (drop (std_search xs pat) xs) = pat"
  by (induction xs) (auto split: if_splits)

lemma std_search_first:
  "k < std_search xs pat \<Longrightarrow> take (length pat) (drop k xs) \<noteq> pat"
proof (induction xs arbitrary: k)
  case Nil
  then show ?case by simp
next
  case (Cons x xs)
  then show ?case by (cases k) (auto split: if_splits)
qed

section \<open>Transition systems\<close>

inductive reachable :: "('s \<Rightarrow> bool) \<Rightarrow> ('s \<Rightarrow> 's \<Rightarrow> bool) \<Rightarrow> 's \<Rightarrow> bool"
  for init :: "'s \<Rightarrow> bool" and step :: "'s \<Rightarrow> 's \<Rightarrow> bool" where
  reach_init: "init s \<Longrightarrow> reachable init step s"
| reach_step: "reachable init step s \<Longrightarrow> step s t \<Longrightarrow> reachable init step t"

locale safety =
  fixes init :: "'s \<Rightarrow> bool"
    and step :: "'s \<Rightarrow> 's \<Rightarrow> bool"
    and inv :: "'s \<Rightarrow> bool"
  assumes inv_init: "init s \<Longrightarrow> inv s"
    and inv_step: "inv s \<Longrightarrow> step s t \<Longrightarrow> inv t"
begin

lemma reachable_inv: "reachable init step s \<Longrightarrow> inv s"
  by (induction rule: reachable.induct) (auto intro: inv_init inv_step)

lemma rtranclp_inv: "step\<^sup>*\<^sup>* s t \<Longrightarrow> inv s \<Longrightarrow> inv t"
  by (induction rule: rtranclp_induct) (auto intro: inv_step)

end

end
