(* ===== verification/Net_Endian.thy ===== *)
theory Net_Endian
  imports Net_Prelude
begin

text \<open>
  Byte order conversions of \<^verbatim>\<open>src/mynetlib/net/Endian.h\<close>. Integers are stored in
  memory least significant byte first (the host the library targets is x86); \<open>htobe\<close> and
  \<open>betoh\<close> are then byte swaps. \<open>mem_bytes\<close> is the memory image that \<open>memcpy\<close> reads
  and \<open>word_of_mem\<close> the integer that a memory image denotes.
\<close>

definition mem_bytes :: "nat \<Rightarrow> 'a::len word \<Rightarrow> byte list" where
  "mem_bytes n w = map (\<lambda>i. ucast (drop_bit (8 * i) w)) [0..<n]"

fun word_of_mem :: "byte list \<Rightarrow> 'a::len word" where
  "word_of_mem [] = 0"
| "word_of_mem (b # bs) = ucast b OR push_bit 8 (word_of_mem bs)"

definition bswap :: "nat \<Rightarrow> 'a::len word \<Rightarrow> 'a word" where
  "bswap n w = word_of_mem (rev (mem_bytes n w))"

definition hostToNetwork64 :: "i64 \<Rightarrow> i64" where
  "hostToNetwork64 host64 = bswap 8 host64"

definition hostToNetwork32 :: "i32 \<Rightarrow> i32" where
  "hostToNetwork32 host32 = bswap 4 host32"

definition hostToNetwork16 :: "i16 \<Rightarrow> i16" where
  "hostToNetwork16 host16 = bswap 2 host16"

definition networkToHost64 :: "i64 \<Rightarrow> i64" where
  "networkToHost64 net64 = bswap 8 net64"

definition networkToHost32 :: "i32 \<Rightarrow> i32" where
  "networkToHost32 net32 = bswap 4 net32"

definition networkToHost16 :: "i16 \<Rightarrow> i16" where
  "networkToHost16 net16 = bswap 2 net16"

text \<open>Big-endian images: the most significant byte first.\<close>

definition be_bytes :: "nat \<Rightarrow> 'a::len word \<Rightarrow> byte list" where
  "be_bytes n w = map (\<lambda>i. ucast (drop_bit (8 * (n - 1 - i)) w)) [0..<n]"

definition be_value :: "byte list \<Rightarrow> int" where
  "be_value bs = foldl (\<lambda>acc b. acc * 256 + uint b) 0 bs"

lemma length_mem_bytes [simp]: "length (mem_bytes n w) = n"
  by (simp add: mem_bytes_def)

lemma length_be_bytes [simp]: "length (be_bytes n w) = n"
  by (simp add: be_bytes_def)

lemma rev_mem_bytes: "rev (mem_bytes n w) = be_bytes n w"
  by (rule nth_equalityI) (auto simp: mem_bytes_def be_bytes_def rev_nth)

lemma bit_word_of_mem:
  "bit (word_of_mem bs :: 'a::len word) k \<longleftrightarrow>
     k < LENGTH('a) \<and> k < 8 * length bs \<and> bit (bs ! (k div 8)) (k mod 8)"
proof (induction bs arbitrary: k)
  case Nil
  then show ?case by simp
next
  case (Cons b bs)
  show ?case
  proof (cases "k < 8")
    case True
    then show ?thesis
      by (auto simp: bit_or_iff bit_push_bit_iff bit_ucast_iff)
  next
    case False
    then have "k div 8 = Suc ((k - 8) div 8)" and "k mod 8 = (k - 8) mod 8"
      by (auto simp: le_div_geq le_mod_geq)
    moreover have "\<not> bit b k"
      using False bit_imp_le_length [of b k] by auto
    ultimately show ?thesis
      using False Cons.IH [of "k - 8"]
      by (auto simp: bit_or_iff bit_push_bit_iff bit_ucast_iff possible_bit_def)
  qed
qed

lemma mem_bytes_word_of_mem:
  assumes "LENGTH('a) = 8 * length bs"
  shows "mem_bytes (length bs) (word_of_mem bs :: 'a::len word) = bs"
proof (rule nth_equalityI)
  show "length (mem_bytes (length bs) (word_of_mem bs :: 'a word)) = length bs" by simp
next
  fix i assume "i < length (mem_bytes (length bs) (word_of_mem bs :: 'a word))"
  then have i: "i < length bs" by simp
  show "mem_bytes (length bs) (word_of_mem bs :: 'a word) ! i = bs ! i"
  proof (rule bit_word_eqI)
    fix n assume "n < LENGTH(8)"
    then have n: "n < 8" by simp
    have "(8 * i + n) div 8 = i" and "(8 * i + n) mod 8 = n" and "8 * i + n < 8 * length bs"
      using n i by auto
    then show "bit (mem_bytes (length bs) (word_of_mem bs :: 'a word) ! i) n = bit (bs ! i) n"
      using i n assms by (simp add: mem_bytes_def bit_ucast_iff bit_drop_bit_eq bit_word_of_mem)
  qed
qed

lemma word_of_mem_bytes:
  assumes "LENGTH('a) = 8 * n"
  shows "word_of_mem (mem_bytes n w) = (w :: 'a::len word)"
proof (rule bit_word_eqI)
  fix k assume k: "k < LENGTH('a)"
  then have "k div 8 < n" and "8 * (k div 8) + k mod 8 = k"
    using assms by auto
  then show "bit (word_of_mem (mem_bytes n w) :: 'a word) k = bit w k"
    using k assms by (simp add: bit_word_of_mem mem_bytes_def bit_ucast_iff bit_drop_bit_eq)
qed

lemma mem_bytes_bswap:
  assumes "LENGTH('a) = 8 * n"
  shows "mem_bytes n (bswap n w) = be_bytes n (w :: 'a::len word)"
  using mem_bytes_word_of_mem [of "rev (mem_bytes n w)", where 'a = 'a] assms
  by (simp add: bswap_def rev_mem_bytes)

lemma bswap_word_of_mem_be:
  assumes "LENGTH('a) = 8 * n"
  shows "bswap n (word_of_mem (be_bytes n w)) = (w :: 'a::len word)"
proof -
  have "mem_bytes n (word_of_mem (be_bytes n w) :: 'a word) = be_bytes n w"
    using mem_bytes_word_of_mem [of "be_bytes n w", where 'a = 'a] assms by simp
  then have "rev (mem_bytes n (word_of_mem (be_bytes n w) :: 'a word)) = mem_bytes n w"
    by (metis rev_mem_bytes rev_rev_ident)
  then show ?thesis
    using assms by (simp add: bswap_def word_of_mem_bytes)
qed

lemma bswap_bswap: "LENGTH('a) = 8 * n \<Longrightarrow> bswap n (bswap n w) = (w :: 'a::len word)"
  using bswap_word_of_mem_be [of n w] by (simp add: bswap_def rev_mem_bytes)

lemmas endian_defs =
  hostToNetwork64_def hostToNetwork32_def hostToNetwork16_def
  networkToHost64_def networkToHost32_def networkToHost16_def

lemma network_images [simp]:
  "mem_bytes 8 (hostToNetwork64 a) = be_bytes 8 a"
  "mem_bytes 4 (hostToNetwork32 b) = be_bytes 4 b"
  "mem_bytes 2 (hostToNetwork16 c) = be_bytes 2 c"
  by (simp_all add: endian_defs mem_bytes_bswap)

lemma network_values [simp]:
  "networkToHost64 (word_of_mem (be_bytes 8 a)) = a"
  "networkToHost32 (word_of_mem (be_bytes 4 b)) = b"
  "networkToHost16 (word_of_mem (be_bytes 2 c)) = c"
  by (simp_all add: endian_defs bswap_word_of_mem_be)

text \<open>The wire image, read with the most significant byte first, is the unsigned value.\<close>

lemma be_value_snoc: "be_value (bs @ [b]) = be_value bs * 256 + uint b"
  by (simp add: be_value_def)

lemma be_bytes_Suc: "be_bytes (Suc n) w = be_bytes n (drop_bit 8 w) @ [ucast w]"
proof (rule nth_equalityI)
  fix i assume "i < length (be_bytes (Suc n) w)"
  then have "i < Suc n" by simp
  then show "be_bytes (Suc n) w ! i = (be_bytes n (drop_bit 8 w) @ [ucast w]) ! i"
    by (cases "i = n") (auto simp: be_bytes_def nth_append drop_bit_drop_bit algebra_simps
          simp del: upt_Suc simp flip: mult_Suc_right intro!: arg_cong [where f = "\<lambda>k. ucast (drop_bit k w)"])
qed simp

lemma be_value_be_bytes: "be_value (be_bytes n w) = uint (w :: 'a::len word) mod 2 ^ (8 * n)"
proof (induction n arbitrary: w)
  case 0
  then show ?case by (simp add: be_bytes_def be_value_def)
next
  case (Suc n)
  have low: "uint (ucast w :: byte) = uint w mod 256"
    by (simp add: unsigned_ucast_eq take_bit_eq_mod)
  have high: "uint (drop_bit 8 w) = uint w div 256"
    by (subst unsigned_drop_bit_eq) (simp add: drop_bit_eq_div take_bit_int_eq_self)
  have "uint w mod 2 ^ (8 * Suc n) = uint w div 256 mod 2 ^ (8 * n) * 256 + uint w mod 256"
    using mod_mult2_eq' [of "uint w" 256 "2 ^ (8 * n)"] by (simp add: power_add)
  then show ?case
    by (simp add: be_bytes_Suc be_value_snoc Suc low high)
qed

end
