(* ===== verification/Byte_Buffer.thy ===== *)
theory Byte_Buffer
  imports Net_Endian
begin

text \<open>
  The I/O buffer of \<^verbatim>\<open>src/mynetlib/net/Buffer.h\<close> and \<^verbatim>\<open>Buffer.cc\<close>: one byte
  vector with a reader and a writer index. Pointers into the vector are offsets from
  \<open>begin()\<close>. \<open>peek\<close> stands for the readable bytes \<open>[peek(), beginWrite())\<close>; it is the
  abstraction function to a byte queue, the contract stated by the locale \<open>byte_queue\<close>.
\<close>

section \<open>State\<close>

record buffer =
  buf_data :: "byte list"
  readerIndex :: nat
  writerIndex :: nat

definition kCheapPrepend :: nat where
  "kCheapPrepend = 8"

definition kInitialSize :: nat where
  "kInitialSize = 1024"

definition kCRLF :: "byte list" where
  "kCRLF = [13, 10]"

definition new_Buffer :: "nat \<Rightarrow> buffer" where
  "new_Buffer initialSize =
     \<lparr>buf_data = replicate (kCheapPrepend + initialSize) 0,
      readerIndex = kCheapPrepend, writerIndex = kCheapPrepend\<rparr>"

section \<open>Observers\<close>

definition readableBytes :: "buffer \<Rightarrow> nat" where
  "readableBytes b = writerIndex b - readerIndex b"

definition writableBytes :: "buffer \<Rightarrow> nat" where
  "writableBytes b = length (buf_data b) - writerIndex b"

definition prependableBytes :: "buffer \<Rightarrow> nat" where
  "prependableBytes b = readerIndex b"

definition peek :: "buffer \<Rightarrow> byte list" where
  "peek b = slice_of (readerIndex b) (writerIndex b) (buf_data b)"

definition findCRLF_from :: "nat \<Rightarrow> buffer \<Rightarrow> nat option res" where
  "findCRLF_from start b =
     assert_res (readerIndex b \<le> start) (assert_res (start \<le> writerIndex b)
       (let crlf = start + std_search (slice_of start (writerIndex b) (buf_data b)) kCRLF
        in Inr (if crlf = writerIndex b then None else Some crlf)))"

definition findCRLF :: "buffer \<Rightarrow> nat option" where
  "findCRLF b =
     (let crlf = readerIndex b + std_search (peek b) kCRLF
      in if crlf = writerIndex b then None else Some crlf)"

definition memchr :: "byte \<Rightarrow> byte list \<Rightarrow> nat option" where
  "memchr c xs = (let i = std_search xs [c] in if i < length xs then Some i else None)"

definition findEOL :: "buffer \<Rightarrow> nat option" where
  "findEOL b = map_option (\<lambda>i. readerIndex b + i) (memchr 10 (peek b))"

definition findEOL_from :: "nat \<Rightarrow> buffer \<Rightarrow> nat option res" where
  "findEOL_from start b =
     assert_res (readerIndex b \<le> start) (assert_res (start \<le> writerIndex b)
       (Inr (map_option (\<lambda>i. start + i)
              (memchr 10 (slice_of start (writerIndex b) (buf_data b))))))"

section \<open>Consuming\<close>

definition retrieveAll :: "buffer \<Rightarrow> buffer" where
  "retrieveAll b = b\<lparr>readerIndex := kCheapPrepend, writerIndex := kCheapPrepend\<rparr>"

definition retrieve :: "nat \<Rightarrow> buffer \<Rightarrow> buffer res" where
  "retrieve len b =
     assert_res (len \<le> readableBytes b)
       (if len < readableBytes b then Inr (b\<lparr>readerIndex := readerIndex b + len\<rparr>)
        else Inr (retrieveAll b))"

definition retrieveUntil :: "nat \<Rightarrow> buffer \<Rightarrow> buffer res" where
  "retrieveUntil end_ptr b =
     assert_res (readerIndex b \<le> end_ptr) (assert_res (end_ptr \<le> writerIndex b)
       (retrieve (end_ptr - readerIndex b) b))"

definition retrieveInt64 :: "buffer \<Rightarrow> buffer res" where
  "retrieveInt64 b = retrieve 8 b"

definition retrieveInt32 :: "buffer \<Rightarrow> buffer res" where
  "retrieveInt32 b = retrieve 4 b"

definition retrieveInt16 :: "buffer \<Rightarrow> buffer res" where
  "retrieveInt16 b = retrieve 2 b"

definition retrieveInt8 :: "buffer \<Rightarrow> buffer res" where
  "retrieveInt8 b = retrieve 1 b"

definition retrieveAsString :: "nat \<Rightarrow> buffer \<Rightarrow> (byte list \<times> buffer) res" where
  "retrieveAsString len b =
     assert_res (len \<le> readableBytes b)
       (let result = take len (peek b)
        in bind_res (retrieve len b) (\<lambda>b'. Inr (result, b')))"

definition retrieveAllAsString :: "buffer \<Rightarrow> (byte list \<times> buffer) res" where
  "retrieveAllAsString b = retrieveAsString (readableBytes b) b"

section \<open>Growing and appending\<close>

definition vec_resize :: "nat \<Rightarrow> byte list \<Rightarrow> byte list res" where
  "vec_resize n xs =
     (if vector_max_size < n then Inl LengthError
      else Inr (take n xs @ replicate (n - length xs) 0))"

definition makeSpace :: "nat \<Rightarrow> buffer \<Rightarrow> buffer res" where
  "makeSpace len b =
     (if size_add (writableBytes b) (prependableBytes b) < size_add len kCheapPrepend then
        bind_res (vec_resize (size_add (writerIndex b) len) (buf_data b))
          (\<lambda>d. Inr (b\<lparr>buf_data := d\<rparr>))
      else
        assert_res (kCheapPrepend < readerIndex b)
          (let readable = readableBytes b;
               b' = b\<lparr>buf_data := write_at kCheapPrepend (peek b) (buf_data b),
                      readerIndex := kCheapPrepend,
                      writerIndex := kCheapPrepend + readable\<rparr>
           in assert_res (readable = readableBytes b') (Inr b')))"

definition ensureWritableBytes :: "nat \<Rightarrow> buffer \<Rightarrow> buffer res" where
  "ensureWritableBytes len b =
     bind_res (if writableBytes b < len then makeSpace len b else Inr b)
       (\<lambda>b'. assert_res (len \<le> writableBytes b') (Inr b'))"

definition hasWritten :: "nat \<Rightarrow> buffer \<Rightarrow> buffer res" where
  "hasWritten len b =
     assert_res (len \<le> writableBytes b) (Inr (b\<lparr>writerIndex := writerIndex b + len\<rparr>))"

definition unwrite :: "nat \<Rightarrow> buffer \<Rightarrow> buffer res" where
  "unwrite len b =
     assert_res (len \<le> readableBytes b) (Inr (b\<lparr>writerIndex := writerIndex b - len\<rparr>))"

definition buf_append :: "byte list \<Rightarrow> buffer \<Rightarrow> buffer res" where
  "buf_append bytes b =
     bind_res (ensureWritableBytes (length bytes) b)
       (\<lambda>b'. hasWritten (length bytes)
               (b'\<lparr>buf_data := write_at (writerIndex b') bytes (buf_data b')\<rparr>))"

definition appendInt64 :: "i64 \<Rightarrow> buffer \<Rightarrow> buffer res" where
  "appendInt64 x b = buf_append (mem_bytes 8 (hostToNetwork64 x)) b"

definition appendInt32 :: "i32 \<Rightarrow> buffer \<Rightarrow> buffer res" where
  "appendInt32 x b = buf_append (mem_bytes 4 (hostToNetwork32 x)) b"

definition appendInt16 :: "i16 \<Rightarrow> buffer \<Rightarrow> buffer res" where
  "appendInt16 x b = buf_append (mem_bytes 2 (hostToNetwork16 x)) b"

definition appendInt8 :: "byte \<Rightarrow> buffer \<Rightarrow> buffer res" where
  "appendInt8 x b = buf_append [x] b"

section \<open>Integers in network byte order\<close>

definition peekInt64 :: "buffer \<Rightarrow> i64 res" where
  "peekInt64 b =
     assert_res (8 \<le> readableBytes b) (Inr (networkToHost64 (word_of_mem (take 8 (peek b)))))"

definition peekInt32 :: "buffer \<Rightarrow> i32 res" where
  "peekInt32 b =
     assert_res (4 \<le> readableBytes b) (Inr (networkToHost32 (word_of_mem (take 4 (peek b)))))"

definition peekInt16 :: "buffer \<Rightarrow> i16 res" where
  "peekInt16 b =
     assert_res (2 \<le> readableBytes b) (Inr (networkToHost16 (word_of_mem (take 2 (peek b)))))"

definition peekInt8 :: "buffer \<Rightarrow> byte res" where
  "peekInt8 b = assert_res (1 \<le> readableBytes b) (Inr (buf_data b ! readerIndex b))"

definition readInt64 :: "buffer \<Rightarrow> (i64 \<times> buffer) res" where
  "readInt64 b = bind_res (peekInt64 b) (\<lambda>x. bind_res (retrieveInt64 b) (\<lambda>b'. Inr (x, b')))"

definition readInt32 :: "buffer \<Rightarrow> (i32 \<times> buffer) res" where
  "readInt32 b = bind_res (peekInt32 b) (\<lambda>x. bind_res (retrieveInt32 b) (\<lambda>b'. Inr (x, b')))"

definition readInt16 :: "buffer \<Rightarrow> (i16 \<times> buffer) res" where
  "readInt16 b = bind_res (peekInt16 b) (\<lambda>x. bind_res (retrieveInt16 b) (\<lambda>b'. Inr (x, b')))"

definition readInt8 :: "buffer \<Rightarrow> (byte \<times> buffer) res" where
  "readInt8 b = bind_res (peekInt8 b) (\<lambda>x. bind_res (retrieveInt8 b) (\<lambda>b'. Inr (x, b')))"

section \<open>Prepending, shrinking, reading from a descriptor\<close>

definition prepend :: "byte list \<Rightarrow> buffer \<Rightarrow> buffer res" where
  "prepend bytes b =
     assert_res (length bytes \<le> prependableBytes b)
       (let r = readerIndex b - length bytes
        in Inr (b\<lparr>readerIndex := r, buf_data := write_at r bytes (buf_data b)\<rparr>))"

definition prependInt64 :: "i64 \<Rightarrow> buffer \<Rightarrow> buffer res" where
  "prependInt64 x b = prepend (mem_bytes 8 (hostToNetwork64 x)) b"

definition prependInt32 :: "i32 \<Rightarrow> buffer \<Rightarrow> buffer res" where
  "prependInt32 x b = prepend (mem_bytes 4 (hostToNetwork32 x)) b"

definition prependInt16 :: "i16 \<Rightarrow> buffer \<Rightarrow> buffer res" where
  "prependInt16 x b = prepend (mem_bytes 2 (hostToNetwork16 x)) b"

definition prependInt8 :: "byte \<Rightarrow> buffer \<Rightarrow> buffer res" where
  "prependInt8 x b = prepend [x] b"

text \<open>
  \<open>shrink\<close> copies the readable bytes through \<open>toStringPiece\<close>, whose length is a signed
  32-bit \<open>int\<close> (\<open>StringPiece::size\<close>): a length whose 32-bit truncation is negative is
  sign-extended to a huge \<open>size_t\<close> when the other buffer appends it. Reading that many
  bytes from the piece would leave the readable part; the vector refuses to grow before that.
\<close>

definition piece_length :: "nat \<Rightarrow> nat" where
  "piece_length n = (let k = n mod 2 ^ 32 in if k < 2 ^ 31 then k else 2 ^ 64 - 2 ^ 32 + k)"

definition shrink :: "nat \<Rightarrow> buffer \<Rightarrow> buffer res" where
  "shrink reserve b =
     bind_res (ensureWritableBytes (size_add (readableBytes b) reserve) (new_Buffer kInitialSize))
       (\<lambda>other. let len = piece_length (readableBytes b)
                in if len \<le> readableBytes b then buf_append (take len (peek b)) other
                   else bind_res (ensureWritableBytes len other) (\<lambda>_. Inl UseAfterFree))"

text \<open>
  \<open>readFd\<close>: the argument is what \<open>readv\<close> does, either an \<open>errno\<close> or the bytes it
  stores, first into the writable part of the vector, then into the 65536-byte stack buffer.
  The result is the value returned, the saved \<open>errno\<close> and the buffer.
\<close>

definition extrabuf_size :: nat where
  "extrabuf_size = 65536"

definition iov_capacity :: "buffer \<Rightarrow> nat" where
  "iov_capacity b =
     (if writableBytes b < extrabuf_size then writableBytes b + extrabuf_size else writableBytes b)"

definition readFd :: "int + byte list \<Rightarrow> buffer \<Rightarrow> (int \<times> int \<times> buffer) res" where
  "readFd r b =
     (case r of
        Inl err \<Rightarrow> Inr (- 1, err, b)
      | Inr bytes \<Rightarrow>
          (let writable = writableBytes b; n = length bytes;
               b1 = b\<lparr>buf_data := write_at (writerIndex b) (take writable bytes) (buf_data b)\<rparr>
           in if n \<le> writable then Inr (int n, 0, b1\<lparr>writerIndex := writerIndex b + n\<rparr>)
              else bind_res (buf_append (drop writable bytes) (b1\<lparr>writerIndex := length (buf_data b)\<rparr>))
                     (\<lambda>b2. Inr (int n, 0, b2))))"

section \<open>Well-formedness and the basic laws\<close>

definition buffer_ok :: "buffer \<Rightarrow> bool" where
  "buffer_ok b \<longleftrightarrow> readerIndex b \<le> writerIndex b \<and> writerIndex b \<le> length (buf_data b)
     \<and> length (buf_data b) \<le> vector_max_size"

text \<open>How many more bytes can be appended before the vector reaches its maximal size.\<close>

definition buffer_room :: "buffer \<Rightarrow> nat" where
  "buffer_room b = vector_max_size - max kCheapPrepend (writerIndex b)"

lemmas buffer_obs = readableBytes_def writableBytes_def prependableBytes_def peek_def
  buffer_ok_def kCheapPrepend_def

lemma new_Buffer_ok:
  "kCheapPrepend + n \<le> vector_max_size \<Longrightarrow> buffer_ok (new_Buffer n)"
  by (simp add: new_Buffer_def buffer_obs)

lemma peek_new_Buffer [simp]: "peek (new_Buffer n) = []"
  by (simp add: new_Buffer_def buffer_obs slice_simps)

lemma length_peek: "buffer_ok b \<Longrightarrow> length (peek b) = readableBytes b"
  by (simp add: buffer_obs slice_simps)

lemma retrieve_ok:
  assumes "buffer_ok b" and "n \<le> length (peek b)" and "kCheapPrepend \<le> length (buf_data b)"
  shows "\<exists>b'. retrieve n b = Inr b' \<and> buffer_ok b' \<and> peek b' = drop n (peek b)
           \<and> length (buf_data b') = length (buf_data b) \<and> writerIndex b' \<le> max kCheapPrepend (writerIndex b)"
proof (cases "n < readableBytes b")
  case True
  then show ?thesis
    using assms by (auto simp: retrieve_def buffer_obs slice_simps)
next
  case False
  then have "n = readableBytes b" using assms length_peek by auto
  then show ?thesis
    using assms length_peek [OF assms(1)]
    by (auto simp: retrieve_def retrieveAll_def buffer_obs slice_simps)
qed

lemma retrieve_too_much: "buffer_ok b \<Longrightarrow> length (peek b) < n \<Longrightarrow> retrieve n b = Inl AssertFailed"
  by (simp add: retrieve_def length_peek)

lemma vec_resize_ok:
  "length xs \<le> n \<Longrightarrow> n \<le> vector_max_size \<Longrightarrow> vec_resize n xs = Inr (xs @ replicate (n - length xs) 0)"
  by (simp add: vec_resize_def)

text \<open>
  \<open>makeSpace\<close> keeps the readable bytes, whether it grows the vector or moves them to the front;
  in the second case the assertion \<open>kCheapPrepend < readerIndex_\<close> always holds.
\<close>

lemma makeSpace_ok:
  assumes ok: "buffer_ok b" and need: "writableBytes b < len"
    and room: "writerIndex b + len \<le> vector_max_size"
  shows "\<exists>b'. makeSpace len b = Inr b' \<and> buffer_ok b' \<and> peek b' = peek b \<and> len \<le> writableBytes b'
           \<and> writerIndex b' \<le> max kCheapPrepend (writerIndex b)
           \<and> length (buf_data b) \<le> length (buf_data b')"
proof -
  have sums: "size_add (writableBytes b) (prependableBytes b) = writableBytes b + prependableBytes b"
    "size_add len kCheapPrepend = len + kCheapPrepend"
    "size_add (writerIndex b) len = writerIndex b + len"
    using ok room by (auto simp: buffer_obs vector_max_size_def)
  show ?thesis
  proof (cases "writableBytes b + prependableBytes b < len + kCheapPrepend")
    case True
    let ?b' = "b\<lparr>buf_data := buf_data b @ replicate (writerIndex b + len - length (buf_data b)) 0\<rparr>"
    have "length (buf_data b) \<le> writerIndex b + len"
      using ok need by (simp add: buffer_ok_def writableBytes_def)
    then have "makeSpace len b = Inr ?b'"
      using True room by (simp add: makeSpace_def sums vec_resize_ok)
    then show ?thesis
      using ok need room by (intro exI [of _ ?b']) (auto simp: buffer_obs slice_simps)
  next
    case False
    let ?b' = "b\<lparr>buf_data := write_at kCheapPrepend (peek b) (buf_data b),
                 readerIndex := kCheapPrepend, writerIndex := kCheapPrepend + readableBytes b\<rparr>"
    have front: "kCheapPrepend < readerIndex b"
      using False need by (simp add: buffer_obs)
    then have fits: "kCheapPrepend + length (peek b) \<le> length (buf_data b)"
      using ok by (auto simp: buffer_obs slice_simps)
    have "makeSpace len b = Inr ?b'"
      using False front by (simp add: makeSpace_def sums Let_def) (simp add: readableBytes_def)
    moreover have "peek ?b' = peek b"
      using slice_of_write_same [OF fits] length_peek [OF ok]
      by (simp add: peek_def [of ?b'])
    moreover have "buffer_ok ?b' \<and> len \<le> writableBytes ?b'"
      using False fits ok front length_write_at [OF fits] length_peek [OF ok]
      by (auto simp: buffer_ok_def writableBytes_def prependableBytes_def readableBytes_def)
    ultimately show ?thesis
      using ok front length_write_at [OF fits]
      by (intro exI [of _ ?b']) (auto simp: readableBytes_def buffer_ok_def)
  qed
qed

lemma ensureWritableBytes_ok:
  assumes "buffer_ok b" and "writerIndex b + len \<le> vector_max_size"
  shows "\<exists>b'. ensureWritableBytes len b = Inr b' \<and> buffer_ok b' \<and> peek b' = peek b
           \<and> len \<le> writableBytes b' \<and> writerIndex b' \<le> max kCheapPrepend (writerIndex b)
           \<and> length (buf_data b) \<le> length (buf_data b')"
proof (cases "writableBytes b < len")
  case True
  then show ?thesis
    using makeSpace_ok [OF assms(1) True assms(2)] by (auto simp: ensureWritableBytes_def)
next
  case False
  then show ?thesis
    using assms(1) by (auto simp: ensureWritableBytes_def)
qed

lemma append_in_place:
  assumes "buffer_ok b" and "length xs \<le> writableBytes b"
  shows "\<exists>b'. hasWritten (length xs) (b\<lparr>buf_data := write_at (writerIndex b) xs (buf_data b)\<rparr>) = Inr b'
           \<and> buffer_ok b' \<and> peek b' = peek b @ xs \<and> writerIndex b' = writerIndex b + length xs
           \<and> length (buf_data b') = length (buf_data b)"
proof -
  let ?d = "write_at (writerIndex b) xs (buf_data b)"
  have fits: "writerIndex b + length xs \<le> length (buf_data b)"
    using assms by (auto simp: buffer_obs)
  have "slice_of (readerIndex b) (writerIndex b + length xs) ?d
        = slice_of (readerIndex b) (writerIndex b) ?d
          @ slice_of (writerIndex b) (writerIndex b + length xs) ?d"
    using assms(1) by (intro slice_of_append [symmetric]) (auto simp: buffer_ok_def)
  also have "\<dots> = peek b @ xs"
    using assms(1) fits by (simp add: slice_simps buffer_obs)
  finally show ?thesis
    using assms fits length_write_at [OF fits]
    by (auto simp: hasWritten_def buffer_obs)
qed

lemma buf_append_ok:
  assumes "buffer_ok b" and "writerIndex b + length xs \<le> vector_max_size"
  shows "\<exists>b'. buf_append xs b = Inr b' \<and> buffer_ok b' \<and> peek b' = peek b @ xs
           \<and> writerIndex b' \<le> max kCheapPrepend (writerIndex b) + length xs
           \<and> length (buf_data b) \<le> length (buf_data b')"
proof -
  obtain b1 where b1: "ensureWritableBytes (length xs) b = Inr b1" "buffer_ok b1" "peek b1 = peek b"
      "length xs \<le> writableBytes b1" "writerIndex b1 \<le> max kCheapPrepend (writerIndex b)"
      "length (buf_data b) \<le> length (buf_data b1)"
    using ensureWritableBytes_ok [OF assms] by blast
  show ?thesis
    using append_in_place [OF b1(2,4)] b1 by (auto simp: buf_append_def)
qed

section \<open>The byte-queue contract\<close>

datatype queue_op = Push "byte list" | Pop nat

text \<open>The specification: a list; popping more than there is is an error.\<close>

fun queue_spec :: "queue_op list \<Rightarrow> byte list \<Rightarrow> byte list option" where
  "queue_spec [] q = Some q"
| "queue_spec (Push xs # ops) q = queue_spec ops (q @ xs)"
| "queue_spec (Pop n # ops) q = (if n \<le> length q then queue_spec ops (drop n q) else None)"

fun pushed_bytes :: "queue_op list \<Rightarrow> nat" where
  "pushed_bytes [] = 0"
| "pushed_bytes (Push xs # ops) = length xs + pushed_bytes ops"
| "pushed_bytes (Pop n # ops) = pushed_bytes ops"

fun queue_run :: "(byte list \<Rightarrow> 'b \<Rightarrow> 'b res) \<Rightarrow> (nat \<Rightarrow> 'b \<Rightarrow> 'b res) \<Rightarrow> queue_op list \<Rightarrow> 'b \<Rightarrow> 'b res" where
  "queue_run push pop [] b = Inr b"
| "queue_run push pop (Push xs # ops) b = bind_res (push xs b) (queue_run push pop ops)"
| "queue_run push pop (Pop n # ops) b = bind_res (pop n b) (queue_run push pop ops)"

locale byte_queue =
  fixes wf :: "'b \<Rightarrow> bool"
    and content :: "'b \<Rightarrow> byte list"
    and room :: "'b \<Rightarrow> nat"
    and push :: "byte list \<Rightarrow> 'b \<Rightarrow> 'b res"
    and pop :: "nat \<Rightarrow> 'b \<Rightarrow> 'b res"
  assumes push_ok: "wf b \<Longrightarrow> length xs \<le> room b \<Longrightarrow>
      \<exists>b'. push xs b = Inr b' \<and> wf b' \<and> content b' = content b @ xs \<and> room b - length xs \<le> room b'"
    and pop_ok: "wf b \<Longrightarrow> n \<le> length (content b) \<Longrightarrow>
      \<exists>b'. pop n b = Inr b' \<and> wf b' \<and> content b' = drop n (content b) \<and> room b \<le> room b'"
    and pop_err: "wf b \<Longrightarrow> length (content b) < n \<Longrightarrow> pop n b = Inl AssertFailed"
begin

lemma push_result:
  "wf b \<Longrightarrow> length xs \<le> room b \<Longrightarrow> push xs b = Inr b' \<Longrightarrow>
     wf b' \<and> content b' = content b @ xs \<and> room b - length xs \<le> room b'"
  using push_ok [of b xs] by auto

lemma pop_result:
  "wf b \<Longrightarrow> pop n b = Inr b' \<Longrightarrow>
     wf b' \<and> n \<le> length (content b) \<and> content b' = drop n (content b) \<and> room b \<le> room b'"
  using pop_ok [of b n] pop_err [of b n] by (cases "n \<le> length (content b)") auto

lemma run_refines:
  assumes "wf b" and "pushed_bytes ops \<le> room b"
  shows "(case queue_spec ops (content b) of
            Some q \<Rightarrow> (\<exists>b'. queue_run push pop ops b = Inr b' \<and> wf b' \<and> content b' = q)
          | None \<Rightarrow> queue_run push pop ops b = Inl AssertFailed)"
  using assms
proof (induction ops arbitrary: b)
  case Nil
  then show ?case by simp
next
  case (Cons op ops)
  show ?case
  proof (cases op)
    case (Push xs)
    with Cons.prems obtain b' where b': "push xs b = Inr b'" "wf b'" "content b' = content b @ xs"
        "room b - length xs \<le> room b'"
      using push_ok [of b xs] by auto
    moreover have "pushed_bytes ops \<le> room b'"
      using b'(4) Cons.prems(2) Push by simp
    ultimately show ?thesis
      using Cons.IH [of b'] unfolding Push by (simp split: option.splits)
  next
    case (Pop n)
    show ?thesis
    proof (cases "n \<le> length (content b)")
      case True
      with Cons.prems obtain b' where b': "pop n b = Inr b'" "wf b'" "content b' = drop n (content b)"
          "room b \<le> room b'"
        using pop_ok [of b n] by auto
      moreover have "pushed_bytes ops \<le> room b'"
        using b'(4) Cons.prems(2) Pop by simp
      ultimately show ?thesis
        using Cons.IH [of b'] True unfolding Pop by (simp split: option.splits)
    next
      case False
      then show ?thesis
        using Cons.prems pop_err [of b n] unfolding Pop by simp
    qed
  qed
qed

end

text \<open>
  The buffer meets the contract once its vector has the \<open>kCheapPrepend\<close> bytes the constructor
  allocates; no operation makes the vector shorter.
\<close>

definition buffer_wf :: "buffer \<Rightarrow> bool" where
  "buffer_wf b \<longleftrightarrow> buffer_ok b \<and> kCheapPrepend \<le> length (buf_data b)"

lemma new_Buffer_wf: "kCheapPrepend + n \<le> vector_max_size \<Longrightarrow> buffer_wf (new_Buffer n)"
  using new_Buffer_ok [of n] by (simp add: buffer_wf_def new_Buffer_def)

interpretation bq: byte_queue buffer_wf peek buffer_room buf_append retrieve
proof unfold_locales
  fix b and xs :: "byte list"
  assume wf: "buffer_wf b" and room: "length xs \<le> buffer_room b"
  have fits: "writerIndex b + length xs \<le> vector_max_size"
    using wf room by (auto simp: buffer_wf_def buffer_ok_def buffer_room_def)
  then show "\<exists>b'. buf_append xs b = Inr b' \<and> buffer_wf b' \<and> peek b' = peek b @ xs
               \<and> buffer_room b - length xs \<le> buffer_room b'"
    using buf_append_ok [of b xs] wf by (auto simp: buffer_wf_def buffer_room_def)
next
  fix b n assume "buffer_wf b" and "n \<le> length (peek b)"
  then show "\<exists>b'. retrieve n b = Inr b' \<and> buffer_wf b' \<and> peek b' = drop n (peek b)
               \<and> buffer_room b \<le> buffer_room b'"
    using retrieve_ok [of b n] by (auto simp: buffer_wf_def buffer_room_def)
next
  fix b n assume "buffer_wf b" and "length (peek b) < n"
  then show "retrieve n b = Inl AssertFailed"
    by (simp add: buffer_wf_def retrieve_too_much)
qed

section \<open>Integers, prepending, searching\<close>

lemma take_peek_append: "length xs = n \<Longrightarrow> take n (xs @ ys) = xs"
  by simp

lemma readable_append: "buffer_ok b \<Longrightarrow> peek b = xs @ ys \<Longrightarrow> length xs \<le> readableBytes b"
  using length_peek [of b] by simp

text \<open>Reading an integer consumes exactly its big-endian image.\<close>

lemma readInt_ok:
  assumes "buffer_wf b"
  shows "peek b = be_bytes 8 w @ rest \<Longrightarrow> \<exists>b'. readInt64 b = Inr (w, b') \<and> buffer_wf b' \<and> peek b' = rest"
    and "peek b = be_bytes 4 x @ rest \<Longrightarrow> \<exists>b'. readInt32 b = Inr (x, b') \<and> buffer_wf b' \<and> peek b' = rest"
    and "peek b = be_bytes 2 y @ rest \<Longrightarrow> \<exists>b'. readInt16 b = Inr (y, b') \<and> buffer_wf b' \<and> peek b' = rest"
    and "peek b = z # rest \<Longrightarrow> \<exists>b'. readInt8 b = Inr (z, b') \<and> buffer_wf b' \<and> peek b' = rest"
proof -
  have len: "length (peek b) = readableBytes b"
    using assms by (simp add: buffer_wf_def length_peek)
  show "\<exists>b'. readInt64 b = Inr (w, b') \<and> buffer_wf b' \<and> peek b' = rest"
    if "peek b = be_bytes 8 w @ rest"
    using that len bq.pop_ok [OF assms, of 8]
    by (auto simp: readInt64_def peekInt64_def retrieveInt64_def assert_res_def)
  show "\<exists>b'. readInt32 b = Inr (x, b') \<and> buffer_wf b' \<and> peek b' = rest"
    if "peek b = be_bytes 4 x @ rest"
    using that len bq.pop_ok [OF assms, of 4]
    by (auto simp: readInt32_def peekInt32_def retrieveInt32_def assert_res_def)
  show "\<exists>b'. readInt16 b = Inr (y, b') \<and> buffer_wf b' \<and> peek b' = rest"
    if "peek b = be_bytes 2 y @ rest"
    using that len bq.pop_ok [OF assms, of 2]
    by (auto simp: readInt16_def peekInt16_def retrieveInt16_def assert_res_def)
  show "\<exists>b'. readInt8 b = Inr (z, b') \<and> buffer_wf b' \<and> peek b' = rest" if p: "peek b = z # rest"
  proof -
    have "readerIndex b < writerIndex b"
      using p len by (auto simp: readableBytes_def)
    moreover have "peek b ! 0 = buf_data b ! readerIndex b"
      using calculation assms by (simp add: peek_def slice_of_def buffer_wf_def buffer_ok_def)
    ultimately show ?thesis
      using p len bq.pop_ok [OF assms, of 1]
      by (auto simp: readInt8_def peekInt8_def retrieveInt8_def assert_res_def)
  qed
qed

lemma prepend_ok:
  assumes wf: "buffer_wf b" and fits: "length xs \<le> prependableBytes b"
  shows "\<exists>b'. prepend xs b = Inr b' \<and> buffer_wf b' \<and> peek b' = xs @ peek b"
proof -
  let ?r = "readerIndex b - length xs"
  let ?d = "write_at ?r xs (buf_data b)"
  have r: "?r + length xs = readerIndex b" and le: "readerIndex b \<le> length (buf_data b)"
    using wf fits by (auto simp: prependableBytes_def buffer_wf_def buffer_ok_def)
  have "slice_of ?r (writerIndex b) ?d = slice_of ?r (?r + length xs) ?d @ slice_of (readerIndex b) (writerIndex b) ?d"
    using wf r by (subst r, intro slice_of_append [symmetric]) (auto simp: buffer_wf_def buffer_ok_def)
  also have "\<dots> = xs @ peek b"
    using r le wf slice_of_write_same [of ?r xs "buf_data b"]
    by (simp add: slice_of_write_after peek_def buffer_wf_def buffer_ok_def)
  finally show ?thesis
    using wf fits r le length_write_at [of ?r xs "buf_data b"]
    by (auto simp: prepend_def Let_def peek_def buffer_wf_def buffer_ok_def)
qed

lemma prepend_too_much: "prependableBytes b < length xs \<Longrightarrow> prepend xs b = Inl AssertFailed"
  by (simp add: prepend_def)

lemma findCRLF_iff:
  assumes "buffer_ok b"
  shows "findCRLF b = Some p \<longleftrightarrow>
           (let i = p - readerIndex b in readerIndex b \<le> p \<and> p < writerIndex b
              \<and> take 2 (drop i (peek b)) = kCRLF \<and> (\<forall>k < i. take 2 (drop k (peek b)) \<noteq> kCRLF))"
proof -
  let ?i = "std_search (peek b) kCRLF"
  have len: "readerIndex b + length (peek b) = writerIndex b"
    using assms length_peek [OF assms] by (simp add: readableBytes_def buffer_ok_def)
  have k2: "length kCRLF = 2" by (simp add: kCRLF_def)
  have le: "?i \<le> length (peek b)" by (rule std_search_le)
  have found: "?i < length (peek b) \<Longrightarrow> take 2 (drop ?i (peek b)) = kCRLF"
    using std_search_found [of "peek b" kCRLF] k2 by simp
  have first: "k < ?i \<Longrightarrow> take 2 (drop k (peek b)) \<noteq> kCRLF" for k
    using std_search_first [of k "peek b" kCRLF] k2 by simp
  have late: "take 2 (drop j (peek b)) = kCRLF \<Longrightarrow> \<forall>k < j. take 2 (drop k (peek b)) \<noteq> kCRLF \<Longrightarrow> j < length (peek b) \<Longrightarrow> ?i = j" for j
    using found first le by (metis linorder_neqE_nat order_le_less_trans less_trans)
  show ?thesis
    using len le found first late [of "p - readerIndex b"]
    by (auto simp: findCRLF_def Let_def)
qed


lemma readFd_ok:
  assumes wf: "buffer_wf b" and le: "length bytes \<le> iov_capacity b"
    and room: "length (buf_data b) + extrabuf_size \<le> vector_max_size"
  shows "\<exists>b'. readFd (Inr bytes) b = Inr (int (length bytes), 0, b') \<and> buffer_wf b' \<and> peek b' = peek b @ bytes"
proof -
  let ?w = "writableBytes b"
  let ?b1 = "b\<lparr>buf_data := write_at (writerIndex b) (take ?w bytes) (buf_data b)\<rparr>"
  let ?n = "length (take ?w bytes)"
  have ok: "buffer_ok b" using wf by (simp add: buffer_wf_def)
  obtain b2 where b2: "hasWritten ?n ?b1 = Inr b2" "buffer_ok b2" "peek b2 = peek b @ take ?w bytes"
      "writerIndex b2 = writerIndex b + ?n" "length (buf_data b2) = length (buf_data b)"
    using append_in_place [OF ok, of "take ?w bytes"] by auto
  have eq2: "b2 = ?b1\<lparr>writerIndex := writerIndex b + ?n\<rparr>"
    using b2(1) by (auto simp: hasWritten_def res_simps)
  have wf2: "buffer_wf b2"
    using b2(2,5) wf by (simp add: buffer_wf_def)
  show ?thesis
  proof (cases "length bytes \<le> ?w")
    case True
    then show ?thesis
      using wf2 b2(3) eq2 by (auto simp: readFd_def Let_def)
  next
    case False
    then have small: "?w < extrabuf_size"
      using le by (auto simp: iov_capacity_def split: if_splits)
    have "length (drop ?w bytes) \<le> extrabuf_size"
      using le small by (simp add: iov_capacity_def)
    moreover have "writerIndex b2 = length (buf_data b)"
      using b2(4) False ok by (simp add: writableBytes_def buffer_ok_def min_def)
    ultimately have "length (drop ?w bytes) \<le> buffer_room b2"
      using room wf by (auto simp: buffer_room_def buffer_wf_def)
    then obtain b3 where b3: "buf_append (drop ?w bytes) b2 = Inr b3" "buffer_wf b3" "peek b3 = peek b2 @ drop ?w bytes"
      using bq.push_ok [OF wf2] by blast
    moreover have "?b1\<lparr>writerIndex := length (buf_data b)\<rparr> = b2"
      using eq2 \<open>writerIndex b2 = length (buf_data b)\<close> by simp
    ultimately show ?thesis
      using False b2(3) by (auto simp: readFd_def Let_def)
  qed
qed

text \<open>The temporary buffer that \<open>shrink\<close> fills: empty, with its indices at the front.\<close>

lemma shrink_other:
  assumes "kCheapPrepend + n \<le> vector_max_size"
  shows "\<exists>b1. ensureWritableBytes n (new_Buffer kInitialSize) = Inr b1 \<and> buffer_ok b1 \<and> peek b1 = []
           \<and> n \<le> writableBytes b1 \<and> readerIndex b1 = kCheapPrepend \<and> writerIndex b1 = kCheapPrepend
           \<and> kCheapPrepend \<le> length (buf_data b1)"
proof -
  let ?new = "new_Buffer kInitialSize"
  have new: "buffer_ok ?new" "writerIndex ?new = kCheapPrepend" "readerIndex ?new = kCheapPrepend"
    "kCheapPrepend \<le> length (buf_data ?new)"
    using new_Buffer_ok [of kInitialSize]
    by (simp_all add: kInitialSize_def kCheapPrepend_def vector_max_size_def new_Buffer_def)
  obtain b1 where b1: "ensureWritableBytes n ?new = Inr b1" "buffer_ok b1" "peek b1 = []"
      "n \<le> writableBytes b1" "kCheapPrepend \<le> length (buf_data b1)"
    using ensureWritableBytes_ok [OF new(1), of n] new(2,4) assms by auto
  have "readerIndex b1 = kCheapPrepend \<and> writerIndex b1 = kCheapPrepend"
    using b1(1) new by (auto simp: ensureWritableBytes_def makeSpace_def res_simps Let_def split: if_splits)
  then show ?thesis using b1 by blast
qed

lemma shrink_ok:
  assumes wf: "buffer_wf b" and small: "readableBytes b < 2 ^ 31"
    and room: "kCheapPrepend + readableBytes b + reserve \<le> vector_max_size"
  shows "\<exists>b'. shrink reserve b = Inr b' \<and> buffer_wf b' \<and> peek b' = peek b \<and> reserve \<le> writableBytes b'"
proof -
  have len: "length (peek b) = readableBytes b"
    using wf by (simp add: buffer_wf_def length_peek)
  have sum: "size_add (readableBytes b) reserve = readableBytes b + reserve"
    using room by (simp add: vector_max_size_def)
  have piece: "piece_length (readableBytes b) = readableBytes b"
    using small by (simp add: piece_length_def)
  obtain b1 where b1: "ensureWritableBytes (readableBytes b + reserve) (new_Buffer kInitialSize) = Inr b1"
      "buffer_ok b1" "peek b1 = []" "readableBytes b + reserve \<le> writableBytes b1"
      "kCheapPrepend \<le> length (buf_data b1)"
    using shrink_other [of "readableBytes b + reserve"] room by auto
  have le: "length (peek b) \<le> writableBytes b1"
    using b1(4) len by simp
  obtain b2 where b2: "buf_append (peek b) b1 = Inr b2" "buffer_ok b2" "peek b2 = peek b"
      "writerIndex b2 = writerIndex b1 + length (peek b)" "length (buf_data b2) = length (buf_data b1)"
    using append_in_place [OF b1(2) le] b1(3) le
    by (auto simp: buf_append_def ensureWritableBytes_def)
  have "reserve \<le> writableBytes b2"
    using b2(4,5) b1(4) len by (simp add: writableBytes_def)
  then show ?thesis
    using b1 b2 len sum piece by (auto simp: shrink_def Let_def buffer_wf_def)
qed

lemma shrink_huge:
  assumes big: "2 ^ 31 \<le> readableBytes b" "readableBytes b < 2 ^ 32 - 8"
    and room: "kCheapPrepend + readableBytes b + reserve \<le> vector_max_size"
  shows "shrink reserve b = Inl LengthError"
proof -
  let ?n = "piece_length (readableBytes b)"
  have n: "?n = 2 ^ 64 - 2 ^ 32 + readableBytes b"
    using big by (simp add: piece_length_def)
  have sum: "size_add (readableBytes b) reserve = readableBytes b + reserve"
    using room by (simp add: vector_max_size_def)
  obtain b1 where b1: "ensureWritableBytes (readableBytes b + reserve) (new_Buffer kInitialSize) = Inr b1"
      "buffer_ok b1" "readerIndex b1 = kCheapPrepend" "writerIndex b1 = kCheapPrepend"
    using shrink_other [of "readableBytes b + reserve"] room by auto
  have w: "writableBytes b1 < ?n" "writableBytes b1 + kCheapPrepend < 2 ^ 64"
    using b1(2) big n by (auto simp: buffer_ok_def writableBytes_def vector_max_size_def kCheapPrepend_def)
  have "writableBytes b1 + kCheapPrepend < ?n + kCheapPrepend" and "?n + kCheapPrepend < 2 ^ 64"
    using w big n by (auto simp: kCheapPrepend_def)
  then have "makeSpace ?n b1 = Inl LengthError"
    using b1 w n by (auto simp: makeSpace_def prependableBytes_def vec_resize_def vector_max_size_def add.commute)
  then show ?thesis
    using b1(1) w n sum by (simp add: shrink_def Let_def ensureWritableBytes_def)
qed

section \<open>Properties of the buffer\<close>

text \<open>(C1) Refinement: any sequence of \<open>append\<close> and \<open>retrieve\<close> calls on a well-formed buffer
  behaves as the same sequence on a plain byte queue. The readable bytes are always the bytes
  appended and not yet retrieved, in order, whatever growing and moving \<open>makeSpace\<close> does; a
  \<open>retrieve\<close> beyond the readable bytes is the assertion failure, and nothing else fails as
  long as the vector's maximal size is not exceeded.\<close>

theorem buffer_refines_queue:
  assumes "buffer_wf b" and "pushed_bytes ops \<le> buffer_room b"
  shows "(case queue_spec ops (peek b) of
            Some q \<Rightarrow> (\<exists>b'. queue_run buf_append retrieve ops b = Inr b' \<and> buffer_wf b' \<and> peek b' = q)
          | None \<Rightarrow> queue_run buf_append retrieve ops b = Inl AssertFailed)"
  using assms by (rule bq.run_refines)

theorem buffer_refines_queue_witness:
  "\<exists>b'. queue_run buf_append retrieve [Push [1, 2, 3, 4, 5], Pop 3, Push [6, 7, 8], Pop 1] (new_Buffer 4) = Inr b'
      \<and> buffer_wf b' \<and> peek b' = [5, 6, 7, 8]"
proof -
  have "buffer_wf (new_Buffer 4)"
    by (rule new_Buffer_wf) (simp add: kCheapPrepend_def vector_max_size_def)
  moreover have "pushed_bytes [Push [1, 2, 3, 4, 5], Pop 3, Push [6, 7, 8], Pop 1] \<le> buffer_room (new_Buffer 4)"
    by (simp add: buffer_room_def new_Buffer_def kCheapPrepend_def vector_max_size_def)
  ultimately show ?thesis
    using buffer_refines_queue [of "new_Buffer 4" "[Push [1, 2, 3, 4, 5], Pop 3, Push [6, 7, 8], Pop 1]"]
    by simp
qed

text \<open>(C21) Round trip: integers of every width appended one after the other are read back unchanged,
  in order, after the bytes that were already there; on the wire each is its big-endian image.\<close>

theorem int_roundtrip:
  assumes wf: "buffer_wf b" and room: "15 \<le> buffer_room b"
  shows "\<exists>b1 b2 b3 b4 c0 c1 c2 c3 c4.
           appendInt64 w b = Inr b1 \<and> appendInt32 x b1 = Inr b2 \<and> appendInt16 y b2 = Inr b3 \<and> appendInt8 z b3 = Inr b4
         \<and> peek b4 = peek b @ be_bytes 8 w @ be_bytes 4 x @ be_bytes 2 y @ [z]
         \<and> retrieve (length (peek b)) b4 = Inr c0
         \<and> readInt64 c0 = Inr (w, c1) \<and> readInt32 c1 = Inr (x, c2) \<and> readInt16 c2 = Inr (y, c3)
         \<and> readInt8 c3 = Inr (z, c4) \<and> peek c4 = []"
proof -
  obtain b1 where b1: "appendInt64 w b = Inr b1" "buffer_wf b1" "peek b1 = peek b @ be_bytes 8 w" "7 \<le> buffer_room b1"
    using bq.push_ok [OF wf, of "be_bytes 8 w"] room by (auto simp: appendInt64_def)
  obtain b2 where b2: "appendInt32 x b1 = Inr b2" "buffer_wf b2" "peek b2 = peek b1 @ be_bytes 4 x" "3 \<le> buffer_room b2"
    using bq.push_ok [OF b1(2), of "be_bytes 4 x"] b1(4) by (auto simp: appendInt32_def)
  obtain b3 where b3: "appendInt16 y b2 = Inr b3" "buffer_wf b3" "peek b3 = peek b2 @ be_bytes 2 y" "1 \<le> buffer_room b3"
    using bq.push_ok [OF b2(2), of "be_bytes 2 y"] b2(4) by (auto simp: appendInt16_def)
  obtain b4 where b4: "appendInt8 z b3 = Inr b4" "buffer_wf b4" "peek b4 = peek b3 @ [z]"
    using bq.push_ok [OF b3(2), of "[z]"] b3(4) by (auto simp: appendInt8_def)
  have all: "peek b4 = peek b @ be_bytes 8 w @ be_bytes 4 x @ be_bytes 2 y @ [z]"
    using b1 b2 b3 b4 by simp
  obtain c0 where c0: "retrieve (length (peek b)) b4 = Inr c0" "buffer_wf c0"
      "peek c0 = be_bytes 8 w @ be_bytes 4 x @ be_bytes 2 y @ [z]"
    using bq.pop_ok [OF b4(2), of "length (peek b)"] all by auto
  obtain c1 where c1: "readInt64 c0 = Inr (w, c1)" "buffer_wf c1" "peek c1 = be_bytes 4 x @ be_bytes 2 y @ [z]"
    using readInt_ok(1) [OF c0(2,3)] by blast
  obtain c2 where c2: "readInt32 c1 = Inr (x, c2)" "buffer_wf c2" "peek c2 = be_bytes 2 y @ [z]"
    using readInt_ok(2) [OF c1(2,3)] by blast
  obtain c3 where c3: "readInt16 c2 = Inr (y, c3)" "buffer_wf c3" "peek c3 = [z]"
    using readInt_ok(3) [OF c2(2,3)] by blast
  obtain c4 where c4: "readInt8 c3 = Inr (z, c4)" "peek c4 = []"
    using readInt_ok(4) [OF c3(2,3)] by blast
  show ?thesis
    using b1(1) b2(1) b3(1) b4(1) all c0(1) c1(1) c2(1) c3(1) c4 by blast
qed

theorem int_roundtrip_witness:
  "buffer_wf (new_Buffer 16) \<and> 15 \<le> buffer_room (new_Buffer 16)
   \<and> (\<exists>b1 b2 b3 b4 c0 c1 c2 c3 c4.
        appendInt64 (- 2) (new_Buffer 16) = Inr b1 \<and> appendInt32 258 b1 = Inr b2
      \<and> appendInt16 772 b2 = Inr b3 \<and> appendInt8 9 b3 = Inr b4 \<and> retrieve 0 b4 = Inr c0
      \<and> readInt64 c0 = Inr (- 2, c1) \<and> readInt32 c1 = Inr (258, c2) \<and> readInt16 c2 = Inr (772, c3)
      \<and> readInt8 c3 = Inr (9, c4) \<and> peek c4 = [])"
proof -
  have wf: "buffer_wf (new_Buffer 16)"
    by (rule new_Buffer_wf) (simp add: kCheapPrepend_def vector_max_size_def)
  have room: "15 \<le> buffer_room (new_Buffer 16)"
    by (simp add: buffer_room_def new_Buffer_def kCheapPrepend_def vector_max_size_def)
  show ?thesis
    using wf room int_roundtrip [OF wf room, of "- 2" 258 772 9] by simp blast
qed

text \<open>(C34) A length header written with \<open>prependInt32\<close> in front of a message is read back, leaving
  exactly the message; with less than four prependable bytes the call is the assertion failure.\<close>

theorem prepend_header_roundtrip:
  assumes wf: "buffer_wf b"
  shows "if 4 \<le> prependableBytes b
         then \<exists>b1 b2. prependInt32 x b = Inr b1 \<and> peek b1 = be_bytes 4 x @ peek b
                \<and> readInt32 b1 = Inr (x, b2) \<and> peek b2 = peek b
         else prependInt32 x b = Inl AssertFailed"
proof (cases "4 \<le> prependableBytes b")
  case True
  then obtain b1 where "prependInt32 x b = Inr b1" "buffer_wf b1" "peek b1 = be_bytes 4 x @ peek b"
    using prepend_ok [OF wf, of "be_bytes 4 x"] by (auto simp: prependInt32_def)
  then show ?thesis
    using True readInt_ok(2) [of b1 x "peek b"] by auto
next
  case False
  then show ?thesis
    by (simp add: prependInt32_def prepend_too_much)
qed

theorem prepend_header_roundtrip_witness:
  "buffer_wf (new_Buffer 16) \<and>
   (\<exists>b1 b2. prependInt32 5 (new_Buffer 16) = Inr b1 \<and> peek b1 = be_bytes 4 (5 :: i32)
      \<and> readInt32 b1 = Inr (5, b2) \<and> peek b2 = [])"
proof -
  have wf: "buffer_wf (new_Buffer 16)"
    by (rule new_Buffer_wf) (simp add: kCheapPrepend_def vector_max_size_def)
  have "4 \<le> prependableBytes (new_Buffer 16)"
    by (simp add: prependableBytes_def new_Buffer_def kCheapPrepend_def)
  then show ?thesis
    using wf prepend_header_roundtrip [OF wf, of 5] by simp
qed

text \<open>(C33) Scatter read: whatever number of bytes \<open>readv\<close> delivers into the writable part and the
  stack buffer, \<open>readFd\<close> returns that number and the bytes are appended, in order, to the
  readable bytes; on an error it returns -1, saves \<open>errno\<close> and leaves the buffer unchanged.\<close>

theorem readFd_appends:
  assumes "buffer_wf b" and "length (buf_data b) + extrabuf_size \<le> vector_max_size"
    and "length bytes \<le> iov_capacity b"
  shows "readFd (Inl err) b = Inr (- 1, err, b) \<and>
         (\<exists>b'. readFd (Inr bytes) b = Inr (int (length bytes), 0, b') \<and> buffer_wf b' \<and> peek b' = peek b @ bytes)"
  using readFd_ok [OF assms(1,3,2)] by (simp add: readFd_def)

theorem readFd_appends_witness:
  "\<exists>b'. readFd (Inr [1, 2, 3, 4, 5]) (new_Buffer 2) = Inr (5, 0, b') \<and> peek b' = [1, 2, 3, 4, 5]"
proof -
  have wf: "buffer_wf (new_Buffer 2)"
    by (rule new_Buffer_wf) (simp add: kCheapPrepend_def vector_max_size_def)
  have room: "length (buf_data (new_Buffer 2)) + extrabuf_size \<le> vector_max_size"
    by (simp add: new_Buffer_def kCheapPrepend_def extrabuf_size_def vector_max_size_def)
  have le: "length [1, 2, 3, 4, 5 :: byte] \<le> iov_capacity (new_Buffer 2)"
    by (simp add: iov_capacity_def writableBytes_def new_Buffer_def kCheapPrepend_def extrabuf_size_def)
  show ?thesis
    using readFd_appends [OF wf room le, of 0] by auto
qed

text \<open>(C35) \<open>shrink\<close> keeps the readable bytes and leaves the requested reserve writable, as long as
  fewer than 2 GiB are readable.\<close>

theorem shrink_preserves:
  assumes "buffer_wf b" and "readableBytes b < 2 ^ 31"
    and "kCheapPrepend + readableBytes b + reserve \<le> vector_max_size"
  shows "\<exists>b'. shrink reserve b = Inr b' \<and> buffer_wf b' \<and> peek b' = peek b \<and> reserve \<le> writableBytes b'"
  using assms by (rule shrink_ok)

theorem shrink_preserves_witness:
  "\<exists>b'. shrink 100 (new_Buffer 4) = Inr b' \<and> peek b' = [] \<and> 100 \<le> writableBytes b'"
proof -
  have wf: "buffer_wf (new_Buffer 4)"
    by (rule new_Buffer_wf) (simp add: kCheapPrepend_def vector_max_size_def)
  have r: "readableBytes (new_Buffer 4) = 0"
    by (simp add: readableBytes_def new_Buffer_def)
  show ?thesis
    using shrink_preserves [OF wf, of 100] r by (auto simp: kCheapPrepend_def vector_max_size_def)
qed



text \<open>(C36) \<open>findCRLF\<close> returns the position of the first CRLF among the readable bytes, and null
  exactly when there is none.\<close>

theorem findCRLF_first:
  assumes "buffer_ok b"
  shows "findCRLF b = Some p \<longleftrightarrow>
           (let i = p - readerIndex b in readerIndex b \<le> p \<and> p < writerIndex b
              \<and> take 2 (drop i (peek b)) = kCRLF \<and> (\<forall>k < i. take 2 (drop k (peek b)) \<noteq> kCRLF))"
  using assms by (rule findCRLF_iff)

theorem findCRLF_first_witness:
  "findCRLF \<lparr>buf_data = [0, 65, 13, 13, 10, 66], readerIndex = 1, writerIndex = 6\<rparr> = Some 3"
proof -
  let ?b = "\<lparr>buf_data = [0, 65, 13, 13, 10, 66], readerIndex = 1, writerIndex = 6\<rparr>"
  have "buffer_ok ?b" by (simp add: buffer_ok_def vector_max_size_def)
  moreover have "take 2 (drop k [65, 13, 13, 10, 66 :: byte]) \<noteq> [13, 10]" if "k < 2" for k
    using that by (auto simp: less_2_cases_iff)
  ultimately show ?thesis
    using findCRLF_first [of ?b 3] by (simp add: peek_def slice_of_def kCRLF_def Let_def)
qed

end
