(* ===== verification/Channels.thy ===== *)
theory Channels
  imports Net_Prelude "HOL-Library.Sublist"
begin

text \<open>
  \<^verbatim>\<open>src/mynetlib/net/Channel.h\<close> and \<^verbatim>\<open>Channel.cc\<close>: the selectable channel of
  one file descriptor. Channel objects live in a store indexed by their address, since the
  poller, the loop and the owner of the channel share them. The virtual calls
  \<open>Poller::updateChannel\<close> and \<open>Poller::removeChannel\<close>, which a channel reaches through its
  loop, are arguments of the operations that make them.
\<close>

section \<open>Event masks\<close>

definition POLLIN :: i32 where "POLLIN = 1"
definition POLLPRI :: i32 where "POLLPRI = 2"
definition POLLOUT :: i32 where "POLLOUT = 4"
definition POLLERR :: i32 where "POLLERR = 8"
definition POLLHUP :: i32 where "POLLHUP = 16"
definition POLLNVAL :: i32 where "POLLNVAL = 32"
definition POLLRDHUP :: i32 where "POLLRDHUP = 8192"

lemmas poll_masks = POLLIN_def POLLPRI_def POLLOUT_def POLLERR_def POLLHUP_def POLLNVAL_def POLLRDHUP_def

definition kNoneEvent :: i32 where "kNoneEvent = 0"
definition kReadEvent :: i32 where "kReadEvent = POLLIN OR POLLPRI"
definition kWriteEvent :: i32 where "kWriteEvent = POLLOUT"

definition has_event :: "i32 \<Rightarrow> i32 \<Rightarrow> bool" where
  "has_event ev bits \<longleftrightarrow> ev AND bits \<noteq> 0"

section \<open>Channel objects and their store\<close>

type_synonym chan_ptr = nat

record channel =
  ch_fd :: int
  ch_events :: i32
  ch_revents :: i32
  ch_index :: int
  ch_logHup :: bool
  ch_tied :: bool
  ch_eventHandling :: bool
  ch_addedToLoop :: bool
  ch_readCallback :: bool
  ch_writeCallback :: bool
  ch_closeCallback :: bool
  ch_errorCallback :: bool

record loop_store =
  chan_store :: "chan_ptr \<Rightarrow> channel option"

definition new_Channel :: "int \<Rightarrow> channel" where
  "new_Channel fd =
     \<lparr>ch_fd = fd, ch_events = 0, ch_revents = 0, ch_index = - 1, ch_logHup = True, ch_tied = False,
      ch_eventHandling = False, ch_addedToLoop = False, ch_readCallback = False,
      ch_writeCallback = False, ch_closeCallback = False, ch_errorCallback = False\<rparr>"

definition setReadCallback :: "channel \<Rightarrow> channel" where
  "setReadCallback ch = ch\<lparr>ch_readCallback := True\<rparr>"

definition setWriteCallback :: "channel \<Rightarrow> channel" where
  "setWriteCallback ch = ch\<lparr>ch_writeCallback := True\<rparr>"

definition setCloseCallback :: "channel \<Rightarrow> channel" where
  "setCloseCallback ch = ch\<lparr>ch_closeCallback := True\<rparr>"

definition setErrorCallback :: "channel \<Rightarrow> channel" where
  "setErrorCallback ch = ch\<lparr>ch_errorCallback := True\<rparr>"

definition doNotLogHup :: "channel \<Rightarrow> channel" where
  "doNotLogHup ch = ch\<lparr>ch_logHup := False\<rparr>"

definition with_channel ::
  "chan_ptr \<Rightarrow> 'a loop_store_scheme \<Rightarrow> (channel \<Rightarrow> 'r res) \<Rightarrow> 'r res" where
  "with_channel p s f = (case chan_store s p of None \<Rightarrow> Inl UseAfterFree | Some ch \<Rightarrow> f ch)"

definition set_channel :: "chan_ptr \<Rightarrow> channel \<Rightarrow> 'a loop_store_scheme \<Rightarrow> 'a loop_store_scheme" where
  "set_channel p ch s = s\<lparr>chan_store := (chan_store s)(p \<mapsto> ch)\<rparr>"

definition isNoneEvent :: "channel \<Rightarrow> bool" where
  "isNoneEvent ch \<longleftrightarrow> ch_events ch = kNoneEvent"

definition isWriting :: "channel \<Rightarrow> bool" where
  "isWriting ch \<longleftrightarrow> has_event (ch_events ch) kWriteEvent"

definition isReading :: "channel \<Rightarrow> bool" where
  "isReading ch \<longleftrightarrow> has_event (ch_events ch) kReadEvent"

definition tie :: "channel \<Rightarrow> channel" where
  "tie ch = ch\<lparr>ch_tied := True\<rparr>"

definition set_revents :: "i32 \<Rightarrow> channel \<Rightarrow> channel" where
  "set_revents revt ch = ch\<lparr>ch_revents := revt\<rparr>"

definition set_index :: "int \<Rightarrow> channel \<Rightarrow> channel" where
  "set_index idx ch = ch\<lparr>ch_index := idx\<rparr>"

section \<open>Changing the events of interest\<close>

text \<open>\<open>update\<close> marks the channel as added and calls the poller of the owning loop.\<close>

definition ch_update ::
  "(chan_ptr \<Rightarrow> 'a loop_store_scheme \<Rightarrow> 'a loop_store_scheme res) \<Rightarrow>
   chan_ptr \<Rightarrow> 'a loop_store_scheme \<Rightarrow> 'a loop_store_scheme res" where
  "ch_update updateChannel p s =
     with_channel p s (\<lambda>ch. updateChannel p (set_channel p (ch\<lparr>ch_addedToLoop := True\<rparr>) s))"

definition set_events ::
  "(chan_ptr \<Rightarrow> 'a loop_store_scheme \<Rightarrow> 'a loop_store_scheme res) \<Rightarrow> (i32 \<Rightarrow> i32) \<Rightarrow>
   chan_ptr \<Rightarrow> 'a loop_store_scheme \<Rightarrow> 'a loop_store_scheme res" where
  "set_events updateChannel f p s =
     with_channel p s (\<lambda>ch. ch_update updateChannel p (set_channel p (ch\<lparr>ch_events := f (ch_events ch)\<rparr>) s))"

definition enableReading ::
  "(chan_ptr \<Rightarrow> 'a loop_store_scheme \<Rightarrow> 'a loop_store_scheme res) \<Rightarrow>
   chan_ptr \<Rightarrow> 'a loop_store_scheme \<Rightarrow> 'a loop_store_scheme res" where
  "enableReading updateChannel = set_events updateChannel (\<lambda>ev. ev OR kReadEvent)"

definition disableReading ::
  "(chan_ptr \<Rightarrow> 'a loop_store_scheme \<Rightarrow> 'a loop_store_scheme res) \<Rightarrow>
   chan_ptr \<Rightarrow> 'a loop_store_scheme \<Rightarrow> 'a loop_store_scheme res" where
  "disableReading updateChannel = set_events updateChannel (\<lambda>ev. ev AND NOT kReadEvent)"

definition enableWriting ::
  "(chan_ptr \<Rightarrow> 'a loop_store_scheme \<Rightarrow> 'a loop_store_scheme res) \<Rightarrow>
   chan_ptr \<Rightarrow> 'a loop_store_scheme \<Rightarrow> 'a loop_store_scheme res" where
  "enableWriting updateChannel = set_events updateChannel (\<lambda>ev. ev OR kWriteEvent)"

definition disableWriting ::
  "(chan_ptr \<Rightarrow> 'a loop_store_scheme \<Rightarrow> 'a loop_store_scheme res) \<Rightarrow>
   chan_ptr \<Rightarrow> 'a loop_store_scheme \<Rightarrow> 'a loop_store_scheme res" where
  "disableWriting updateChannel = set_events updateChannel (\<lambda>ev. ev AND NOT kWriteEvent)"

definition disableAll ::
  "(chan_ptr \<Rightarrow> 'a loop_store_scheme \<Rightarrow> 'a loop_store_scheme res) \<Rightarrow>
   chan_ptr \<Rightarrow> 'a loop_store_scheme \<Rightarrow> 'a loop_store_scheme res" where
  "disableAll updateChannel = set_events updateChannel (\<lambda>_. kNoneEvent)"

definition ch_remove ::
  "(chan_ptr \<Rightarrow> 'a loop_store_scheme \<Rightarrow> 'a loop_store_scheme res) \<Rightarrow>
   chan_ptr \<Rightarrow> 'a loop_store_scheme \<Rightarrow> 'a loop_store_scheme res" where
  "ch_remove removeChannel p s =
     with_channel p s (\<lambda>ch. assert_res (isNoneEvent ch)
       (removeChannel p (set_channel p (ch\<lparr>ch_addedToLoop := False\<rparr>) s)))"

text \<open>The destructor's assertions; \<open>hasChannel\<close> is the poller's answer.\<close>

definition destroy_Channel ::
  "(chan_ptr \<Rightarrow> 'a loop_store_scheme \<Rightarrow> bool) \<Rightarrow> chan_ptr \<Rightarrow> 'a loop_store_scheme \<Rightarrow> 'a loop_store_scheme res" where
  "destroy_Channel hasChannel p s =
     with_channel p s (\<lambda>ch. assert_res (\<not> ch_eventHandling ch) (assert_res (\<not> ch_addedToLoop ch)
       (assert_res (\<not> hasChannel p s) (Inr (s\<lparr>chan_store := (chan_store s)(p := None)\<rparr>)))))"

section \<open>Dispatching the received events\<close>

text \<open>
  A dispatch is the sequence of callbacks that are invoked. \<open>revents_\<close> is written by the
  pollers only, so the callbacks do not change the conditions tested between them.
\<close>

datatype chan_call = CloseCall | ErrorCall | ReadCall int | WriteCall

definition handleEventWithGuard :: "int \<Rightarrow> channel \<Rightarrow> chan_call list" where
  "handleEventWithGuard receiveTime ch =
     (let rev = ch_revents ch in
        (if has_event rev POLLHUP \<and> \<not> has_event rev POLLIN \<and> ch_closeCallback ch then [CloseCall] else [])
      @ (if has_event rev (POLLERR OR POLLNVAL) \<and> ch_errorCallback ch then [ErrorCall] else [])
      @ (if has_event rev (POLLIN OR POLLPRI OR POLLRDHUP) \<and> ch_readCallback ch then [ReadCall receiveTime] else [])
      @ (if has_event rev POLLOUT \<and> ch_writeCallback ch then [WriteCall] else []))"

text \<open>A tied channel dispatches only while the weak pointer to its owner can be locked.\<close>

definition handleEvent :: "bool \<Rightarrow> int \<Rightarrow> channel \<Rightarrow> chan_call list" where
  "handleEvent owner_alive receiveTime ch =
     (if ch_tied ch then (if owner_alive then handleEventWithGuard receiveTime ch else [])
      else handleEventWithGuard receiveTime ch)"

section \<open>Debug strings\<close>

definition eventsToString :: "(int \<Rightarrow> string) \<Rightarrow> int \<Rightarrow> i32 \<Rightarrow> string" where
  "eventsToString show_int fd ev =
     show_int fd @ '': ''
     @ (if has_event ev POLLIN then ''IN '' else [])
     @ (if has_event ev POLLPRI then ''PRI '' else [])
     @ (if has_event ev POLLOUT then ''OUT '' else [])
     @ (if has_event ev POLLHUP then ''HUP '' else [])
     @ (if has_event ev POLLRDHUP then ''RDHUP '' else [])
     @ (if has_event ev POLLERR then ''ERR '' else [])
     @ (if has_event ev POLLNVAL then ''NVAL '' else [])"

definition reventsToString :: "(int \<Rightarrow> string) \<Rightarrow> channel \<Rightarrow> string" where
  "reventsToString show_int ch = eventsToString show_int (ch_fd ch) (ch_revents ch)"

section \<open>Laws\<close>

lemma with_channel_Some [simp]: "chan_store s p = Some ch \<Longrightarrow> with_channel p s f = f ch"
  by (simp add: with_channel_def)

lemma with_channel_None [simp]: "chan_store s p = None \<Longrightarrow> with_channel p s f = Inl UseAfterFree"
  by (simp add: with_channel_def)

lemma with_channel_Inr [res_simps]:
  "with_channel p s f = Inr r \<longleftrightarrow> (\<exists>ch. chan_store s p = Some ch \<and> f ch = Inr r)"
  by (cases "chan_store s p") simp_all

lemma chan_store_set_channel [simp]:
  "chan_store (set_channel p ch s) = (chan_store s)(p \<mapsto> ch)"
  by (simp add: set_channel_def)

lemma more_set_channel [simp]: "loop_store.more (set_channel p ch s) = loop_store.more s"
  by (simp add: set_channel_def)

lemma set_channel_twice [simp]: "set_channel p ch (set_channel p ch' s) = set_channel p ch s"
  by (simp add: set_channel_def)

text \<open>Each event operation writes the mask, marks the channel and calls the poller once.\<close>

lemma set_events_unfold:
  "chan_store s p = Some ch \<Longrightarrow>
   set_events upd f p s = upd p (set_channel p (ch\<lparr>ch_events := f (ch_events ch), ch_addedToLoop := True\<rparr>) s)"
  by (simp add: set_events_def ch_update_def)

lemmas event_ops = enableReading_def disableReading_def enableWriting_def disableWriting_def disableAll_def

lemma has_event_iff: "has_event ev bits \<longleftrightarrow> (\<exists>n. bit ev n \<and> bit bits n)"
proof -
  have "bit ev n \<Longrightarrow> n < 32" for n
    using bit_imp_le_length [of ev n] by simp
  then show ?thesis
    by (auto simp: has_event_def bit_eq_iff [of "ev AND bits" 0] bit_and_iff)
qed

lemma bit_kReadEvent [simp]: "bit kReadEvent n \<longleftrightarrow> n = 0 \<or> n = 1"
proof -
  have "kReadEvent = mask 2"
    by (simp add: kReadEvent_def poll_masks mask_eq_exp_minus_1)
  then have "bit kReadEvent n \<longleftrightarrow> bit (mask 2 :: i32) n" by simp
  then show ?thesis by (auto simp: bit_mask_iff)
qed

lemma bit_kWriteEvent [simp]: "bit kWriteEvent n \<longleftrightarrow> n = 2"
proof -
  have "kWriteEvent = push_bit 2 1"
    by (simp add: kWriteEvent_def poll_masks push_bit_eq_mult)
  then have "bit kWriteEvent n \<longleftrightarrow> bit (push_bit 2 (1 :: i32)) n" by simp
  also have "\<dots> \<longleftrightarrow> n = 2"
    by (subst bit_push_bit_iff) (auto simp: possible_bit_def bit_1_iff)
  finally show ?thesis .
qed

lemma has_event_masks:
  "has_event (ev OR kReadEvent) kReadEvent"
  "has_event (ev OR kWriteEvent) kWriteEvent"
  "\<not> has_event (ev AND NOT kReadEvent) kReadEvent"
  "\<not> has_event (ev AND NOT kWriteEvent) kWriteEvent"
  "has_event (ev OR kReadEvent) kWriteEvent \<longleftrightarrow> has_event ev kWriteEvent"
  "has_event (ev AND NOT kReadEvent) kWriteEvent \<longleftrightarrow> has_event ev kWriteEvent"
  "has_event (ev OR kWriteEvent) kReadEvent \<longleftrightarrow> has_event ev kReadEvent"
  "has_event (ev AND NOT kWriteEvent) kReadEvent \<longleftrightarrow> has_event ev kReadEvent"
  "\<not> has_event kNoneEvent kReadEvent"
  "\<not> has_event kNoneEvent kWriteEvent"
  by (auto simp: has_event_iff bit_or_iff bit_and_iff bit_not_iff kNoneEvent_def possible_bit_def)

section \<open>What a dispatch calls\<close>

lemma poll_mask_powers:
  "POLLIN = 2 ^ 0" "POLLPRI = 2 ^ 1" "POLLOUT = 2 ^ 2" "POLLERR = 2 ^ 3" "POLLHUP = 2 ^ 4" "POLLNVAL = 2 ^ 5"
  "POLLRDHUP = 2 ^ 13"
  by (simp_all add: poll_masks)

lemma bit_poll_masks [simp]:
  "bit POLLIN n \<longleftrightarrow> n = 0" "bit POLLPRI n \<longleftrightarrow> n = 1" "bit POLLOUT n \<longleftrightarrow> n = 2" "bit POLLERR n \<longleftrightarrow> n = 3"
  "bit POLLHUP n \<longleftrightarrow> n = 4" "bit POLLNVAL n \<longleftrightarrow> n = 5" "bit POLLRDHUP n \<longleftrightarrow> n = 13"
  unfolding poll_mask_powers bit_exp_iff by (auto simp: possible_bit_def)



end
