(* ===== verification/Pollers.thy ===== *)
theory Pollers
  imports Channels
begin

text \<open>
  The I/O multiplexers of \<^verbatim>\<open>src/mynetlib/net/Poller.cc\<close>, \<^verbatim>\<open>poller/PollPoller.cc\<close>
  and \<^verbatim>\<open>poller/EPollPoller.cc\<close>. Both keep a map from descriptors to channels; the first
  keeps a dense vector of \<open>pollfd\<close> with the position of each channel stored in the channel,
  the second mirrors the interest list of a kernel \<open>epoll\<close> instance. The contract the loop
  relies on is the locale \<open>poller\<close>.
\<close>

section \<open>PollPoller: state\<close>

record pollfd =
  pfd_fd :: int
  pfd_events :: i16
  pfd_revents :: i16

record poll_state = loop_store +
  channels :: "int \<Rightarrow> chan_ptr option"
  pollfds :: "pollfd list"

definition new_PollPoller :: "(chan_ptr \<Rightarrow> channel option) \<Rightarrow> poll_state" where
  "new_PollPoller store = \<lparr>chan_store = store, channels = (\<lambda>_. None), pollfds = []\<rparr>"

definition hasChannel :: "chan_ptr \<Rightarrow> poll_state \<Rightarrow> bool" where
  "hasChannel p s =
     (case chan_store s p of None \<Rightarrow> False | Some ch \<Rightarrow> channels s (ch_fd ch) = Some p)"

section \<open>PollPoller: operations\<close>

definition PollPoller_updateChannel :: "chan_ptr \<Rightarrow> poll_state \<Rightarrow> poll_state res" where
  "PollPoller_updateChannel p s =
     with_channel p s (\<lambda>ch.
       if ch_index ch < 0 then
         assert_res (channels s (ch_fd ch) = None)
           (let pfd = \<lparr>pfd_fd = ch_fd ch, pfd_events = ucast (ch_events ch), pfd_revents = 0\<rparr>;
                fds = pollfds s @ [pfd];
                idx = int (length fds) - 1
            in Inr ((set_channel p (set_index idx ch) s)
                      \<lparr>pollfds := fds, channels := (channels s)(pfd_fd pfd \<mapsto> p)\<rparr>))
       else
         assert_res (channels s (ch_fd ch) \<noteq> None)
         (assert_res (channels s (ch_fd ch) = Some p)
         (let idx = ch_index ch in
          assert_res (0 \<le> idx \<and> idx < int (length (pollfds s)))
          (let pfd = pollfds s ! nat idx in
           assert_res (pfd_fd pfd = ch_fd ch \<or> pfd_fd pfd = - ch_fd ch - 1)
           (let pfd' = pfd\<lparr>pfd_events := ucast (ch_events ch), pfd_revents := 0\<rparr>;
                pfd'' = (if isNoneEvent ch then pfd'\<lparr>pfd_fd := - ch_fd ch - 1\<rparr> else pfd')
            in Inr (s\<lparr>pollfds := (pollfds s)[nat idx := pfd'']\<rparr>))))))"

definition PollPoller_removeChannel :: "chan_ptr \<Rightarrow> poll_state \<Rightarrow> poll_state res" where
  "PollPoller_removeChannel p s =
     with_channel p s (\<lambda>ch.
       assert_res (channels s (ch_fd ch) \<noteq> None)
       (assert_res (channels s (ch_fd ch) = Some p)
       (assert_res (isNoneEvent ch)
       (let idx = ch_index ch in
        assert_res (0 \<le> idx \<and> idx < int (length (pollfds s)))
        (let pfd = pollfds s ! nat idx in
         assert_res (pfd_fd pfd = - ch_fd ch - 1 \<and> scast (pfd_events pfd) = ch_events ch)
         (let s1 = s\<lparr>channels := (channels s)(ch_fd ch := None)\<rparr> in
          if nat idx = length (pollfds s) - 1 then Inr (s1\<lparr>pollfds := butlast (pollfds s)\<rparr>)
          else
            (let channelAtEnd = pfd_fd (last (pollfds s));
                 swapped = (pollfds s)[nat idx := last (pollfds s), length (pollfds s) - 1 := pfd];
                 fd = (if channelAtEnd < 0 then - channelAtEnd - 1 else channelAtEnd)
             in case channels s1 fd of
                  None \<Rightarrow> Inl UseAfterFree
                | Some q \<Rightarrow>
                    with_channel q s1 (\<lambda>chq.
                      Inr ((set_channel q (set_index idx chq) s1)\<lparr>pollfds := butlast swapped\<rparr>)))))))))"

text \<open>
  \<open>poll\<close>: the first argument is the outcome of \<open>::poll\<close>, either an \<open>errno\<close> or the number
  of ready entries together with the \<open>revents\<close> it stored. The result lists the active
  channels; only uncommon errors are logged, and the loop goes on in every case.
\<close>

fun fill_loop ::
  "(int \<Rightarrow> chan_ptr option) \<Rightarrow> pollfd list \<Rightarrow> int \<Rightarrow> (chan_ptr \<Rightarrow> channel option) \<Rightarrow> chan_ptr list \<Rightarrow>
   ((chan_ptr \<Rightarrow> channel option) \<times> chan_ptr list) res" where
  "fill_loop chans [] numEvents store active = Inr (store, active)"
| "fill_loop chans (pfd # pfds) numEvents store active =
     (if \<not> numEvents > 0 then Inr (store, active)
      else if sint (pfd_revents pfd) > 0 then
        (case chans (pfd_fd pfd) of
           None \<Rightarrow> Inl AssertFailed
         | Some p \<Rightarrow>
             (case store p of
                None \<Rightarrow> Inl UseAfterFree
              | Some ch \<Rightarrow>
                  assert_res (ch_fd ch = pfd_fd pfd)
                    (fill_loop chans pfds (numEvents - 1)
                       (store(p \<mapsto> set_revents (scast (pfd_revents pfd)) ch)) (active @ [p]))))
      else fill_loop chans pfds numEvents store active)"

definition PollPoller_fillActiveChannels ::
  "int \<Rightarrow> poll_state \<Rightarrow> (poll_state \<times> chan_ptr list) res" where
  "PollPoller_fillActiveChannels numEvents s =
     bind_res (fill_loop (channels s) (pollfds s) numEvents (chan_store s) [])
       (\<lambda>(store, active). Inr (s\<lparr>chan_store := store\<rparr>, active))"

definition PollPoller_poll ::
  "int + i16 list \<Rightarrow> poll_state \<Rightarrow> (poll_state \<times> chan_ptr list) res" where
  "PollPoller_poll r s =
     (case r of
        Inl err \<Rightarrow> Inr (s, [])
      | Inr revs \<Rightarrow>
          (let fds = map2 (\<lambda>pfd rv. pfd\<lparr>pfd_revents := rv\<rparr>) (pollfds s) revs;
               numEvents = int (length (filter (\<lambda>rv. rv \<noteq> 0) revs));
               s' = s\<lparr>pollfds := fds\<rparr>
           in if numEvents > 0 then PollPoller_fillActiveChannels numEvents s' else Inr (s', [])))"

section \<open>EPollPoller: state and operations\<close>

datatype epoll_op = EPOLL_CTL_ADD | EPOLL_CTL_DEL | EPOLL_CTL_MOD

definition kNew :: int where "kNew = - 1"
definition kAdded :: int where "kAdded = 1"
definition kDeleted :: int where "kDeleted = 2"

definition operationToString :: "epoll_op \<Rightarrow> string" where
  "operationToString op =
     (case op of EPOLL_CTL_ADD \<Rightarrow> ''ADD'' | EPOLL_CTL_DEL \<Rightarrow> ''DEL'' | EPOLL_CTL_MOD \<Rightarrow> ''MOD'')"

text \<open>
  The kernel's \<open>epoll\<close> instance is not part of the sources: its state has the type \<open>'k\<close> and
  \<open>epoll_ctl\<close> is an argument, which returns the call's result and the new kernel state.
\<close>

record 'k epoll_state = loop_store +
  e_channels :: "int \<Rightarrow> chan_ptr option"
  events_size :: nat
  kernel :: 'k

type_synonym 'k epoll_ctl = "'k \<Rightarrow> epoll_op \<Rightarrow> int \<Rightarrow> i32 \<Rightarrow> chan_ptr \<Rightarrow> int \<times> 'k"

definition kInitEventListSize :: nat where
  "kInitEventListSize = 16"

definition new_EPollPoller :: "(chan_ptr \<Rightarrow> channel option) \<Rightarrow> int \<Rightarrow> 'k \<Rightarrow> 'k epoll_state res" where
  "new_EPollPoller store epollfd k =
     (if epollfd < 0 then Inl Fatal
      else Inr \<lparr>chan_store = store, e_channels = (\<lambda>_. None), events_size = kInitEventListSize, kernel = k\<rparr>)"

definition EPollPoller_hasChannel :: "chan_ptr \<Rightarrow> 'k epoll_state \<Rightarrow> bool" where
  "EPollPoller_hasChannel p s =
     (case chan_store s p of None \<Rightarrow> False | Some ch \<Rightarrow> e_channels s (ch_fd ch) = Some p)"

definition EPollPoller_update :: "'k epoll_ctl \<Rightarrow> epoll_op \<Rightarrow> chan_ptr \<Rightarrow> 'k epoll_state \<Rightarrow> 'k epoll_state res" where
  "EPollPoller_update epoll_ctl op p s =
     with_channel p s (\<lambda>ch.
       let (ret, k') = epoll_ctl (kernel s) op (ch_fd ch) (ch_events ch) p;
           s' = s\<lparr>kernel := k'\<rparr>
       in if ret < 0 then (if op = EPOLL_CTL_DEL then Inr s' else Inl Fatal) else Inr s')"

definition EPollPoller_updateChannel :: "'k epoll_ctl \<Rightarrow> chan_ptr \<Rightarrow> 'k epoll_state \<Rightarrow> 'k epoll_state res" where
  "EPollPoller_updateChannel epoll_ctl p s =
     with_channel p s (\<lambda>ch.
       let index = ch_index ch; fd = ch_fd ch in
       if index = kNew \<or> index = kDeleted then
         bind_res
           (if index = kNew then
              assert_res (e_channels s fd = None) (Inr (s\<lparr>e_channels := (e_channels s)(fd \<mapsto> p)\<rparr>))
            else
              assert_res (e_channels s fd \<noteq> None) (assert_res (e_channels s fd = Some p) (Inr s)))
           (\<lambda>s1. EPollPoller_update epoll_ctl EPOLL_CTL_ADD p (set_channel p (set_index kAdded ch) s1))
       else
         assert_res (e_channels s fd \<noteq> None)
         (assert_res (e_channels s fd = Some p)
         (assert_res (index = kAdded)
         (if isNoneEvent ch then
            bind_res (EPollPoller_update epoll_ctl EPOLL_CTL_DEL p s)
              (\<lambda>s1. Inr (set_channel p (set_index kDeleted ch) s1))
          else EPollPoller_update epoll_ctl EPOLL_CTL_MOD p s))))"

definition EPollPoller_removeChannel :: "'k epoll_ctl \<Rightarrow> chan_ptr \<Rightarrow> 'k epoll_state \<Rightarrow> 'k epoll_state res" where
  "EPollPoller_removeChannel epoll_ctl p s =
     with_channel p s (\<lambda>ch.
       let fd = ch_fd ch; index = ch_index ch in
       assert_res (e_channels s fd \<noteq> None)
       (assert_res (e_channels s fd = Some p)
       (assert_res (isNoneEvent ch)
       (assert_res (index = kAdded \<or> index = kDeleted)
       (let s1 = s\<lparr>e_channels := (e_channels s)(fd := None)\<rparr> in
        bind_res (if index = kAdded then EPollPoller_update epoll_ctl EPOLL_CTL_DEL p s1 else Inr s1)
          (\<lambda>s2. Inr (set_channel p (set_index kNew ch) s2)))))))"

fun efill_loop ::
  "(int \<Rightarrow> chan_ptr option) \<Rightarrow> (i32 \<times> chan_ptr) list \<Rightarrow> (chan_ptr \<Rightarrow> channel option) \<Rightarrow> chan_ptr list \<Rightarrow>
   ((chan_ptr \<Rightarrow> channel option) \<times> chan_ptr list) res" where
  "efill_loop chans [] store active = Inr (store, active)"
| "efill_loop chans ((ev, p) # evs) store active =
     (case store p of
        None \<Rightarrow> Inl UseAfterFree
      | Some ch \<Rightarrow>
          assert_res (chans (ch_fd ch) \<noteq> None)
          (assert_res (chans (ch_fd ch) = Some p)
            (efill_loop chans evs (store(p \<mapsto> set_revents ev ch)) (active @ [p]))))"

text \<open>
  \<open>poll\<close>: the first argument is the outcome of \<open>epoll_wait\<close>, an \<open>errno\<close> or the reported
  events with the channel addresses registered for them.
\<close>

definition EPollPoller_fillActiveChannels ::
  "(i32 \<times> chan_ptr) list \<Rightarrow> 'k epoll_state \<Rightarrow> ('k epoll_state \<times> chan_ptr list) res" where
  "EPollPoller_fillActiveChannels evs s =
     assert_res (length evs \<le> events_size s)
       (bind_res (efill_loop (e_channels s) evs (chan_store s) [])
         (\<lambda>(store, active). Inr (s\<lparr>chan_store := store\<rparr>, active)))"

definition EPollPoller_poll ::
  "int + (i32 \<times> chan_ptr) list \<Rightarrow> 'k epoll_state \<Rightarrow> ('k epoll_state \<times> chan_ptr list) res" where
  "EPollPoller_poll r s =
     (case r of
        Inl err \<Rightarrow> Inr (s, [])
      | Inr evs \<Rightarrow>
          (if length evs > 0 then
             bind_res (EPollPoller_fillActiveChannels evs s)
               (\<lambda>(s', active).
                  Inr (if length evs = events_size s' then s'\<lparr>events_size := events_size s' * 2\<rparr> else s', active))
           else Inr (s, [])))"

text \<open>\<open>Poller::newDefaultPoller\<close>: the choice depends on one environment variable.\<close>

datatype poller_kind = UsePoll | UseEPoll

definition newDefaultPoller :: "(string \<Rightarrow> string option) \<Rightarrow> poller_kind" where
  "newDefaultPoller getenv = (if getenv ''MUDUO_USE_POLL'' \<noteq> None then UsePoll else UseEPoll)"

section \<open>The contract of a poller\<close>

text \<open>
  What the owner of a channel sees of it: descriptor, events of interest, whether a dispatch is
  running and whether the channel counts as added.
\<close>

definition ch_view :: "channel \<Rightarrow> int \<times> i32 \<times> bool \<times> bool" where
  "ch_view ch = (ch_fd ch, ch_events ch, ch_eventHandling ch, ch_addedToLoop ch)"

definition store_view :: "'a loop_store_scheme \<Rightarrow> chan_ptr \<Rightarrow> (int \<times> i32 \<times> bool \<times> bool) option" where
  "store_view s p = map_option ch_view (chan_store s p)"

locale poller =
  fixes inv :: "'a loop_store_scheme \<Rightarrow> bool"
    and has :: "chan_ptr \<Rightarrow> 'a loop_store_scheme \<Rightarrow> bool"
    and fresh :: "chan_ptr \<Rightarrow> 'a loop_store_scheme \<Rightarrow> bool"
    and idle :: "chan_ptr \<Rightarrow> 'a loop_store_scheme \<Rightarrow> bool"
    and upd :: "chan_ptr \<Rightarrow> 'a loop_store_scheme \<Rightarrow> 'a loop_store_scheme res"
    and rem :: "chan_ptr \<Rightarrow> 'a loop_store_scheme \<Rightarrow> 'a loop_store_scheme res"
  assumes set_ok: "inv s \<Longrightarrow> store_view s p = Some (fd, ev, eh, a) \<Longrightarrow> has p s \<or> fresh p s \<Longrightarrow>
      \<exists>s'. set_events upd f p s = Inr s' \<and> inv s' \<and> store_view s' = (store_view s)(p \<mapsto> (fd, f ev, eh, True))
         \<and> has p s' \<and> (\<forall>q. q \<noteq> p \<longrightarrow> has q s' = has q s) \<and> (has p s \<longrightarrow> f ev = kNoneEvent \<longrightarrow> idle p s')"
    and rem_ok: "inv s \<Longrightarrow> store_view s p = Some (fd, ev, eh, a) \<Longrightarrow> has p s \<Longrightarrow> idle p s \<Longrightarrow>
      \<exists>s'. ch_remove rem p s = Inr s' \<and> inv s' \<and> store_view s' = (store_view s)(p \<mapsto> (fd, ev, eh, False))
         \<and> \<not> has p s' \<and> (\<forall>q. q \<noteq> p \<longrightarrow> has q s' = has q s)"
begin

text \<open>A registered channel takes any sequence of event changes.\<close>

lemma sets_ok:
  assumes "inv s" and "store_view s p = Some (fd, ev, eh, a)" and "has p s"
  shows "\<exists>s' ev' a'. fold_res (\<lambda>f. set_events upd f p) fs s = Inr s' \<and> inv s' \<and> has p s'
           \<and> store_view s' = (store_view s)(p \<mapsto> (fd, ev', eh, a')) \<and> (\<forall>q. q \<noteq> p \<longrightarrow> has q s' = has q s)"
  using assms
proof (induction fs arbitrary: s ev a)
  case Nil
  then show ?case by (auto intro!: exI [of _ ev] exI [of _ a] simp: fun_upd_idem)
next
  case (Cons f fs)
  from set_ok [OF Cons.prems(1,2), of f] Cons.prems(3)
  obtain s1 where s1: "set_events upd f p s = Inr s1" "inv s1" "has p s1"
      "store_view s1 = (store_view s)(p \<mapsto> (fd, f ev, eh, True))" "\<forall>q. q \<noteq> p \<longrightarrow> has q s1 = has q s"
    by blast
  then have "store_view s1 p = Some (fd, f ev, eh, True)" by simp
  from Cons.IH [OF s1(2) this s1(3)] obtain s' ev' a' where
      s': "fold_res (\<lambda>f. set_events upd f p) fs s1 = Inr s'" "inv s'" "has p s'"
        "store_view s' = (store_view s1)(p \<mapsto> (fd, ev', eh, a'))" "\<forall>q. q \<noteq> p \<longrightarrow> has q s' = has q s1"
    by blast
  then have "store_view s' = (store_view s)(p \<mapsto> (fd, ev', eh, a'))"
    using s1(4) by simp
  then show ?case
    using s1 s' by (intro exI [of _ s'] exI [of _ ev'] exI [of _ a']) simp
qed

text \<open>
  The life of a channel: it is registered by its first event change, takes any further changes,
  is disabled, removed and destroyed; no assertion fails on the way and every other channel's
  registration is untouched.
\<close>

lemma lifecycle:
  assumes "inv s" and "fresh p s" and "store_view s p = Some (fd, ev, False, a)"
  shows "\<exists>s1 s2 s3 s4 s5. set_events upd f p s = Inr s1 \<and> fold_res (\<lambda>f. set_events upd f p) fs s1 = Inr s2
           \<and> disableAll upd p s2 = Inr s3 \<and> ch_remove rem p s3 = Inr s4 \<and> destroy_Channel has p s4 = Inr s5
           \<and> inv s4 \<and> \<not> has p s4 \<and> (\<forall>q. q \<noteq> p \<longrightarrow> has q s4 = has q s \<and> store_view s4 q = store_view s q)"
proof -
  obtain s1 where s1: "set_events upd f p s = Inr s1" "inv s1" "has p s1"
      "store_view s1 = (store_view s)(p \<mapsto> (fd, f ev, False, True))" "\<forall>q. q \<noteq> p \<longrightarrow> has q s1 = has q s"
    using set_ok [OF assms(1,3), of f] assms(2) by blast
  have v1: "store_view s1 p = Some (fd, f ev, False, True)" using s1(4) by simp
  obtain s2 ev2 a2 where s2: "fold_res (\<lambda>f. set_events upd f p) fs s1 = Inr s2" "inv s2" "has p s2"
      "store_view s2 = (store_view s1)(p \<mapsto> (fd, ev2, False, a2))" "\<forall>q. q \<noteq> p \<longrightarrow> has q s2 = has q s1"
    using sets_ok [OF s1(2) v1 s1(3)] by blast
  have v2: "store_view s2 p = Some (fd, ev2, False, a2)" using s2(4) by simp
  obtain s3 where s3: "set_events upd (\<lambda>_. kNoneEvent) p s2 = Inr s3" "inv s3" "has p s3" "idle p s3"
      "store_view s3 = (store_view s2)(p \<mapsto> (fd, kNoneEvent, False, True))" "\<forall>q. q \<noteq> p \<longrightarrow> has q s3 = has q s2"
    using set_ok [OF s2(2) v2, of "\<lambda>_. kNoneEvent"] s2(3) by blast
  have v3: "store_view s3 p = Some (fd, kNoneEvent, False, True)" using s3(5) by simp
  obtain s4 where s4: "ch_remove rem p s3 = Inr s4" "inv s4" "\<not> has p s4"
      "store_view s4 = (store_view s3)(p \<mapsto> (fd, kNoneEvent, False, False))" "\<forall>q. q \<noteq> p \<longrightarrow> has q s4 = has q s3"
    using rem_ok [OF s3(2) v3 s3(3,4)] by blast
  have "store_view s4 p = Some (fd, kNoneEvent, False, False)" using s4(4) by simp
  then obtain ch where "chan_store s4 p = Some ch" "\<not> ch_eventHandling ch" "\<not> ch_addedToLoop ch"
    by (auto simp: store_view_def ch_view_def)
  then have "\<exists>s5. destroy_Channel has p s4 = Inr s5"
    using s4(3) by (simp add: destroy_Channel_def)
  then show ?thesis
    using s1 s2 s3 s4 by (auto simp: disableAll_def)
qed

end

section \<open>PollPoller meets the contract\<close>

text \<open>The \<open>pollfd\<close> at the position recorded in a channel belongs to that channel.\<close>

definition entry_ok :: "pollfd list \<Rightarrow> int \<Rightarrow> channel \<Rightarrow> bool" where
  "entry_ok fds fd ch \<longleftrightarrow>
     ch_fd ch = fd \<and> 0 \<le> fd \<and> 0 \<le> ch_index ch \<and> nat (ch_index ch) < length fds
   \<and> (pfd_fd (fds ! nat (ch_index ch)) = fd \<or> pfd_fd (fds ! nat (ch_index ch)) = - fd - 1)
   \<and> pfd_events (fds ! nat (ch_index ch)) = ucast (ch_events ch)"

definition poll_inv :: "poll_state \<Rightarrow> bool" where
  "poll_inv s \<longleftrightarrow>
     (\<forall>fd p. channels s fd = Some p \<longrightarrow> (\<exists>ch. chan_store s p = Some ch \<and> entry_ok (pollfds s) fd ch))
   \<and> (\<forall>i < length (pollfds s). \<exists>fd p ch. channels s fd = Some p \<and> chan_store s p = Some ch \<and> ch_index ch = int i)"

definition poll_fresh :: "chan_ptr \<Rightarrow> poll_state \<Rightarrow> bool" where
  "poll_fresh p s \<longleftrightarrow>
     (\<exists>ch. chan_store s p = Some ch \<and> ch_index ch < 0 \<and> 0 \<le> ch_fd ch \<and> channels s (ch_fd ch) = None)"

definition poll_idle :: "chan_ptr \<Rightarrow> poll_state \<Rightarrow> bool" where
  "poll_idle p s \<longleftrightarrow>
     (\<exists>ch. chan_store s p = Some ch \<and> isNoneEvent ch
        \<and> pfd_fd (pollfds s ! nat (ch_index ch)) = - ch_fd ch - 1)"

lemma hasChannel_iff: "hasChannel p s \<longleftrightarrow> (\<exists>ch. chan_store s p = Some ch \<and> channels s (ch_fd ch) = Some p)"
  by (auto simp: hasChannel_def split: option.splits)

lemma poll_invD:
  assumes "poll_inv s" and "channels s fd = Some p"
  obtains ch where "chan_store s p = Some ch" and "entry_ok (pollfds s) fd ch"
  using assms unfolding poll_inv_def by blast

lemma poll_invD_surj:
  assumes "poll_inv s" and "i < length (pollfds s)"
  obtains fd p ch where "channels s fd = Some p" and "chan_store s p = Some ch" and "ch_index ch = int i"
  using assms unfolding poll_inv_def by blast

lemma poll_invI:
  assumes "\<And>fd p. channels s fd = Some p \<Longrightarrow> \<exists>ch. chan_store s p = Some ch \<and> entry_ok (pollfds s) fd ch"
    and "\<And>i. i < length (pollfds s) \<Longrightarrow> \<exists>fd p ch. channels s fd = Some p \<and> chan_store s p = Some ch \<and> ch_index ch = int i"
  shows "poll_inv s"
  using assms unfolding poll_inv_def by blast

lemma poll_entry:
  "poll_inv s \<Longrightarrow> channels s fd = Some p \<Longrightarrow> chan_store s p = Some ch \<Longrightarrow> entry_ok (pollfds s) fd ch"
  by (metis poll_invD option.inject)

text \<open>Positions are unique, because an entry names its descriptor.\<close>

lemma entry_ok_fd:
  "entry_ok fds fd ch \<Longrightarrow> entry_ok fds gd cq \<Longrightarrow> ch_index ch = ch_index cq \<Longrightarrow> fd = gd"
  by (auto simp: entry_ok_def)

lemma entry_ok_append: "entry_ok fds fd ch \<Longrightarrow> entry_ok (fds @ xs) fd ch"
  by (auto simp: entry_ok_def nth_append)

lemma entry_ok_update:
  "entry_ok fds fd ch \<Longrightarrow> nat (ch_index ch) \<noteq> i \<Longrightarrow> entry_ok (fds[i := x]) fd ch"
  by (auto simp: entry_ok_def)

lemma entry_ok_butlast:
  "entry_ok fds fd ch \<Longrightarrow> nat (ch_index ch) < length fds - 1 \<Longrightarrow> entry_ok (butlast fds) fd ch"
  by (auto simp: entry_ok_def nth_butlast)

lemma poll_add:
  assumes inv: "poll_inv s" and ch: "chan_store s p = Some ch" and new: "ch_index ch < 0"
    "0 \<le> ch_fd ch" "channels s (ch_fd ch) = None"
  shows "\<exists>s'. set_events PollPoller_updateChannel f p s = Inr s' \<and> poll_inv s'
      \<and> chan_store s' = (chan_store s)(p \<mapsto> ch\<lparr>ch_events := f (ch_events ch), ch_addedToLoop := True,
                                                 ch_index := int (length (pollfds s))\<rparr>)
      \<and> channels s' = (channels s)(ch_fd ch \<mapsto> p)"
proof -
  let ?ch = "ch\<lparr>ch_events := f (ch_events ch), ch_addedToLoop := True, ch_index := int (length (pollfds s))\<rparr>"
  let ?pfd = "\<lparr>pfd_fd = ch_fd ch, pfd_events = ucast (f (ch_events ch)), pfd_revents = 0\<rparr>"
  let ?s = "(set_channel p ?ch s)\<lparr>pollfds := pollfds s @ [?pfd], channels := (channels s)(ch_fd ch \<mapsto> p)\<rparr>"
  have other: "q \<noteq> p" if "channels s fd = Some q" for fd q
    using poll_entry [OF inv that] ch new(1) by (auto simp: entry_ok_def)
  have "set_events PollPoller_updateChannel f p s = Inr ?s"
    using new ch by (simp add: set_events_unfold PollPoller_updateChannel_def set_index_def set_channel_def Let_def)
  moreover have "poll_inv ?s"
  proof (rule poll_invI)
    fix fd q assume "channels ?s fd = Some q"
    then consider "fd = ch_fd ch" "q = p" | "fd \<noteq> ch_fd ch" "channels s fd = Some q"
      by (auto split: if_splits)
    then show "\<exists>cq. chan_store ?s q = Some cq \<and> entry_ok (pollfds ?s) fd cq"
    proof cases
      case 1
      then show ?thesis using new(2) by (simp add: entry_ok_def)
    next
      case 2
      then obtain cq where "chan_store s q = Some cq" "entry_ok (pollfds s) fd cq"
        using poll_invD [OF inv] by blast
      then show ?thesis using other [OF 2(2)] by (simp add: entry_ok_append)
    qed
  next
    fix i assume "i < length (pollfds ?s)"
    then consider "i = length (pollfds s)" | "i < length (pollfds s)" by fastforce
    then show "\<exists>fd q cq. channels ?s fd = Some q \<and> chan_store ?s q = Some cq \<and> ch_index cq = int i"
    proof cases
      case 1
      then show ?thesis by (intro exI [of _ "ch_fd ch"] exI [of _ p] exI [of _ ?ch]) simp
    next
      case 2
      then obtain fd q cq where "channels s fd = Some q" "chan_store s q = Some cq" "ch_index cq = int i"
        using poll_invD_surj [OF inv] by blast
      then show ?thesis
        using other [of fd q] new(3) by (intro exI [of _ fd] exI [of _ q] exI [of _ cq]) auto
    qed
  qed
  ultimately show ?thesis by (intro exI [of _ ?s]) (simp add: set_channel_def)
qed

lemma poll_modify:
  assumes inv: "poll_inv s" and ch: "chan_store s p = Some ch" and reg: "channels s (ch_fd ch) = Some p"
  shows "\<exists>s'. set_events PollPoller_updateChannel f p s = Inr s' \<and> poll_inv s'
      \<and> chan_store s' = (chan_store s)(p \<mapsto> ch\<lparr>ch_events := f (ch_events ch), ch_addedToLoop := True\<rparr>)
      \<and> channels s' = channels s
      \<and> pfd_fd (pollfds s' ! nat (ch_index ch)) =
          (if f (ch_events ch) = kNoneEvent then - ch_fd ch - 1 else pfd_fd (pollfds s ! nat (ch_index ch)))"
proof -
  let ?i = "nat (ch_index ch)"
  let ?ch = "ch\<lparr>ch_events := f (ch_events ch), ch_addedToLoop := True\<rparr>"
  let ?pfd1 = "(pollfds s ! ?i)\<lparr>pfd_events := ucast (f (ch_events ch)), pfd_revents := 0\<rparr>"
  let ?pfd = "if f (ch_events ch) = kNoneEvent then ?pfd1\<lparr>pfd_fd := - ch_fd ch - 1\<rparr> else ?pfd1"
  let ?s = "(set_channel p ?ch s)\<lparr>pollfds := (pollfds s)[?i := ?pfd]\<rparr>"
  have e: "entry_ok (pollfds s) (ch_fd ch) ch"
    by (rule poll_entry [OF inv reg ch])
  then have i: "0 \<le> ch_index ch" "?i < length (pollfds s)" "ch_index ch < int (length (pollfds s))"
    by (auto simp: entry_ok_def)
  have "set_events PollPoller_updateChannel f p s = Inr ?s"
    using ch reg e i
    by (simp add: set_events_unfold PollPoller_updateChannel_def set_channel_def Let_def isNoneEvent_def entry_ok_def)
  moreover have "poll_inv ?s"
  proof (rule poll_invI)
    fix fd q assume q: "channels ?s fd = Some q"
    then have q': "channels s fd = Some q" by (simp add: set_channel_def)
    obtain cq where cq: "chan_store s q = Some cq" "entry_ok (pollfds s) fd cq"
      using poll_invD [OF inv q'] by blast
    show "\<exists>cq. chan_store ?s q = Some cq \<and> entry_ok (pollfds ?s) fd cq"
    proof (cases "q = p")
      case True
      then have "fd = ch_fd ch" using cq ch by (simp add: entry_ok_def)
      then show ?thesis using True e i by (simp add: entry_ok_def)
    next
      case False
      then have "nat (ch_index cq) \<noteq> ?i"
        using entry_ok_fd [OF cq(2) e] q' reg i cq(2) by (auto simp: entry_ok_def)
      then show ?thesis using False cq by (simp add: entry_ok_update)
    qed
  next
    fix i assume "i < length (pollfds ?s)"
    then obtain fd q cq where "channels s fd = Some q" "chan_store s q = Some cq" "ch_index cq = int i"
      using poll_invD_surj [OF inv, of i] by auto
    then show "\<exists>fd q cq. channels ?s fd = Some q \<and> chan_store ?s q = Some cq \<and> ch_index cq = int i"
      using ch by (intro exI [of _ fd] exI [of _ q] exI [of _ "if q = p then ?ch else cq"])
        (auto simp: set_channel_def)
  qed
  ultimately show ?thesis
    using i by (intro exI [of _ ?s]) (simp add: set_channel_def)
qed

text \<open>Removing an entry: the last one is dropped, or moved into the gap with its channel's index.\<close>

lemma poll_other_pos:
  assumes "poll_inv s" and "chan_store s p = Some ch" and "channels s (ch_fd ch) = Some p"
    and "channels s fd = Some q" and "fd \<noteq> ch_fd ch" and "chan_store s q = Some cq"
  shows "nat (ch_index cq) \<noteq> nat (ch_index ch)" "q \<noteq> p"
    "nat (ch_index cq) < length (pollfds s)" "0 \<le> ch_index cq"
  using entry_ok_fd [OF poll_entry [OF assms(1,4,6)] poll_entry [OF assms(1,3,2)]]
    poll_entry [OF assms(1,4,6)] poll_entry [OF assms(1,3,2)] assms
  by (auto simp: entry_ok_def eq_nat_nat_iff)

lemma poll_inv_pop:
  assumes inv: "poll_inv s" and ch: "chan_store s p = Some ch" and reg: "channels s (ch_fd ch) = Some p"
    and last: "nat (ch_index ch) = length (pollfds s) - 1"
  shows "poll_inv ((set_channel p ch' s)\<lparr>channels := (channels s)(ch_fd ch := None), pollfds := butlast (pollfds s)\<rparr>)"
    (is "poll_inv ?s")
proof (rule poll_invI)
  fix fd q assume "channels ?s fd = Some q"
  then have q: "channels s fd = Some q" "fd \<noteq> ch_fd ch" by (auto split: if_splits)
  then obtain cq where cq: "chan_store s q = Some cq" "entry_ok (pollfds s) fd cq"
    using poll_invD [OF inv] by blast
  note pos = poll_other_pos [OF inv ch reg q cq(1)]
  show "\<exists>cq. chan_store ?s q = Some cq \<and> entry_ok (pollfds ?s) fd cq"
    using cq pos last by (simp add: entry_ok_butlast)
next
  fix j assume j: "j < length (pollfds ?s)"
  then have "j < length (pollfds s)" by simp
  then obtain fd q cq where q: "channels s fd = Some q" "chan_store s q = Some cq" "ch_index cq = int j"
    using poll_invD_surj [OF inv] by blast
  have "q \<noteq> p" using q ch j last by auto
  moreover have "fd \<noteq> ch_fd ch" using calculation q(1) reg by auto
  ultimately show "\<exists>fd q cq. channels ?s fd = Some q \<and> chan_store ?s q = Some cq \<and> ch_index cq = int j"
    using q by (intro exI [of _ fd] exI [of _ q] exI [of _ cq]) simp
qed

lemma poll_inv_swap:
  assumes inv: "poll_inv s" and ch: "chan_store s p = Some ch" and reg: "channels s (ch_fd ch) = Some p"
    and q: "channels s gd = Some q" "chan_store s q = Some cq" "nat (ch_index cq) = length (pollfds s) - 1"
    and gd: "gd \<noteq> ch_fd ch" and i: "0 \<le> ch_index ch" "nat (ch_index ch) < length (pollfds s) - 1"
    and nth: "\<And>k. k < length (pollfds s) - 1 \<Longrightarrow> fds ! k = (if k = nat (ch_index ch) then last (pollfds s) else pollfds s ! k)"
    and len: "length fds = length (pollfds s) - 1"
  shows "poll_inv ((set_channel q (set_index (ch_index ch) cq) (set_channel p ch' s))
                     \<lparr>channels := (channels s)(ch_fd ch := None), pollfds := fds\<rparr>)" (is "poll_inv ?s")
proof (rule poll_invI)
  let ?i = "nat (ch_index ch)"
  let ?n = "length (pollfds s) - 1"
  have eq: "entry_ok (pollfds s) gd cq" by (rule poll_entry [OF inv q(1,2)])
  have last: "last (pollfds s) = pollfds s ! ?n" using i by (intro last_conv_nth) auto
  fix fd r assume "channels ?s fd = Some r"
  then have r: "channels s fd = Some r" "fd \<noteq> ch_fd ch" by (auto split: if_splits)
  then obtain cr where cr: "chan_store s r = Some cr" "entry_ok (pollfds s) fd cr"
    using poll_invD [OF inv] by blast
  note pos = poll_other_pos [OF inv ch reg r cr(1)]
  show "\<exists>cr. chan_store ?s r = Some cr \<and> entry_ok (pollfds ?s) fd cr"
  proof (cases "r = q")
    case True
    then have "fd = gd" using cr q(2) eq by (simp add: entry_ok_def)
    then show ?thesis
      using True eq q(3) i nth [of ?i] last len by (simp add: entry_ok_def set_index_def)
  next
    case rq: False
    have "nat (ch_index cr) \<noteq> ?n"
      using entry_ok_fd [OF cr(2) eq] q r rq pos(4) eq by (auto simp: entry_ok_def eq_nat_nat_iff)
    then have "nat (ch_index cr) < ?n" using pos(3) by simp
    then show ?thesis
      using rq cr pos(1,2) nth [of "nat (ch_index cr)"] len by (simp add: entry_ok_def)
  qed
next
  fix j assume "j < length (pollfds ?s)"
  then have j: "j < length (pollfds s) - 1" using len by simp
  show "\<exists>fd r cr. channels ?s fd = Some r \<and> chan_store ?s r = Some cr \<and> ch_index cr = int j"
  proof (cases "j = nat (ch_index ch)")
    case True
    then show ?thesis
      using q gd i by (intro exI [of _ gd] exI [of _ q] exI [of _ "set_index (ch_index ch) cq"]) (simp add: set_index_def)
  next
    case False
    have "j < length (pollfds s)" using j by simp
    then obtain fd r cr where r: "channels s fd = Some r" "chan_store s r = Some cr" "ch_index cr = int j"
      using poll_invD_surj [OF inv] by blast
    have "r \<noteq> p" using r ch False i by auto
    moreover have "r \<noteq> q" using r q j by auto
    moreover have "fd \<noteq> ch_fd ch" using calculation r(1) reg by auto
    ultimately show ?thesis
      using r by (intro exI [of _ fd] exI [of _ r] exI [of _ cr]) simp
  qed
qed

lemma poll_upd_commute:
  "(s :: poll_state)\<lparr>channels := c\<rparr>\<lparr>chan_store := x\<rparr> = s\<lparr>chan_store := x\<rparr>\<lparr>channels := c\<rparr>"
  by simp

lemma poll_remove_unfold:
  assumes e: "entry_ok (pollfds s) (ch_fd ch) ch" and ch: "chan_store s p = Some ch"
    and reg: "channels s (ch_fd ch) = Some p" and idle: "isNoneEvent ch"
      "pfd_fd (pollfds s ! nat (ch_index ch)) = - ch_fd ch - 1"
  shows "ch_remove PollPoller_removeChannel p s =
      (let s0 = set_channel p (ch\<lparr>ch_addedToLoop := False\<rparr>) s; c = (channels s)(ch_fd ch := None);
           i = nat (ch_index ch); n = length (pollfds s) - 1
       in if i = n then Inr (s0\<lparr>channels := c, pollfds := butlast (pollfds s)\<rparr>)
          else (let at_end = pfd_fd (last (pollfds s)); fd = (if at_end < 0 then - at_end - 1 else at_end)
                in case c fd of None \<Rightarrow> Inl UseAfterFree
                   | Some q \<Rightarrow> with_channel q s0 (\<lambda>cq.
                       Inr ((set_channel q (set_index (ch_index ch) cq) s0)
                         \<lparr>channels := c, pollfds := butlast ((pollfds s)[i := last (pollfds s), n := pollfds s ! i])\<rparr>))))"
proof -
  have "0 \<le> ch_index ch \<and> ch_index ch < int (length (pollfds s))"
    using e by (auto simp: entry_ok_def)
  then show ?thesis
    using e ch reg idle
    by (simp add: ch_remove_def PollPoller_removeChannel_def Let_def isNoneEvent_def kNoneEvent_def entry_ok_def
          set_channel_def with_channel_def poll_upd_commute split: option.split)
qed

lemma poll_remove:
  assumes inv: "poll_inv s" and ch: "chan_store s p = Some ch" and reg: "channels s (ch_fd ch) = Some p"
    and idle: "isNoneEvent ch" "pfd_fd (pollfds s ! nat (ch_index ch)) = - ch_fd ch - 1"
  shows "\<exists>s'. ch_remove PollPoller_removeChannel p s = Inr s' \<and> poll_inv s'
      \<and> store_view s' = (store_view s)(p \<mapsto> (ch_fd ch, ch_events ch, ch_eventHandling ch, False))
      \<and> channels s' = (channels s)(ch_fd ch := None) \<and> map_option ch_index (chan_store s' p) = Some (ch_index ch)"
proof -
  let ?i = "nat (ch_index ch)"
  let ?n = "length (pollfds s) - 1"
  let ?c = "(channels s)(ch_fd ch := None)"
  let ?ch = "ch\<lparr>ch_addedToLoop := False\<rparr>"
  have e: "entry_ok (pollfds s) (ch_fd ch) ch"
    by (rule poll_entry [OF inv reg ch])
  then have i: "0 \<le> ch_index ch" "?i < length (pollfds s)" by (auto simp: entry_ok_def)
  note unfold = poll_remove_unfold [OF e ch reg idle]
  show ?thesis
  proof (cases "?i = ?n")
    case True
    then show ?thesis
      using unfold poll_inv_pop [OF inv ch reg True, of ?ch] ch
      by (auto simp: store_view_def ch_view_def set_channel_def Let_def)
  next
    case False
    have "?n < length (pollfds s)" using i by simp
    then obtain gd q cq where q: "channels s gd = Some q" "chan_store s q = Some cq" "nat (ch_index cq) = ?n"
      using poll_invD_surj [OF inv] by (metis nat_int)
    have qp: "q \<noteq> p" using q ch False i by auto
    have gd: "gd \<noteq> ch_fd ch" using qp q(1) reg by auto
    let ?fds = "butlast ((pollfds s)[?i := last (pollfds s), ?n := pollfds s ! ?i])"
    let ?s = "(set_channel q (set_index (ch_index ch) cq) (set_channel p ?ch s))\<lparr>channels := ?c, pollfds := ?fds\<rparr>"
    have "last (pollfds s) = pollfds s ! ?n" using i by (intro last_conv_nth) auto
    then have "(let at_end = pfd_fd (last (pollfds s)) in if at_end < 0 then - at_end - 1 else at_end) = gd"
      using poll_entry [OF inv q(1,2)] q(3) by (auto simp: entry_ok_def)
    then have step: "ch_remove PollPoller_removeChannel p s = Inr ?s"
      using unfold False gd q qp by (simp add: Let_def)
    have "poll_inv ?s"
      by (rule poll_inv_swap [OF inv ch reg q gd i(1)])
        (use False i in \<open>auto simp: nth_butlast nth_list_update\<close>)
    then show ?thesis
      using step ch q qp
      by (intro exI [of _ ?s]) (auto simp: store_view_def ch_view_def set_channel_def set_index_def fun_eq_iff)
  qed
qed

lemma hasChannel_view:
  "hasChannel p s = (case store_view s p of None \<Rightarrow> False | Some v \<Rightarrow> channels s (fst v) = Some p)"
  by (auto simp: hasChannel_def store_view_def ch_view_def split: option.splits)

interpretation pp: poller poll_inv hasChannel poll_fresh poll_idle PollPoller_updateChannel PollPoller_removeChannel
proof unfold_locales
  fix s :: poll_state and p fd ev eh a f
  assume inv: "poll_inv s" and v: "store_view s p = Some (fd, ev, eh, a)"
    and reg: "hasChannel p s \<or> poll_fresh p s"
  obtain ch where ch: "chan_store s p = Some ch" "ch_view ch = (fd, ev, eh, a)"
    using v by (auto simp: store_view_def)
  consider "channels s (ch_fd ch) = Some p" | "ch_index ch < 0" "0 \<le> ch_fd ch" "channels s (ch_fd ch) = None"
    using reg ch by (auto simp: hasChannel_iff poll_fresh_def)
  then show "\<exists>s'. set_events PollPoller_updateChannel f p s = Inr s' \<and> poll_inv s'
      \<and> store_view s' = (store_view s)(p \<mapsto> (fd, f ev, eh, True)) \<and> hasChannel p s'
      \<and> (\<forall>q. q \<noteq> p \<longrightarrow> hasChannel q s' = hasChannel q s)
      \<and> (hasChannel p s \<longrightarrow> f ev = kNoneEvent \<longrightarrow> poll_idle p s')"
  proof cases
    case 1
    from poll_modify [OF inv ch(1) 1, of f] show ?thesis
      using ch 1
      by (fastforce simp: store_view_def ch_view_def hasChannel_iff poll_idle_def isNoneEvent_def fun_eq_iff)
  next
    case 2
    from poll_add [OF inv ch(1) 2, of f] obtain s' where
      s': "set_events PollPoller_updateChannel f p s = Inr s'" "poll_inv s'"
        "chan_store s' = (chan_store s)(p \<mapsto> ch\<lparr>ch_events := f (ch_events ch), ch_addedToLoop := True,
                                               ch_index := int (length (pollfds s))\<rparr>)"
        "channels s' = (channels s)(ch_fd ch \<mapsto> p)"
      by blast
    have "store_view s' = (store_view s)(p \<mapsto> (fd, f ev, eh, True))"
      using ch s'(3) by (auto simp: store_view_def ch_view_def fun_eq_iff)
    moreover have "hasChannel p s'" "\<not> hasChannel p s" "\<forall>q. q \<noteq> p \<longrightarrow> hasChannel q s' = hasChannel q s"
      using ch s' 2 by (auto simp: hasChannel_def split: option.splits)
    ultimately show ?thesis using s'(1,2) by blast
  qed
next
  fix s :: poll_state and p fd ev eh a
  assume inv: "poll_inv s" and v: "store_view s p = Some (fd, ev, eh, a)"
    and reg: "hasChannel p s" and idle: "poll_idle p s"
  obtain ch where ch: "chan_store s p = Some ch" "ch_view ch = (fd, ev, eh, a)"
    using v by (auto simp: store_view_def)
  have r: "channels s (ch_fd ch) = Some p" "isNoneEvent ch" "pfd_fd (pollfds s ! nat (ch_index ch)) = - ch_fd ch - 1"
    using ch reg idle by (auto simp: hasChannel_iff poll_idle_def)
  from poll_remove [OF inv ch(1) r] obtain s' where
    s': "ch_remove PollPoller_removeChannel p s = Inr s'" "poll_inv s'"
      "store_view s' = (store_view s)(p \<mapsto> (fd, ev, eh, False))" "channels s' = (channels s)(fd := None)"
    using ch by (auto simp: ch_view_def)
  have "hasChannel q s' \<longleftrightarrow> q \<noteq> p \<and> hasChannel q s" for q
    using s'(3,4) ch r(1) by (auto simp: hasChannel_view ch_view_def split: option.splits)
  then show "\<exists>s'. ch_remove PollPoller_removeChannel p s = Inr s' \<and> poll_inv s'
      \<and> store_view s' = (store_view s)(p \<mapsto> (fd, ev, eh, False)) \<and> \<not> hasChannel p s'
      \<and> (\<forall>q. q \<noteq> p \<longrightarrow> hasChannel q s' = hasChannel q s)"
    using s' by blast
qed


section \<open>EPollPoller meets the contract\<close>

text \<open>
  What the code relies on in the kernel (\<open>man epoll_ctl\<close>): \<open>interest\<close> reads the interest list, a map
  from descriptors to the registered events and user pointer. Adding an absent descriptor, and
  changing or deleting a present one, succeeds and changes that entry alone.
\<close>

definition epoll_ctl_ok :: "'k epoll_ctl \<Rightarrow> ('k \<Rightarrow> int \<Rightarrow> (i32 \<times> chan_ptr) option) \<Rightarrow> bool" where
  "epoll_ctl_ok ctl interest \<longleftrightarrow>
     (\<forall>k fd ev p. interest k fd = None \<longrightarrow>
        fst (ctl k EPOLL_CTL_ADD fd ev p) = 0
        \<and> interest (snd (ctl k EPOLL_CTL_ADD fd ev p)) = (interest k)(fd \<mapsto> (ev, p)))
     \<and> (\<forall>k fd ev p. interest k fd \<noteq> None \<longrightarrow>
        fst (ctl k EPOLL_CTL_MOD fd ev p) = 0
        \<and> interest (snd (ctl k EPOLL_CTL_MOD fd ev p)) = (interest k)(fd \<mapsto> (ev, p))
        \<and> fst (ctl k EPOLL_CTL_DEL fd ev p) = 0
        \<and> interest (snd (ctl k EPOLL_CTL_DEL fd ev p)) = (interest k)(fd := None))"

lemma epoll_ctl_okD:
  assumes "epoll_ctl_ok ctl interest"
  shows "interest k fd = None \<Longrightarrow> \<exists>k'. ctl k EPOLL_CTL_ADD fd ev p = (0, k') \<and> interest k' = (interest k)(fd \<mapsto> (ev, p))"
    and "interest k fd \<noteq> None \<Longrightarrow> \<exists>k'. ctl k EPOLL_CTL_MOD fd ev p = (0, k') \<and> interest k' = (interest k)(fd \<mapsto> (ev, p))"
    and "interest k fd \<noteq> None \<Longrightarrow> \<exists>k'. ctl k EPOLL_CTL_DEL fd ev p = (0, k') \<and> interest k' = (interest k)(fd := None)"
  using assms unfolding epoll_ctl_ok_def by (metis prod.collapse)+

text \<open>
  The interest list mirrors the registered channels: an added channel is there with exactly its
  events and its address, a channel that was disabled (index \<open>kDeleted\<close>) is not, and nothing else is.
\<close>

definition mirrored :: "channel option \<Rightarrow> chan_ptr \<Rightarrow> (i32 \<times> chan_ptr) option \<Rightarrow> int \<Rightarrow> bool" where
  "mirrored c p i fd =
     (case c of None \<Rightarrow> False
      | Some ch \<Rightarrow> ch_fd ch = fd
          \<and> (ch_index ch = kAdded \<and> i = Some (ch_events ch, p)
             \<or> ch_index ch = kDeleted \<and> isNoneEvent ch \<and> i = None))"

definition epoll_inv :: "'k epoll_ctl \<Rightarrow> ('k \<Rightarrow> int \<Rightarrow> (i32 \<times> chan_ptr) option) \<Rightarrow> 'k epoll_state \<Rightarrow> bool" where
  "epoll_inv ctl interest s \<longleftrightarrow>
     epoll_ctl_ok ctl interest
     \<and> (\<forall>fd. case e_channels s fd of
               None \<Rightarrow> interest (kernel s) fd = None
             | Some p \<Rightarrow> mirrored (chan_store s p) p (interest (kernel s) fd) fd)"

definition epoll_fresh :: "chan_ptr \<Rightarrow> 'k epoll_state \<Rightarrow> bool" where
  "epoll_fresh p s \<longleftrightarrow>
     (\<exists>ch. chan_store s p = Some ch \<and> ch_index ch = kNew \<and> e_channels s (ch_fd ch) = None)"

definition epoll_idle :: "chan_ptr \<Rightarrow> 'k epoll_state \<Rightarrow> bool" where
  "epoll_idle p s \<longleftrightarrow> (\<exists>ch. chan_store s p = Some ch \<and> isNoneEvent ch)"

lemma epoll_invI:
  assumes inv: "epoll_inv ctl interest s"
    and "\<And>fd. fd \<noteq> gd \<Longrightarrow> e_channels s' fd = e_channels s fd"
    and "\<And>fd. fd \<noteq> gd \<Longrightarrow> interest (kernel s') fd = interest (kernel s) fd"
    and "\<And>q. q \<noteq> p \<Longrightarrow> chan_store s' q = chan_store s q"
    and "\<And>fd. fd \<noteq> gd \<Longrightarrow> e_channels s fd \<noteq> Some p"
    and "case e_channels s' gd of None \<Rightarrow> interest (kernel s') gd = None
           | Some q \<Rightarrow> mirrored (chan_store s' q) q (interest (kernel s') gd) gd"
  shows "epoll_inv ctl interest s'"
  unfolding epoll_inv_def
proof (intro conjI allI)
  show "epoll_ctl_ok ctl interest" using inv by (simp add: epoll_inv_def)
  fix fd
  show "case e_channels s' fd of None \<Rightarrow> interest (kernel s') fd = None
          | Some q \<Rightarrow> mirrored (chan_store s' q) q (interest (kernel s') fd) fd"
  proof (cases "fd = gd")
    case False
    then have "case e_channels s fd of None \<Rightarrow> interest (kernel s) fd = None
          | Some q \<Rightarrow> mirrored (chan_store s q) q (interest (kernel s) fd) fd"
      using inv by (simp add: epoll_inv_def)
    moreover have "chan_store s' q = chan_store s q" if "e_channels s fd = Some q" for q
      using assms(4) [of q] assms(5) [OF False] that by auto
    ultimately show ?thesis
      using assms(2,3) [OF False] by (simp split: option.splits)
  next
    case True
    show ?thesis unfolding True by (rule assms(6))
  qed
qed

lemma epoll_inv_entry:
  assumes "epoll_inv ctl interest s"
  shows "e_channels s fd = None \<Longrightarrow> interest (kernel s) fd = None"
    and "e_channels s fd = Some p \<Longrightarrow> mirrored (chan_store s p) p (interest (kernel s) fd) fd"
  using assms [unfolded epoll_inv_def, THEN conjunct2, rule_format, of fd] by simp_all

lemma epoll_inv_owner:
  assumes "epoll_inv ctl interest s" and "chan_store s p = Some ch" and "e_channels s fd = Some p"
  shows "fd = ch_fd ch"
  using epoll_inv_entry(2) [OF assms(1,3)] assms(2) by (simp add: mirrored_def)

lemma epoll_upd_commute:
  "(s :: 'k epoll_state)\<lparr>e_channels := c\<rparr>\<lparr>chan_store := x\<rparr> = s\<lparr>chan_store := x\<rparr>\<lparr>e_channels := c\<rparr>"
  "s\<lparr>kernel := k\<rparr>\<lparr>chan_store := x\<rparr> = s\<lparr>chan_store := x\<rparr>\<lparr>kernel := k\<rparr>"
  by simp_all

lemma ch_index_idem:
  "ch_index ch = i \<Longrightarrow>
   ch\<lparr>ch_events := e, ch_addedToLoop := b, ch_index := i\<rparr> = ch\<lparr>ch_events := e, ch_addedToLoop := b\<rparr>"
  by simp

lemmas epoll_unfold = set_events_unfold EPollPoller_updateChannel_def EPollPoller_update_def
  EPollPoller_removeChannel_def ch_remove_def Let_def isNoneEvent_def set_channel_def set_index_def
  with_channel_def epoll_upd_commute kNew_def kAdded_def kDeleted_def

text \<open>The outcome of an update: the interest list carries the new events, or loses the entry.\<close>

lemma epoll_set:
  assumes inv: "epoll_inv ctl interest s" and ch: "chan_store s p = Some ch"
    and reg: "e_channels s (ch_fd ch) = Some p \<or> e_channels s (ch_fd ch) = None \<and> ch_index ch = kNew"
  shows "\<exists>s' i. set_events (EPollPoller_updateChannel ctl) f p s = Inr s'
     \<and> chan_store s' = (chan_store s)(p \<mapsto> ch\<lparr>ch_events := f (ch_events ch), ch_addedToLoop := True, ch_index := i\<rparr>)
     \<and> e_channels s' = (e_channels s)(ch_fd ch \<mapsto> p)
     \<and> epoll_inv ctl interest s'"
proof -
  have ok: "epoll_ctl_ok ctl interest" using inv by (simp add: epoll_inv_def)
  let ?ev = "f (ch_events ch)"
  let ?ch = "ch\<lparr>ch_events := ?ev, ch_addedToLoop := True\<rparr>"
  let ?i = "interest (kernel s) (ch_fd ch)"
  have others: "e_channels s fd \<noteq> Some p" if "fd \<noteq> ch_fd ch" for fd
    using epoll_inv_owner [OF inv ch] that by blast
  have "\<exists>k' i. set_events (EPollPoller_updateChannel ctl) f p s =
        Inr (s\<lparr>chan_store := (chan_store s)(p \<mapsto> ?ch\<lparr>ch_index := i\<rparr>), e_channels := (e_channels s)(ch_fd ch \<mapsto> p),
               kernel := k'\<rparr>)
      \<and> interest k' = (interest (kernel s))(ch_fd ch := if i = kAdded then Some (?ev, p) else None)
      \<and> (i = kAdded \<or> i = kDeleted \<and> ?ev = kNoneEvent)"
  proof -
    consider "ch_index ch = kNew" "e_channels s (ch_fd ch) = None" "?i = None"
      | "ch_index ch = kDeleted" "e_channels s (ch_fd ch) = Some p" "?i = None"
      | "ch_index ch = kAdded" "e_channels s (ch_fd ch) = Some p" "?i \<noteq> None"
      using reg epoll_inv_entry [OF inv, of "ch_fd ch"] ch by (auto simp: mirrored_def)
    then show ?thesis
    proof cases
      case 1
      then obtain k' where "ctl (kernel s) EPOLL_CTL_ADD (ch_fd ch) ?ev p = (0, k')"
          "interest k' = (interest (kernel s))(ch_fd ch \<mapsto> (?ev, p))"
        using epoll_ctl_okD(1) [OF ok 1(3), of ?ev p] by blast
      then show ?thesis
        using ch 1 by (intro exI [of _ k'] exI [of _ kAdded]) (simp add: epoll_unfold)
    next
      case 2
      then obtain k' where "ctl (kernel s) EPOLL_CTL_ADD (ch_fd ch) ?ev p = (0, k')"
          "interest k' = (interest (kernel s))(ch_fd ch \<mapsto> (?ev, p))"
        using epoll_ctl_okD(1) [OF ok 2(3), of ?ev p] by blast
      then show ?thesis
        using ch 2 by (intro exI [of _ k'] exI [of _ kAdded]) (simp add: epoll_unfold fun_upd_idem)
    next
      case 3
      then obtain k' where "ctl (kernel s) (if ?ev = kNoneEvent then EPOLL_CTL_DEL else EPOLL_CTL_MOD) (ch_fd ch) ?ev p = (0, k')"
          "interest k' = (interest (kernel s))(ch_fd ch := if ?ev = kNoneEvent then None else Some (?ev, p))"
        using epoll_ctl_okD(2,3) [OF ok 3(3), of ?ev p] by (cases "?ev = kNoneEvent") auto
      then show ?thesis
        using ch 3
        by (intro exI [of _ k'] exI [of _ "if ?ev = kNoneEvent then kDeleted else kAdded"])
          (auto simp: epoll_unfold fun_upd_idem ch_index_idem)
    qed
  qed
  then obtain k' i where step: "set_events (EPollPoller_updateChannel ctl) f p s =
        Inr (s\<lparr>chan_store := (chan_store s)(p \<mapsto> ?ch\<lparr>ch_index := i\<rparr>), e_channels := (e_channels s)(ch_fd ch \<mapsto> p),
               kernel := k'\<rparr>)"
      and k': "interest k' = (interest (kernel s))(ch_fd ch := if i = kAdded then Some (?ev, p) else None)"
      and i: "i = kAdded \<or> i = kDeleted \<and> ?ev = kNoneEvent"
    by blast
  show ?thesis
    by (intro exI conjI, rule step)
      (use k' i others in \<open>auto intro!: epoll_invI [OF inv, of "ch_fd ch" _ p]
         simp: mirrored_def isNoneEvent_def kAdded_def kDeleted_def\<close>)
qed

lemma epoll_remove:
  assumes inv: "epoll_inv ctl interest s" and ch: "chan_store s p = Some ch"
    and reg: "e_channels s (ch_fd ch) = Some p" and idle: "isNoneEvent ch"
  shows "\<exists>s'. ch_remove (EPollPoller_removeChannel ctl) p s = Inr s' \<and> epoll_inv ctl interest s'
     \<and> chan_store s' = (chan_store s)(p \<mapsto> ch\<lparr>ch_addedToLoop := False, ch_index := kNew\<rparr>)
     \<and> e_channels s' = (e_channels s)(ch_fd ch := None)"
proof -
  have ok: "epoll_ctl_ok ctl interest" using inv by (simp add: epoll_inv_def)
  let ?ch = "ch\<lparr>ch_addedToLoop := False, ch_index := kNew\<rparr>"
  let ?i = "interest (kernel s) (ch_fd ch)"
  have others: "e_channels s fd \<noteq> Some p" if "fd \<noteq> ch_fd ch" for fd
    using epoll_inv_owner [OF inv ch] that by blast
  have "\<exists>k'. ch_remove (EPollPoller_removeChannel ctl) p s =
        Inr (s\<lparr>chan_store := (chan_store s)(p \<mapsto> ?ch), e_channels := (e_channels s)(ch_fd ch := None), kernel := k'\<rparr>)
      \<and> interest k' = (interest (kernel s))(ch_fd ch := None)"
  proof -
    consider "ch_index ch = kDeleted" "?i = None" | "ch_index ch = kAdded" "?i \<noteq> None"
      using epoll_inv_entry(2) [OF inv reg] ch by (auto simp: mirrored_def)
    then show ?thesis
    proof cases
      case 1
      then show ?thesis
        using ch reg idle by (intro exI [of _ "kernel s"]) (auto simp: epoll_unfold fun_upd_idem)
    next
      case 2
      then obtain k' where "ctl (kernel s) EPOLL_CTL_DEL (ch_fd ch) (ch_events ch) p = (0, k')"
          "interest k' = (interest (kernel s))(ch_fd ch := None)"
        using epoll_ctl_okD(3) [OF ok 2(2), of "ch_events ch" p] by blast
      then show ?thesis
        using ch reg idle 2 by (intro exI [of _ k']) (auto simp: epoll_unfold)
    qed
  qed
  then obtain k' where step: "ch_remove (EPollPoller_removeChannel ctl) p s =
        Inr (s\<lparr>chan_store := (chan_store s)(p \<mapsto> ?ch), e_channels := (e_channels s)(ch_fd ch := None), kernel := k'\<rparr>)"
      and k': "interest k' = (interest (kernel s))(ch_fd ch := None)"
    by blast
  show ?thesis
    by (intro exI conjI, rule step)
      (use k' others in \<open>auto intro!: epoll_invI [OF inv, of "ch_fd ch" _ p]\<close>)
qed

lemma EPollPoller_hasChannel_view:
  "EPollPoller_hasChannel p s =
     (case store_view s p of None \<Rightarrow> False | Some v \<Rightarrow> e_channels s (fst v) = Some p)"
  by (auto simp: EPollPoller_hasChannel_def store_view_def ch_view_def split: option.splits)

interpretation ep: poller "epoll_inv ctl interest" EPollPoller_hasChannel epoll_fresh epoll_idle
  "EPollPoller_updateChannel ctl" "EPollPoller_removeChannel ctl"
proof unfold_locales
  fix s p fd ev eh a f
  assume inv: "epoll_inv ctl interest s" and v: "store_view s p = Some (fd, ev, eh, a)"
    and reg: "EPollPoller_hasChannel p s \<or> epoll_fresh p s"
  obtain ch where ch: "chan_store s p = Some ch" "ch_view ch = (fd, ev, eh, a)"
    using v by (auto simp: store_view_def)
  have r: "e_channels s (ch_fd ch) = Some p \<or> e_channels s (ch_fd ch) = None \<and> ch_index ch = kNew"
    using reg ch by (auto simp: EPollPoller_hasChannel_def epoll_fresh_def)
  from epoll_set [OF inv ch(1) r, of f] obtain s' i where
    s': "set_events (EPollPoller_updateChannel ctl) f p s = Inr s'" "epoll_inv ctl interest s'"
      "chan_store s' = (chan_store s)(p \<mapsto> ch\<lparr>ch_events := f (ch_events ch), ch_addedToLoop := True, ch_index := i\<rparr>)"
      "e_channels s' = (e_channels s)(ch_fd ch \<mapsto> p)"
    by blast
  have "store_view s' = (store_view s)(p \<mapsto> (fd, f ev, eh, True))"
    using ch s'(3) by (auto simp: store_view_def ch_view_def fun_eq_iff)
  moreover have "EPollPoller_hasChannel p s'" "\<forall>q. q \<noteq> p \<longrightarrow> EPollPoller_hasChannel q s' = EPollPoller_hasChannel q s"
    using ch s' r by (auto simp: EPollPoller_hasChannel_def split: option.splits)
  moreover have "f ev = kNoneEvent \<longrightarrow> epoll_idle p s'"
    using ch s'(3) by (auto simp: epoll_idle_def isNoneEvent_def ch_view_def)
  ultimately show "\<exists>s'. set_events (EPollPoller_updateChannel ctl) f p s = Inr s' \<and> epoll_inv ctl interest s'
      \<and> store_view s' = (store_view s)(p \<mapsto> (fd, f ev, eh, True)) \<and> EPollPoller_hasChannel p s'
      \<and> (\<forall>q. q \<noteq> p \<longrightarrow> EPollPoller_hasChannel q s' = EPollPoller_hasChannel q s)
      \<and> (EPollPoller_hasChannel p s \<longrightarrow> f ev = kNoneEvent \<longrightarrow> epoll_idle p s')"
    using s'(1,2) by blast
next
  fix s p fd ev eh a
  assume inv: "epoll_inv ctl interest s" and v: "store_view s p = Some (fd, ev, eh, a)"
    and reg: "EPollPoller_hasChannel p s" and idle: "epoll_idle p s"
  obtain ch where ch: "chan_store s p = Some ch" "ch_view ch = (fd, ev, eh, a)"
    using v by (auto simp: store_view_def)
  have r: "e_channels s (ch_fd ch) = Some p" "isNoneEvent ch"
    using reg idle ch by (auto simp: EPollPoller_hasChannel_def epoll_idle_def)
  from epoll_remove [OF inv ch(1) r] obtain s' where
    s': "ch_remove (EPollPoller_removeChannel ctl) p s = Inr s'" "epoll_inv ctl interest s'"
      "store_view s' = (store_view s)(p \<mapsto> (fd, ev, eh, False))" "e_channels s' = (e_channels s)(fd := None)"
    using ch by (auto simp: store_view_def ch_view_def fun_eq_iff)
  have "EPollPoller_hasChannel q s' \<longleftrightarrow> q \<noteq> p \<and> EPollPoller_hasChannel q s" for q
    using s'(3,4) v r(1) ch
    by (auto simp: EPollPoller_hasChannel_view ch_view_def split: option.splits)
  then show "\<exists>s'. ch_remove (EPollPoller_removeChannel ctl) p s = Inr s' \<and> epoll_inv ctl interest s'
      \<and> store_view s' = (store_view s)(p \<mapsto> (fd, ev, eh, False)) \<and> \<not> EPollPoller_hasChannel p s'
      \<and> (\<forall>q. q \<noteq> p \<longrightarrow> EPollPoller_hasChannel q s' = EPollPoller_hasChannel q s)"
    using s' by blast
qed

text \<open>A state with two registered channels, used in examples.\<close>

definition ex_poll :: poll_state where
  "ex_poll = \<lparr>chan_store = [7 \<mapsto> (new_Channel 4)\<lparr>ch_events := kReadEvent, ch_addedToLoop := True, ch_index := 0\<rparr>,
                             8 \<mapsto> (new_Channel 5)\<lparr>ch_events := kReadEvent, ch_addedToLoop := True, ch_index := 1\<rparr>,
                             9 \<mapsto> new_Channel 6],
              channels = [4 \<mapsto> 7, 5 \<mapsto> 8],
              pollfds = [\<lparr>pfd_fd = 4, pfd_events = ucast kReadEvent, pfd_revents = 0\<rparr>,
                         \<lparr>pfd_fd = 5, pfd_events = ucast kReadEvent, pfd_revents = 0\<rparr>]\<rparr>"

lemma ex_poll_inv: "poll_inv ex_poll"
proof -
  have "\<exists>fd p ch. channels ex_poll fd = Some p \<and> chan_store ex_poll p = Some ch \<and> ch_index ch = int i"
    if "i < 2" for i
    using that by (intro exI [of _ "if i = 0 then 4 else 5"] exI [of _ "if i = 0 then 7 else 8"])
      (auto simp: ex_poll_def less_2_cases_iff)
  then show ?thesis
    by (auto simp: poll_inv_def entry_ok_def ex_poll_def new_Channel_def split: if_splits)
qed

section \<open>Reporting active channels\<close>

definition ready :: "pollfd \<Rightarrow> bool" where
  "ready pfd \<longleftrightarrow> sint (pfd_revents pfd) > 0"

definition fill_ok :: "(int \<Rightarrow> chan_ptr option) \<Rightarrow> (chan_ptr \<Rightarrow> channel option) \<Rightarrow> pollfd \<Rightarrow> bool" where
  "fill_ok chans store pfd \<longleftrightarrow> (\<exists>p ch. chans (pfd_fd pfd) = Some p \<and> store p = Some ch \<and> ch_fd ch = pfd_fd pfd)"

text \<open>The loop stops early once \<open>numEvents\<close> entries were found, which loses no ready entry.\<close>

lemma fill_loop_ok:
  assumes "int (length (filter ready pfds)) \<le> n" and "\<And>pfd. pfd \<in> set pfds \<Longrightarrow> ready pfd \<Longrightarrow> fill_ok chans store pfd"
    and "distinct (map pfd_fd (filter ready pfds))"
  shows "\<exists>store'. fill_loop chans pfds n store active = Inr (store', active @ map (the \<circ> chans \<circ> pfd_fd) (filter ready pfds))
     \<and> (\<forall>pfd p. pfd \<in> set pfds \<longrightarrow> ready pfd \<longrightarrow> chans (pfd_fd pfd) = Some p \<longrightarrow>
            store' p = map_option (set_revents (scast (pfd_revents pfd))) (store p))
     \<and> (\<forall>q. q \<notin> (the \<circ> chans \<circ> pfd_fd) ` set (filter ready pfds) \<longrightarrow> store' q = store q)"
  using assms
proof (induction pfds arbitrary: n store active)
  case Nil
  then show ?case by simp
next
  case (Cons pfd pfds)
  show ?case
  proof (cases "ready pfd")
    case False
    have prems: "int (length (filter ready pfds)) \<le> n" "\<And>x. x \<in> set pfds \<Longrightarrow> ready x \<Longrightarrow> fill_ok chans store x"
        "distinct (map pfd_fd (filter ready pfds))"
      using Cons.prems False by auto
    have "fill_loop chans (pfd # pfds) n store active = fill_loop chans pfds n store active"
      using False prems(1) by (cases pfds) (auto simp: ready_def)
    then show ?thesis
      using Cons.IH [OF prems, of active] False by simp
  next
    case True
    obtain p ch where p: "chans (pfd_fd pfd) = Some p" "store p = Some ch" "ch_fd ch = pfd_fd pfd"
      using Cons.prems(2) [of pfd] True by (auto simp: fill_ok_def)
    let ?store = "store(p \<mapsto> set_revents (scast (pfd_revents pfd)) ch)"
    have prems: "int (length (filter ready pfds)) \<le> n - 1" "distinct (map pfd_fd (filter ready pfds))"
      using Cons.prems(1,3) True by auto
    have ok: "fill_ok chans ?store x" if "x \<in> set pfds" "ready x" for x
      using Cons.prems(2) [of x] that p by (auto simp: fill_ok_def set_revents_def)
    have step: "fill_loop chans (pfd # pfds) n store active = fill_loop chans pfds (n - 1) ?store (active @ [p])"
      using True Cons.prems(1) p by (auto simp: ready_def)
    from Cons.IH [OF prems(1) ok prems(2), of "active @ [p]"] obtain store' where
      IH: "fill_loop chans pfds (n - 1) ?store (active @ [p]) =
             Inr (store', (active @ [p]) @ map (the \<circ> chans \<circ> pfd_fd) (filter ready pfds))"
        "\<forall>x q. x \<in> set pfds \<longrightarrow> ready x \<longrightarrow> chans (pfd_fd x) = Some q \<longrightarrow>
            store' q = map_option (set_revents (scast (pfd_revents x))) (?store q)"
        "\<forall>q. q \<notin> (the \<circ> chans \<circ> pfd_fd) ` set (filter ready pfds) \<longrightarrow> store' q = ?store q"
      by blast
    have ne: "p \<noteq> the (chans (pfd_fd x))" if "x \<in> set pfds" "ready x" for x
      using Cons.prems(2) [of x] Cons.prems(3) that p True by (force simp: fill_ok_def)
    then have "store' p = ?store p" using IH(3) by (auto simp: image_iff)
    moreover have "store' q = map_option (set_revents (scast (pfd_revents x))) (store q)"
      if "x \<in> set pfds" "ready x" "chans (pfd_fd x) = Some q" for x q
      using IH(2) that ne [OF that(1,2)] by (simp split: if_splits)
    ultimately show ?thesis
      using step IH p True by (intro exI [of _ store']) auto
  qed
qed

lemma distinct_map_filter_nth:
  assumes "\<And>i j. i < length xs \<Longrightarrow> j < length xs \<Longrightarrow> P (xs ! i) \<Longrightarrow> P (xs ! j) \<Longrightarrow> f (xs ! i) = f (xs ! j) \<Longrightarrow> i = j"
  shows "distinct (map f (filter P xs))"
  using assms
proof (induction xs)
  case (Cons x xs)
  have "distinct (map f (filter P xs))"
    using Cons.prems [of "Suc _" "Suc _"] by (intro Cons.IH) auto
  moreover have "f x \<noteq> f y" if "y \<in> set xs" "P x" "P y" for y
  proof -
    obtain j where "j < length xs" "y = xs ! j" using \<open>y \<in> set xs\<close> by (auto simp: in_set_conv_nth)
    then show ?thesis using Cons.prems [of 0 "Suc j"] that by auto
  qed
  ultimately show ?case by auto
qed simp

lemma poll_entry_at:
  assumes inv: "poll_inv s" and "i < length (pollfds s)" and "0 \<le> pfd_fd (pollfds s ! i)"
  obtains p ch where "channels s (pfd_fd (pollfds s ! i)) = Some p" and "chan_store s p = Some ch"
    and "ch_index ch = int i" and "ch_fd ch = pfd_fd (pollfds s ! i)"
proof -
  obtain fd p ch where p: "channels s fd = Some p" "chan_store s p = Some ch" "ch_index ch = int i"
    using poll_invD_surj [OF inv assms(2)] by blast
  moreover have "fd = pfd_fd (pollfds s ! i)" "ch_fd ch = fd"
    using poll_entry [OF inv p(1,2)] p(3) assms(3) by (auto simp: entry_ok_def)
  ultimately show thesis using that by blast
qed

text \<open>What \<open>poll(2)\<close> promises of the \<open>revents\<close>: one value per entry, no bit 15, and 0 for a negative descriptor.\<close>

definition poll_result_ok :: "pollfd list \<Rightarrow> i16 list \<Rightarrow> bool" where
  "poll_result_ok fds revs \<longleftrightarrow> length revs = length fds
     \<and> (\<forall>i < length fds. 0 \<le> sint (revs ! i) \<and> (pfd_fd (fds ! i) < 0 \<longrightarrow> revs ! i = 0))"

lemma sint_pos_iff:
  assumes "0 \<le> sint (x :: i16)"
  shows "0 < sint x \<longleftrightarrow> x \<noteq> 0"
proof -
  have "sint x \<noteq> 0 \<longleftrightarrow> x \<noteq> 0" using signed_word_eqI [of x 0] by auto
  with assms show ?thesis by linarith
qed

lemma poll_result_filled:
  assumes inv: "poll_inv s" and ok: "poll_result_ok (pollfds s) revs"
    and fds: "fds = map2 (\<lambda>pfd rv. pfd\<lparr>pfd_revents := rv\<rparr>) (pollfds s) revs"
  shows "length (filter ready fds) = length (filter (\<lambda>rv. rv \<noteq> 0) revs)"
    and "pfd \<in> set fds \<Longrightarrow> ready pfd \<Longrightarrow> fill_ok (channels s) (chan_store s) pfd"
    and "distinct (map pfd_fd (filter ready fds))"
proof -
  have len: "length revs = length (pollfds s)" "length fds = length (pollfds s)"
    using ok fds by (auto simp: poll_result_ok_def)
  have nth: "fds ! i = (pollfds s ! i)\<lparr>pfd_revents := revs ! i\<rparr>" if "i < length (pollfds s)" for i
    using that len fds by simp
  then have nth_fd: "pfd_fd (fds ! i) = pfd_fd (pollfds s ! i)" if "i < length (pollfds s)" for i
    using that by simp
  have r: "ready (fds ! i) \<longleftrightarrow> revs ! i \<noteq> 0" "ready (fds ! i) \<Longrightarrow> 0 \<le> pfd_fd (pollfds s ! i)"
    if "i < length (pollfds s)" for i
  proof -
    have *: "0 \<le> sint (revs ! i)" "pfd_fd (pollfds s ! i) < 0 \<longrightarrow> revs ! i = 0"
      using ok that by (simp_all add: poll_result_ok_def)
    show "ready (fds ! i) \<longleftrightarrow> revs ! i \<noteq> 0"
      using *(1) sint_pos_iff nth [OF that] by (simp add: ready_def)
    then show "ready (fds ! i) \<Longrightarrow> 0 \<le> pfd_fd (pollfds s ! i)" using *(2) by linarith
  qed
  have "length (filter ready fds) = card {i. i < length fds \<and> ready (fds ! i)}"
    by (rule length_filter_conv_card)
  also have "\<dots> = card {i. i < length revs \<and> revs ! i \<noteq> 0}"
    using r(1) len by (intro arg_cong [where f = card]) auto
  also have "\<dots> = length (filter (\<lambda>rv. rv \<noteq> 0) revs)"
    by (rule length_filter_conv_card [symmetric])
  finally show "length (filter ready fds) = length (filter (\<lambda>rv. rv \<noteq> 0) revs)" .
  show "fill_ok (channels s) (chan_store s) pfd" if pfd: "pfd \<in> set fds" "ready pfd"
  proof -
    obtain i where i: "i < length (pollfds s)" "pfd = fds ! i"
      using pfd(1) len by (auto simp: in_set_conv_nth)
    obtain p ch where "channels s (pfd_fd (pollfds s ! i)) = Some p" "chan_store s p = Some ch"
        "ch_fd ch = pfd_fd (pollfds s ! i)"
      by (rule poll_entry_at [OF inv i(1) r(2) [OF i(1) pfd(2) [unfolded i(2)]]])
    then show ?thesis using i(2) nth [OF i(1)] by (simp add: fill_ok_def)
  qed
  show "distinct (map pfd_fd (filter ready fds))"
  proof (rule distinct_map_filter_nth)
    fix i j
    assume i: "i < length fds" "ready (fds ! i)" and j: "j < length fds" "ready (fds ! j)"
      and eq: "pfd_fd (fds ! i) = pfd_fd (fds ! j)"
    have *: "i < length (pollfds s)" "j < length (pollfds s)" using i j len by simp_all
    obtain p ch where "channels s (pfd_fd (pollfds s ! i)) = Some p" "chan_store s p = Some ch" "ch_index ch = int i"
      by (rule poll_entry_at [OF inv *(1) r(2) [OF *(1) i(2)]])
    moreover obtain q ch' where "channels s (pfd_fd (pollfds s ! j)) = Some q" "chan_store s q = Some ch'" "ch_index ch' = int j"
      by (rule poll_entry_at [OF inv *(2) r(2) [OF *(2) j(2)]])
    moreover have "pfd_fd (pollfds s ! i) = pfd_fd (pollfds s ! j)"
      using eq unfolding nth_fd [OF *(1)] nth_fd [OF *(2)] .
    ultimately show "i = j" by (metis of_nat_eq_iff option.inject)
  qed
qed

lemma poll_revents_inv:
  assumes inv: "poll_inv s" and len: "length revs = length (pollfds s)"
    and s': "channels s' = channels s" "pollfds s' = map2 (\<lambda>pfd rv. pfd\<lparr>pfd_revents := rv\<rparr>) (pollfds s) revs"
    and store: "\<And>q. \<exists>r. chan_store s' q = chan_store s q \<or> chan_store s' q = map_option (set_revents r) (chan_store s q)"
  shows "poll_inv s'"
  unfolding poll_inv_def
proof (intro conjI allI impI)
  fix fd p
  assume "channels s' fd = Some p"
  then obtain ch where "chan_store s p = Some ch" "entry_ok (pollfds s) fd ch"
    using poll_invD [OF inv] s'(1) by metis
  moreover from this store [of p] obtain r where "chan_store s' p = Some ch \<or> chan_store s' p = Some (set_revents r ch)"
    by auto
  ultimately show "\<exists>ch. chan_store s' p = Some ch \<and> entry_ok (pollfds s') fd ch"
    using s'(2) len by (auto simp: entry_ok_def set_revents_def)
next
  fix i
  assume "i < length (pollfds s')"
  then have "i < length (pollfds s)" using s'(2) by simp
  then obtain fd p ch where p: "channels s fd = Some p" "chan_store s p = Some ch" "ch_index ch = int i"
    using poll_invD_surj [OF inv] by blast
  from store [of p] p(2) obtain r where "chan_store s' p = Some ch \<or> chan_store s' p = Some (set_revents r ch)"
    by auto
  then show "\<exists>fd p ch. channels s' fd = Some p \<and> chan_store s' p = Some ch \<and> ch_index ch = int i"
    using p s'(1) by (intro exI [of _ fd] exI [of _ p]) (auto simp: set_revents_def)
qed

lemma poll_ready_iff:
  assumes inv: "poll_inv s" and ok: "poll_result_ok (pollfds s) revs"
  shows "(\<exists>i < length (pollfds s). revs ! i \<noteq> 0 \<and> channels s (pfd_fd (pollfds s ! i)) = Some p) \<longleftrightarrow>
     (\<exists>ch. chan_store s p = Some ch \<and> hasChannel p s \<and> revs ! nat (ch_index ch) \<noteq> 0)" (is "?l \<longleftrightarrow> ?r")
proof
  assume ?l
  then obtain i where i: "i < length (pollfds s)" "revs ! i \<noteq> 0" "channels s (pfd_fd (pollfds s ! i)) = Some p"
    by blast
  then have "0 \<le> pfd_fd (pollfds s ! i)" using ok by (auto simp: poll_result_ok_def)
  from poll_entry_at [OF inv i(1) this] i show ?r by (metis hasChannel_iff nat_int option.inject)
next
  assume ?r
  then obtain ch where ch: "chan_store s p = Some ch" "channels s (ch_fd ch) = Some p" "revs ! nat (ch_index ch) \<noteq> 0"
    by (auto simp: hasChannel_iff)
  from poll_entry [OF inv ch(2,1)] ch ok show ?l
    by (intro exI [of _ "nat (ch_index ch)"]) (auto simp: entry_ok_def poll_result_ok_def)
qed

lemma poll_fds_ready:
  assumes "poll_result_ok fds revs"
    and fds': "fds' = map2 (\<lambda>pfd rv. pfd\<lparr>pfd_revents := rv\<rparr>) fds revs"
  shows "pfd \<in> set fds' \<and> ready pfd \<longleftrightarrow>
     (\<exists>i < length fds. revs ! i \<noteq> 0 \<and> pfd = (fds ! i)\<lparr>pfd_revents := revs ! i\<rparr>)"
proof -
  have r: "0 < sint (revs ! i) \<longleftrightarrow> revs ! i \<noteq> 0" if "i < length fds" for i
    using assms(1) that sint_pos_iff by (simp add: poll_result_ok_def)
  have len: "length revs = length fds" using assms(1) by (simp add: poll_result_ok_def)
  have "pfd \<in> set fds' \<longleftrightarrow> (\<exists>i < length fds. pfd = (fds ! i)\<lparr>pfd_revents := revs ! i\<rparr>)"
    unfolding in_set_conv_nth fds' using len by auto
  moreover have "ready ((fds ! i)\<lparr>pfd_revents := revs ! i\<rparr>) \<longleftrightarrow> revs ! i \<noteq> 0" if "i < length fds" for i
    using r [OF that] by (simp add: ready_def)
  ultimately show ?thesis by blast
qed

lemma fill_loop_0: "fill_loop chans pfds 0 store active = Inr (store, active)"
  by (cases pfds) simp_all

lemma poll_unfold:
  "PollPoller_poll (Inr revs) s =
     PollPoller_fillActiveChannels (int (length (filter (\<lambda>rv. rv \<noteq> 0) revs)))
       (s\<lparr>pollfds := map2 (\<lambda>pfd rv. pfd\<lparr>pfd_revents := rv\<rparr>) (pollfds s) revs\<rparr>)"
  by (simp add: PollPoller_poll_def PollPoller_fillActiveChannels_def Let_def filter_empty_conv fill_loop_0)

text \<open>(C20) One turn of \<open>PollPoller\<close> under the promises of \<open>poll(2)\<close>: the active list names, once
  each, exactly the registered channels whose entry has received events, these channels carry the
  received events, all other channels are unchanged, and no assertion fails.\<close>

theorem poll_reports_ready:
  assumes "poll_inv s" and "poll_result_ok (pollfds s) revs"
  shows "\<exists>s' active. PollPoller_poll (Inr revs) s = Inr (s', active) \<and> poll_inv s' \<and> distinct active
     \<and> (\<forall>p. p \<in> set active \<longleftrightarrow>
             (\<exists>ch. chan_store s p = Some ch \<and> hasChannel p s \<and> revs ! nat (ch_index ch) \<noteq> 0))
     \<and> (\<forall>p ch. chan_store s p = Some ch \<longrightarrow> chan_store s' p =
             Some (if p \<in> set active then set_revents (scast (revs ! nat (ch_index ch))) ch else ch))"
proof -
  define fds where "fds = map2 (\<lambda>pfd rv. pfd\<lparr>pfd_revents := rv\<rparr>) (pollfds s) revs"
  define n where "n = int (length (filter (\<lambda>rv. rv \<noteq> 0) revs))"
  define active where "active = map (the \<circ> channels s \<circ> pfd_fd) (filter ready fds)"
  have len: "length revs = length (pollfds s)" using assms(2) by (simp add: poll_result_ok_def)
  note filled = poll_result_filled [OF assms fds_def]
  have "\<exists>store'. fill_loop (channels s) fds n (chan_store s) [] = Inr (store', [] @ active)
     \<and> (\<forall>pfd p. pfd \<in> set fds \<longrightarrow> ready pfd \<longrightarrow> channels s (pfd_fd pfd) = Some p \<longrightarrow>
            store' p = map_option (set_revents (scast (pfd_revents pfd))) (chan_store s p))
     \<and> (\<forall>q. q \<notin> (the \<circ> channels s \<circ> pfd_fd) ` set (filter ready fds) \<longrightarrow> store' q = chan_store s q)"
    unfolding active_def by (rule fill_loop_ok) (use filled in \<open>simp_all add: n_def\<close>)
  then obtain store' where
    run: "fill_loop (channels s) fds n (chan_store s) [] = Inr (store', active)"
    and act: "\<And>pfd p. pfd \<in> set fds \<Longrightarrow> ready pfd \<Longrightarrow> channels s (pfd_fd pfd) = Some p \<Longrightarrow>
        store' p = map_option (set_revents (scast (pfd_revents pfd))) (chan_store s p)"
    and other: "\<And>q. q \<notin> set active \<Longrightarrow> store' q = chan_store s q"
    by (auto simp: active_def)
  let ?s = "s\<lparr>pollfds := fds, chan_store := store'\<rparr>"
  have mem: "p \<in> set active \<longleftrightarrow> (\<exists>i < length (pollfds s). revs ! i \<noteq> 0 \<and> channels s (pfd_fd (pollfds s ! i)) = Some p)" for p
  proof -
    have "p \<in> set active \<longleftrightarrow> (\<exists>pfd. (pfd \<in> set fds \<and> ready pfd) \<and> channels s (pfd_fd pfd) = Some p)"
      using filled(2) by (force simp: fill_ok_def active_def)
    also have "\<dots> \<longleftrightarrow> (\<exists>i < length (pollfds s). revs ! i \<noteq> 0 \<and> channels s (pfd_fd (pollfds s ! i)) = Some p)"
      unfolding poll_fds_ready [OF assms(2) fds_def] by auto
    finally show ?thesis .
  qed
  have store: "store' p = Some (if p \<in> set active then set_revents (scast (revs ! nat (ch_index ch))) ch else ch)"
    if ch: "chan_store s p = Some ch" for p ch
  proof (cases "p \<in> set active")
    case True
    then obtain i where i: "i < length (pollfds s)" "revs ! i \<noteq> 0" "channels s (pfd_fd (pollfds s ! i)) = Some p"
      using mem by blast
    then have "0 \<le> pfd_fd (pollfds s ! i)" using assms(2) by (auto simp: poll_result_ok_def)
    from poll_entry_at [OF assms(1) i(1) this] i(3) ch have idx: "ch_index ch = int i" by fastforce
    let ?pfd = "(pollfds s ! i)\<lparr>pfd_revents := revs ! i\<rparr>"
    have "?pfd \<in> set fds \<and> ready ?pfd"
      using poll_fds_ready [OF assms(2) fds_def, of ?pfd] i(1,2) by blast
    then show ?thesis
      using act [of ?pfd p] i(3) ch True idx by simp
  qed (use other ch in simp)
  have "poll_inv ?s"
  proof (rule poll_revents_inv [OF assms(1) len])
    show "\<exists>r. chan_store ?s q = chan_store s q \<or> chan_store ?s q = map_option (set_revents r) (chan_store s q)" for q
      using store [of q] other [of q] mem [of q] poll_ready_iff [OF assms, of q] by (cases "chan_store s q") auto
  qed (simp_all add: fds_def)
  moreover have "pfd_fd x = pfd_fd y" if "x \<in> set fds" "ready x" "y \<in> set fds" "ready y"
      "the (channels s (pfd_fd x)) = the (channels s (pfd_fd y))" for x y
    using filled(2) [OF that(1,2)] filled(2) [OF that(3,4)] that(5) by (auto simp: fill_ok_def)
  then have "distinct active"
    using filled(3) unfolding active_def distinct_map by (auto simp: inj_on_def)
  moreover have "PollPoller_poll (Inr revs) s = Inr (?s, active)"
    unfolding poll_unfold fds_def [symmetric] n_def [symmetric] using run
    by (simp add: PollPoller_fillActiveChannels_def)
  moreover have "p \<in> set active \<longleftrightarrow> (\<exists>ch. chan_store s p = Some ch \<and> hasChannel p s \<and> revs ! nat (ch_index ch) \<noteq> 0)" for p
    using mem [of p] unfolding poll_ready_iff [OF assms] .
  ultimately show ?thesis
    using store by (intro exI [of _ ?s] exI [of _ active]) simp
qed

theorem poll_reports_ready_witness:
  "\<exists>s' active. PollPoller_poll (Inr [0, 1]) ex_poll = Inr (s', active) \<and> set active = {8}"
proof -
  have "\<forall>i < length (pollfds ex_poll). 0 \<le> sint ([0, 1 :: i16] ! i)"
    by (auto simp: ex_poll_def less_Suc_eq)
  then have ok: "poll_result_ok (pollfds ex_poll) [0, 1]"
    by (auto simp: poll_result_ok_def ex_poll_def less_Suc_eq)
  obtain s' active where run: "PollPoller_poll (Inr [0, 1]) ex_poll = Inr (s', active)"
      and act: "\<And>p. p \<in> set active \<longleftrightarrow>
        (\<exists>ch. chan_store ex_poll p = Some ch \<and> hasChannel p ex_poll \<and> [0, 1 :: i16] ! nat (ch_index ch) \<noteq> 0)"
    using poll_reports_ready [OF ex_poll_inv ok] by blast
  have "p \<in> set active \<longleftrightarrow> p = 8" for p
    unfolding act by (auto simp: ex_poll_def hasChannel_def new_Channel_def set_index_def split: if_splits)
  then show ?thesis using run by blast
qed

section \<open>A disabled channel of PollPoller stays off\<close>

text \<open>(C38) In \<open>PollPoller\<close>, once a registered channel has been disabled, enabling events again is
  accepted and recorded in the channel and in \<open>events\<close>, but the entry keeps its negative descriptor:
  \<open>poll(2)\<close> goes on ignoring it.\<close>

theorem poll_reenable_ignored:
  assumes "poll_inv s" and "hasChannel p s" and "poll_idle p s"
  shows "\<exists>s' ch. set_events PollPoller_updateChannel f p s = Inr s' \<and> chan_store s' p = Some ch \<and> ch_events ch = f 0
     \<and> pfd_fd (pollfds s' ! nat (ch_index ch)) < 0"
proof -
  obtain ch where ch: "chan_store s p = Some ch" "isNoneEvent ch" "pfd_fd (pollfds s ! nat (ch_index ch)) = - ch_fd ch - 1"
    using assms(3) by (auto simp: poll_idle_def)
  have reg: "channels s (ch_fd ch) = Some p" using assms(2) ch(1) by (simp add: hasChannel_def)
  have e: "0 \<le> ch_fd ch" "0 \<le> ch_index ch" "nat (ch_index ch) < length (pollfds s)"
    using poll_entry [OF assms(1) reg ch(1)] by (auto simp: entry_ok_def)
  then have "ch_index ch < int (length (pollfds s))" by linarith
  then show ?thesis
    using ch reg e
    by (auto simp: set_events_unfold PollPoller_updateChannel_def Let_def set_channel_def isNoneEvent_def kNoneEvent_def)
qed

theorem poll_reenable_ignored_witness:
  "\<exists>s s' ch. disableAll PollPoller_updateChannel 8 ex_poll = Inr s \<and> enableReading PollPoller_updateChannel 8 s = Inr s'
     \<and> chan_store s' 8 = Some ch \<and> ch_events ch = kReadEvent \<and> pfd_fd (pollfds s' ! nat (ch_index ch)) < 0"
proof -
  have v: "store_view ex_poll 8 = Some (5, kReadEvent, False, True)" "hasChannel 8 ex_poll"
    by (simp_all add: store_view_def ch_view_def ex_poll_def hasChannel_def new_Channel_def set_index_def)
  obtain s where "disableAll PollPoller_updateChannel 8 ex_poll = Inr s" "poll_inv s" "hasChannel 8 s" "poll_idle 8 s"
    using pp.set_ok [OF ex_poll_inv v(1), of "\<lambda>_. kNoneEvent"] v(2) unfolding disableAll_def by blast
  with poll_reenable_ignored [of s 8 "\<lambda>ev. ev OR kReadEvent"] show ?thesis
    by (fastforce simp: enableReading_def)
qed

text \<open>In \<open>PollPoller\<close>, a channel that was removed keeps its index, so the same object cannot be
  registered again: the next event change fails an assertion.\<close>

theorem poll_readd_fails:
  assumes "poll_inv s" and "hasChannel p s" and "poll_idle p s"
  shows "\<exists>s'. ch_remove PollPoller_removeChannel p s = Inr s' \<and> \<not> hasChannel p s'
     \<and> set_events PollPoller_updateChannel f p s' = Inl AssertFailed"
proof -
  obtain ch where ch: "chan_store s p = Some ch" "isNoneEvent ch" "pfd_fd (pollfds s ! nat (ch_index ch)) = - ch_fd ch - 1"
    using assms(3) by (auto simp: poll_idle_def)
  have reg: "channels s (ch_fd ch) = Some p" using assms(2) ch(1) by (simp add: hasChannel_def)
  have idx: "0 \<le> ch_index ch" using poll_entry [OF assms(1) reg ch(1)] by (simp add: entry_ok_def)
  obtain s' where s': "ch_remove PollPoller_removeChannel p s = Inr s'"
      "store_view s' = (store_view s)(p \<mapsto> (ch_fd ch, ch_events ch, ch_eventHandling ch, False))"
      "channels s' = (channels s)(ch_fd ch := None)" "map_option ch_index (chan_store s' p) = Some (ch_index ch)"
    using poll_remove [OF assms(1) ch(1) reg ch(2,3)] by blast
  then obtain ch' where ch': "chan_store s' p = Some ch'" "ch_index ch' = ch_index ch" by auto
  have "ch_fd ch' = ch_fd ch"
    using fun_cong [OF s'(2), of p] ch'(1) by (simp add: store_view_def ch_view_def)
  then show ?thesis
    using s' ch' idx by (intro exI [of _ s'])
      (auto simp: set_events_unfold PollPoller_updateChannel_def set_channel_def hasChannel_def assert_res_def)
qed

theorem poll_readd_fails_witness:
  "\<exists>s s'. disableAll PollPoller_updateChannel 8 ex_poll = Inr s \<and> ch_remove PollPoller_removeChannel 8 s = Inr s'
     \<and> enableReading PollPoller_updateChannel 8 s' = Inl AssertFailed"
proof -
  have v: "store_view ex_poll 8 = Some (5, kReadEvent, False, True)" "hasChannel 8 ex_poll"
    by (simp_all add: store_view_def ch_view_def ex_poll_def hasChannel_def new_Channel_def set_index_def)
  obtain s where "disableAll PollPoller_updateChannel 8 ex_poll = Inr s" "poll_inv s" "hasChannel 8 s" "poll_idle 8 s"
    using pp.set_ok [OF ex_poll_inv v(1), of "\<lambda>_. kNoneEvent"] v(2) unfolding disableAll_def by blast
  with poll_readd_fails [of s 8 "\<lambda>ev. ev OR kReadEvent"] show ?thesis
    by (fastforce simp: enableReading_def)
qed

section \<open>The life of a channel in both pollers\<close>

lemma new_PollPoller_inv: "poll_inv (new_PollPoller store)"
  by (simp add: poll_inv_def new_PollPoller_def)

lemma new_EPollPoller_inv:
  assumes "epoll_ctl_ok ctl interest" and "interest k = (\<lambda>_. None)" and "new_EPollPoller store efd k = Inr s"
  shows "epoll_inv ctl interest s"
  using assms by (auto simp: epoll_inv_def new_EPollPoller_def split: if_splits)



text \<open>An interest list as the kernel documents it, used in examples.\<close>

definition ex_ctl :: "(int \<Rightarrow> (i32 \<times> chan_ptr) option) epoll_ctl" where
  "ex_ctl k op fd ev p =
     (case op of
        EPOLL_CTL_ADD \<Rightarrow> (if k fd = None then (0, k(fd \<mapsto> (ev, p))) else (- 1, k))
      | EPOLL_CTL_MOD \<Rightarrow> (if k fd \<noteq> None then (0, k(fd \<mapsto> (ev, p))) else (- 1, k))
      | EPOLL_CTL_DEL \<Rightarrow> (if k fd \<noteq> None then (0, k(fd := None)) else (- 1, k)))"

definition ex_epoll :: "(int \<Rightarrow> (i32 \<times> chan_ptr) option) epoll_state" where
  "ex_epoll = \<lparr>chan_store = [7 \<mapsto> (new_Channel 4)\<lparr>ch_events := kReadEvent, ch_addedToLoop := True, ch_index := kAdded\<rparr>,
                              9 \<mapsto> new_Channel 6],
               e_channels = [4 \<mapsto> 7], events_size = kInitEventListSize, kernel = [4 \<mapsto> (kReadEvent, 7)]\<rparr>"

lemma ex_epoll_inv: "epoll_inv ex_ctl id ex_epoll"
  by (auto simp: epoll_inv_def epoll_ctl_ok_def ex_ctl_def ex_epoll_def mirrored_def new_Channel_def)

text \<open>(C9) In \<open>EPollPoller\<close> a fresh channel can be registered, take any event changes, and be
  disabled, removed and destroyed: no assertion fails, \<open>epoll_ctl\<close> never fails fatally, the kernel's
  interest list stays the exact mirror of the registered channels, it no longer names the removed
  descriptor, and every other channel is untouched.\<close>

theorem epoll_channel_lifecycle:
  assumes "epoll_inv ctl interest s" and "epoll_fresh p s" and "store_view s p = Some (fd, ev, False, a)"
  shows "\<exists>s1 s2 s3 s4 s5. set_events (EPollPoller_updateChannel ctl) f p s = Inr s1
     \<and> fold_res (\<lambda>g. set_events (EPollPoller_updateChannel ctl) g p) fs s1 = Inr s2
     \<and> disableAll (EPollPoller_updateChannel ctl) p s2 = Inr s3 \<and> ch_remove (EPollPoller_removeChannel ctl) p s3 = Inr s4
     \<and> destroy_Channel EPollPoller_hasChannel p s4 = Inr s5 \<and> epoll_inv ctl interest s4 \<and> \<not> EPollPoller_hasChannel p s4
     \<and> (\<forall>q. q \<noteq> p \<longrightarrow> EPollPoller_hasChannel q s4 = EPollPoller_hasChannel q s \<and> store_view s4 q = store_view s q)"
  by (rule ep.lifecycle [OF assms])

theorem epoll_channel_lifecycle_witness:
  "\<exists>s1 s3 s4 s5. enableReading (EPollPoller_updateChannel ex_ctl) 9 ex_epoll = Inr s1
     \<and> disableAll (EPollPoller_updateChannel ex_ctl) 9 s1 = Inr s3
     \<and> ch_remove (EPollPoller_removeChannel ex_ctl) 9 s3 = Inr s4
     \<and> destroy_Channel EPollPoller_hasChannel 9 s4 = Inr s5 \<and> EPollPoller_hasChannel 7 s4"
proof -
  have "epoll_fresh 9 ex_epoll" "store_view ex_epoll 9 = Some (6, 0, False, False)" "EPollPoller_hasChannel 7 ex_epoll"
    by (simp_all add: epoll_fresh_def store_view_def ch_view_def ex_epoll_def EPollPoller_hasChannel_def new_Channel_def kNew_def)
  then show ?thesis
    using epoll_channel_lifecycle [OF ex_epoll_inv, of 9 6 0 False "\<lambda>ev. ev OR kReadEvent" "[]"]
    by (fastforce simp: enableReading_def)
qed

section \<open>Reporting the events of \<open>epoll_wait\<close>\<close>

lemma efill_loop_ok:
  assumes "\<And>ev p. (ev, p) \<in> set evs \<Longrightarrow> \<exists>ch. store p = Some ch \<and> chans (ch_fd ch) = Some p"
    and "distinct (map snd evs)"
  shows "efill_loop chans evs store active =
     Inr (\<lambda>p. case map_of (map prod.swap evs) p of None \<Rightarrow> store p | Some ev \<Rightarrow> map_option (set_revents ev) (store p),
          active @ map snd evs)"
  using assms
proof (induction evs arbitrary: store active)
  case (Cons e evs)
  obtain ev p where e: "e = (ev, p)" by force
  obtain ch where ch: "store p = Some ch" "chans (ch_fd ch) = Some p"
    using Cons.prems(1) [of ev p] e by auto
  let ?store = "store(p \<mapsto> set_revents ev ch)"
  have ok: "\<exists>ch. ?store q = Some ch \<and> chans (ch_fd ch) = Some q" if "(ev', q) \<in> set evs" for ev' q
    using Cons.prems(1) [of ev' q] that ch by (auto simp: set_revents_def)
  have fresh: "map_of (map prod.swap evs) p = None"
    using Cons.prems(2) e by (force simp: map_of_eq_None_iff)
  have "efill_loop chans (e # evs) store active = efill_loop chans evs ?store (active @ [p])"
    using e ch by simp
  also have "\<dots> = Inr (\<lambda>q. case map_of (map prod.swap evs) q of None \<Rightarrow> ?store q
                             | Some ev \<Rightarrow> map_option (set_revents ev) (?store q), (active @ [p]) @ map snd evs)"
    by (rule Cons.IH) (use ok Cons.prems(2) in auto)
  finally show ?case
    using e ch fresh by (auto simp: fun_eq_iff split: option.splits)
qed simp

text \<open>What \<open>epoll_wait\<close> promises: at most \<open>maxevents\<close> results, one per registered descriptor, each
  with the user pointer that was registered for it.\<close>

definition epoll_wait_ok :: "('k \<Rightarrow> int \<Rightarrow> (i32 \<times> chan_ptr) option) \<Rightarrow> 'k epoll_state \<Rightarrow> (i32 \<times> chan_ptr) list \<Rightarrow> bool" where
  "epoll_wait_ok interest s evs \<longleftrightarrow> length evs \<le> events_size s \<and> distinct (map snd evs)
     \<and> (\<forall>(ev, p) \<in> set evs. \<exists>fd ev'. interest (kernel s) fd = Some (ev', p))"

lemma epoll_registered:
  assumes inv: "epoll_inv ctl interest s" and i: "interest (kernel s) fd = Some (ev, p)"
  obtains ch where "chan_store s p = Some ch" "e_channels s (ch_fd ch) = Some p"
proof -
  from i epoll_inv_entry(1) [OF inv, of fd] obtain q where q: "e_channels s fd = Some q"
    by (cases "e_channels s fd") auto
  note m = epoll_inv_entry(2) [OF inv q, unfolded i]
  obtain ch where ch: "chan_store s q = Some ch"
    using m by (cases "chan_store s q") (simp_all add: mirrored_def)
  with m have "ch_fd ch = fd \<and> q = p" by (auto simp: mirrored_def)
  then show thesis using that [of ch] ch q by simp
qed

lemma epoll_inv_revents:
  assumes inv: "epoll_inv ctl interest s" and s': "e_channels s' = e_channels s" "kernel s' = kernel s"
    and store: "\<And>q ch. chan_store s q = Some ch \<Longrightarrow> \<exists>r. chan_store s' q = Some ch \<or> chan_store s' q = Some (set_revents r ch)"
  shows "epoll_inv ctl interest s'"
  unfolding epoll_inv_def
proof (intro conjI allI)
  show "epoll_ctl_ok ctl interest" using inv by (simp add: epoll_inv_def)
  fix fd
  show "case e_channels s' fd of None \<Rightarrow> interest (kernel s') fd = None
          | Some q \<Rightarrow> mirrored (chan_store s' q) q (interest (kernel s') fd) fd"
  proof (cases "e_channels s fd")
    case None
    then show ?thesis using epoll_inv_entry(1) [OF inv] s' by simp
  next
    case (Some q)
    from epoll_inv_entry(2) [OF inv Some] obtain ch where ch: "chan_store s q = Some ch"
      by (auto simp: mirrored_def split: option.splits)
    from store [OF ch] epoll_inv_entry(2) [OF inv Some] ch show ?thesis
      using s' Some by (auto simp: mirrored_def set_revents_def isNoneEvent_def)
  qed
qed

text \<open>(C19) One turn of \<open>EPollPoller\<close> under the promises of \<open>epoll_wait\<close>: the active list is the
  reported one, every reported channel is alive and receives its events, the other channels are
  unchanged, no assertion fails, and a full event array is doubled for the next turn.\<close>

theorem epoll_reports_ready:
  assumes "epoll_inv ctl interest s" and "epoll_wait_ok interest s evs"
  shows "\<exists>s'. EPollPoller_poll (Inr evs) s = Inr (s', map snd evs) \<and> epoll_inv ctl interest s'
     \<and> (\<forall>(ev, p) \<in> set evs. map_option ch_revents (chan_store s' p) = Some ev)
     \<and> (\<forall>q. q \<notin> snd ` set evs \<longrightarrow> chan_store s' q = chan_store s q)
     \<and> events_size s' = (if length evs = events_size s \<and> evs \<noteq> [] then 2 * events_size s else events_size s)"
proof -
  define store where "store = (\<lambda>p. case map_of (map prod.swap evs) p of None \<Rightarrow> chan_store s p
     | Some ev \<Rightarrow> map_option (set_revents ev) (chan_store s p))"
  have alive: "\<exists>ch. chan_store s p = Some ch \<and> e_channels s (ch_fd ch) = Some p" if "(ev, p) \<in> set evs" for ev p
    using that assms(2) epoll_registered [OF assms(1)] unfolding epoll_wait_ok_def by blast
  have d: "distinct (map snd evs)" "length evs \<le> events_size s"
    using assms(2) by (simp_all add: epoll_wait_ok_def)
  have run: "efill_loop (e_channels s) evs (chan_store s) [] = Inr (store, map snd evs)"
    unfolding store_def using efill_loop_ok [OF alive d(1), where active = "[]"] by simp
  let ?s = "s\<lparr>chan_store := store, events_size := if length evs = events_size s \<and> evs \<noteq> [] then 2 * events_size s else events_size s\<rparr>"
  have "EPollPoller_poll (Inr evs) s = Inr (?s, map snd evs)"
    using run d(2) by (auto simp: EPollPoller_poll_def EPollPoller_fillActiveChannels_def store_def mult.commute)
  moreover have "epoll_inv ctl interest ?s"
    by (rule epoll_inv_revents [OF assms(1)]) (auto simp: store_def split: option.splits)
  moreover have "map_option ch_revents (store p) = Some ev" if "(ev, p) \<in> set evs" for ev p
  proof -
    have "map_of (map prod.swap evs) p = Some ev"
      using that d(1) by (intro map_of_is_SomeI) (force simp: comp_def)+
    then show ?thesis using alive [OF that] by (auto simp: store_def set_revents_def)
  qed
  moreover have "store q = chan_store s q" if "q \<notin> snd ` set evs" for q
  proof -
    have "map_of (map prod.swap evs) q = None" using that by (force simp: map_of_eq_None_iff)
    then show ?thesis by (simp add: store_def)
  qed
  ultimately show ?thesis by (intro exI [of _ ?s]) auto
qed

theorem epoll_reports_ready_witness:
  "\<exists>s'. EPollPoller_poll (Inr [(1, 7)]) ex_epoll = Inr (s', [7]) \<and> epoll_inv ex_ctl id s'
     \<and> map_option ch_revents (chan_store s' 7) = Some 1"
proof -
  have "epoll_wait_ok id ex_epoll [(1, 7)]"
    by (auto simp: epoll_wait_ok_def ex_epoll_def kInitEventListSize_def intro!: exI [of _ 4])
  from epoll_reports_ready [OF ex_epoll_inv this] show ?thesis by auto
qed

end
