(* ===== verification/Timers.thy ===== *)
theory Timers
  imports Net_Prelude "HOL-Library.Product_Lexorder"
begin

text \<open>
  \<^verbatim>\<open>src/mynetlib/net/Timer.h\<close>, \<^verbatim>\<open>Timer.cc\<close>, \<^verbatim>\<open>TimerId.h\<close> and
  \<^verbatim>\<open>TimerQueue.cc\<close>, with the arithmetic of \<^verbatim>\<open>src/mynetlib/base/Timestamp.h\<close> they
  use. Timer objects live in a store indexed by their address; the two ordered sets of the queue are
  sorted lists. Time stamps are microseconds as integers. An interval, a \<open>double\<close> in the code,
  enters through the two values the code computes from it: whether it is positive, and the number of
  microseconds \<open>addTime\<close> adds for it. Every reading of the clock is an argument.
\<close>

section \<open>Time stamps\<close>

definition kMicroSecondsPerSecond :: int where
  "kMicroSecondsPerSecond = 1000 * 1000"

definition valid :: "int \<Rightarrow> bool" where
  "valid t \<longleftrightarrow> t > 0"

definition addTime :: "int \<Rightarrow> int \<Rightarrow> int" where
  "addTime timestamp delta = timestamp + delta"

section \<open>Timers and the queue's state\<close>

type_synonym timer_ptr = nat

record timer =
  tm_callback :: nat
  tm_expiration :: int
  tm_interval :: int
  tm_repeat :: bool
  tm_sequence :: int

definition new_Timer :: "nat \<Rightarrow> int \<Rightarrow> int \<Rightarrow> bool \<Rightarrow> int \<Rightarrow> timer" where
  "new_Timer cb when interval positive seq =
     \<lparr>tm_callback = cb, tm_expiration = when, tm_interval = interval, tm_repeat = positive, tm_sequence = seq\<rparr>"

definition restart :: "int \<Rightarrow> timer \<Rightarrow> timer" where
  "restart now tm =
     (if tm_repeat tm then tm\<lparr>tm_expiration := addTime now (tm_interval tm)\<rparr> else tm\<lparr>tm_expiration := 0\<rparr>)"

text \<open>\<open>armed\<close> is the setting of the timer descriptor: the clock at the call and the relative time.\<close>

record timer_queue =
  tm_store :: "timer_ptr \<Rightarrow> timer option"
  numCreated :: int
  timers :: "(int \<times> timer_ptr) list"
  activeTimers :: "(timer_ptr \<times> int) list"
  callingExpiredTimers :: bool
  cancelingTimers :: "(timer_ptr \<times> int) list"
  armed :: "(int \<times> int \<times> int) option"

type_synonym timer_alloc = "(timer_ptr \<Rightarrow> timer option) \<Rightarrow> timer_ptr option"

definition new_TimerQueue :: timer_queue where
  "new_TimerQueue = \<lparr>tm_store = (\<lambda>_. None), numCreated = 0, timers = [], activeTimers = [],
     callingExpiredTimers = False, cancelingTimers = [], armed = None\<rparr>"

definition with_timer :: "timer_ptr \<Rightarrow> timer_queue \<Rightarrow> (timer \<Rightarrow> 'r res) \<Rightarrow> 'r res" where
  "with_timer p s f = (case tm_store s p of None \<Rightarrow> Inl UseAfterFree | Some tm \<Rightarrow> f tm)"

text \<open>\<open>std::set\<close> as a sorted list: insertion reports whether the element is new, erasure how many were removed.\<close>

definition set_insert :: "'a :: linorder \<Rightarrow> 'a list \<Rightarrow> 'a list \<times> bool" where
  "set_insert x xs = (if x \<in> set xs then (xs, False) else (insort x xs, True))"

definition set_erase :: "'a \<Rightarrow> 'a list \<Rightarrow> 'a list \<times> nat" where
  "set_erase x xs = (if x \<in> set xs then (remove1 x xs, 1) else (xs, 0))"

definition lower_bound :: "'a :: linorder \<Rightarrow> 'a list \<Rightarrow> 'a list \<times> 'a list" where
  "lower_bound x xs = (takeWhile (\<lambda>y. y < x) xs, dropWhile (\<lambda>y. y < x) xs)"

section \<open>The timer descriptor\<close>

definition howMuchTimeFromNow :: "int \<Rightarrow> int \<Rightarrow> int \<times> int" where
  "howMuchTimeFromNow now when =
     (let microseconds = when - now;
          microseconds = (if microseconds < 100 then 100 else microseconds)
      in (microseconds div kMicroSecondsPerSecond, (microseconds mod kMicroSecondsPerSecond) * 1000))"

text \<open>The descriptor is one-shot: an alarm that was delivered and read leaves it disarmed.\<close>

definition readTimerfd :: "timer_queue \<Rightarrow> timer_queue" where
  "readTimerfd s = s\<lparr>armed := None\<rparr>"

definition resetTimerfd :: "int \<Rightarrow> int \<Rightarrow> timer_queue \<Rightarrow> timer_queue" where
  "resetTimerfd clock expiration s = s\<lparr>armed := Some (clock, howMuchTimeFromNow clock expiration)\<rparr>"

definition alarm_time :: "int \<times> int \<times> int \<Rightarrow> int" where
  "alarm_time a = (case a of (clock, sec, nsec) \<Rightarrow> clock + sec * kMicroSecondsPerSecond + nsec div 1000)"

section \<open>Operations\<close>

definition tq_insert :: "timer_ptr \<Rightarrow> timer_queue \<Rightarrow> (bool \<times> timer_queue) res" where
  "tq_insert p s =
     assert_res (length (timers s) = length (activeTimers s))
     (with_timer p s (\<lambda>tm.
        let when = tm_expiration tm;
            earliestChanged = (timers s = [] \<or> when < fst (hd (timers s)));
            (ts, inserted) = set_insert (when, p) (timers s)
        in assert_res inserted
           (let (as, inserted') = set_insert (p, tm_sequence tm) (activeTimers s)
            in assert_res inserted'
               (assert_res (length ts = length as)
                  (Inr (earliestChanged, s\<lparr>timers := ts, activeTimers := as\<rparr>))))))"

definition addTimerInLoop :: "int \<Rightarrow> timer_ptr \<Rightarrow> timer_queue \<Rightarrow> timer_queue res" where
  "addTimerInLoop clock p s =
     bind_res (tq_insert p s) (\<lambda>(earliestChanged, s').
       if earliestChanged then with_timer p s' (\<lambda>tm. Inr (resetTimerfd clock (tm_expiration tm) s')) else Inr s')"

text \<open>
  \<open>addTimer\<close> allocates the timer in the calling thread and hands its address to the loop. The
  allocator is an argument: it returns the address of a new object, or none.
\<close>

definition create_timer ::
  "timer_alloc \<Rightarrow> nat \<Rightarrow> int \<Rightarrow> int \<Rightarrow> bool \<Rightarrow> timer_queue \<Rightarrow> ((timer_ptr \<times> int) \<times> timer_queue) res" where
  "create_timer alloc cb when interval positive s =
     (case alloc (tm_store s) of
        None \<Rightarrow> Inl BadAlloc
      | Some p \<Rightarrow>
          (let seq = numCreated s + 1
           in Inr ((p, seq), s\<lparr>tm_store := (tm_store s)(p \<mapsto> new_Timer cb when interval positive seq), numCreated := seq\<rparr>)))"

definition cancelInLoop :: "timer_ptr \<times> int \<Rightarrow> timer_queue \<Rightarrow> timer_queue res" where
  "cancelInLoop timer s =
     assert_res (length (timers s) = length (activeTimers s))
     (bind_res
       (if timer \<in> set (activeTimers s) then
          with_timer (fst timer) s (\<lambda>tm.
            let (ts, n) = set_erase (tm_expiration tm, fst timer) (timers s)
            in assert_res (n = 1)
                 (Inr (s\<lparr>timers := ts, tm_store := (tm_store s)(fst timer := None),
                         activeTimers := fst (set_erase timer (activeTimers s))\<rparr>)))
        else if callingExpiredTimers s then Inr (s\<lparr>cancelingTimers := fst (set_insert timer (cancelingTimers s))\<rparr>)
        else Inr s)
       (\<lambda>s'. assert_res (length (timers s') = length (activeTimers s')) (Inr s')))"

definition UINTPTR_MAX :: nat where
  "UINTPTR_MAX = 2 ^ 64 - 1"

definition erase_active :: "int \<times> timer_ptr \<Rightarrow> timer_queue \<Rightarrow> timer_queue res" where
  "erase_active e s =
     with_timer (snd e) s (\<lambda>tm.
       let (as, n) = set_erase (snd e, tm_sequence tm) (activeTimers s)
       in assert_res (n = 1) (Inr (s\<lparr>activeTimers := as\<rparr>)))"

definition getExpired :: "int \<Rightarrow> timer_queue \<Rightarrow> ((int \<times> timer_ptr) list \<times> timer_queue) res" where
  "getExpired now s =
     assert_res (length (timers s) = length (activeTimers s))
     (let (expired, rest) = lower_bound (now, UINTPTR_MAX) (timers s)
      in assert_res (rest = [] \<or> now < fst (hd rest))
         (bind_res (fold_res erase_active expired (s\<lparr>timers := rest\<rparr>)) (\<lambda>s'.
            assert_res (length (timers s') = length (activeTimers s')) (Inr (expired, s')))))"

definition reset_one :: "int \<Rightarrow> int \<times> timer_ptr \<Rightarrow> timer_queue \<Rightarrow> timer_queue res" where
  "reset_one now e s =
     with_timer (snd e) s (\<lambda>tm.
       if tm_repeat tm \<and> (snd e, tm_sequence tm) \<notin> set (cancelingTimers s) then
         bind_res (tq_insert (snd e) (s\<lparr>tm_store := (tm_store s)(snd e \<mapsto> restart now tm)\<rparr>)) (\<lambda>(_, s'). Inr s')
       else Inr (s\<lparr>tm_store := (tm_store s)(snd e := None)\<rparr>))"

definition tq_reset :: "int \<Rightarrow> (int \<times> timer_ptr) list \<Rightarrow> int \<Rightarrow> timer_queue \<Rightarrow> timer_queue res" where
  "tq_reset clock expired now s =
     bind_res (fold_res (reset_one now) expired s) (\<lambda>s'.
       if timers s' \<noteq> [] then
         with_timer (snd (hd (timers s'))) s' (\<lambda>tm.
           let nextExpire = tm_expiration tm
           in Inr (if valid nextExpire then resetTimerfd clock nextExpire s' else s'))
       else Inr s')"

text \<open>
  What a callback can do to the queue, from the loop thread: \<open>addTimer\<close> and \<open>cancel\<close>, which
  \<open>runInLoop\<close> executes at once. The user's callbacks are an argument: the commands a callback
  issues may depend on the state it finds.
\<close>

datatype timer_cmd =
    AddTimer int nat int int bool      \<comment> \<open>clock, callback, when, interval, positive\<close>
  | CancelTimer "timer_ptr \<times> int"

definition run_cmd :: "timer_alloc \<Rightarrow> timer_cmd \<Rightarrow> timer_queue \<Rightarrow> timer_queue res" where
  "run_cmd alloc c s =
     (case c of
        AddTimer clock cb when interval positive \<Rightarrow>
          bind_res (create_timer alloc cb when interval positive s) (\<lambda>(timerId, s'). addTimerInLoop clock (fst timerId) s')
      | CancelTimer timerId \<Rightarrow> cancelInLoop timerId s)"

definition run_timer ::
  "timer_alloc \<Rightarrow> (nat \<Rightarrow> timer_queue \<Rightarrow> timer_cmd list) \<Rightarrow>
   int \<times> timer_ptr \<Rightarrow> timer_queue \<Rightarrow> timer_queue res" where
  "run_timer alloc body e s = with_timer (snd e) s (\<lambda>tm. fold_res (run_cmd alloc) (body (tm_callback tm) s) s)"

definition tq_handleRead ::
  "timer_alloc \<Rightarrow> (nat \<Rightarrow> timer_queue \<Rightarrow> timer_cmd list) \<Rightarrow>
   int \<Rightarrow> int \<Rightarrow> timer_queue \<Rightarrow> timer_queue res" where
  "tq_handleRead alloc body now clock s =
     bind_res (getExpired now (readTimerfd s)) (\<lambda>(expired, s1).
       bind_res (fold_res (run_timer alloc body) expired (s1\<lparr>callingExpiredTimers := True, cancelingTimers := []\<rparr>)) (\<lambda>s2.
         tq_reset clock expired now (s2\<lparr>callingExpiredTimers := False\<rparr>)))"

text \<open>The destructor deletes the timers still queued.\<close>

definition destroy_TimerQueue :: "timer_queue \<Rightarrow> timer_queue res" where
  "destroy_TimerQueue s =
     fold_res (\<lambda>e s. with_timer (snd e) s (\<lambda>_. Inr (s\<lparr>tm_store := (tm_store s)(snd e := None)\<rparr>))) (timers s) s"

section \<open>The invariant of the queue\<close>

text \<open>
  \<open>D\<close> names the detached timers: allocated, not queued (handed to the loop and not yet inserted, or
  expired and being run). Both ordered sets describe the same queued timers, and no other timer is
  allocated.
\<close>

definition tm_exp :: "timer_queue \<Rightarrow> timer_ptr \<Rightarrow> int" where
  "tm_exp s p = tm_expiration (the (tm_store s p))"

definition tm_seq :: "timer_queue \<Rightarrow> timer_ptr \<Rightarrow> int" where
  "tm_seq s p = tm_sequence (the (tm_store s p))"

definition queued :: "timer_queue \<Rightarrow> timer_ptr set" where
  "queued s = snd ` set (timers s)"

definition tq_inv :: "timer_ptr set \<Rightarrow> timer_queue \<Rightarrow> bool" where
  "tq_inv D s \<longleftrightarrow>
     sorted (timers s) \<and> distinct (timers s) \<and> sorted (activeTimers s) \<and> distinct (activeTimers s)
   \<and> set (timers s) = (\<lambda>p. (tm_exp s p, p)) ` queued s
   \<and> set (activeTimers s) = (\<lambda>p. (p, tm_seq s p)) ` queued s
   \<and> queued s \<union> D = dom (tm_store s) \<and> queued s \<inter> D = {}
   \<and> (\<forall>p \<in> dom (tm_store s). p < UINTPTR_MAX \<and> tm_seq s p \<le> numCreated s)
   \<and> inj_on (tm_seq s) (dom (tm_store s))"

lemma tq_invD:
  assumes "tq_inv D s"
  shows "sorted (timers s)" "distinct (timers s)" "sorted (activeTimers s)" "distinct (activeTimers s)"
    "set (timers s) = (\<lambda>p. (tm_exp s p, p)) ` queued s" "set (activeTimers s) = (\<lambda>p. (p, tm_seq s p)) ` queued s"
    "queued s \<union> D = dom (tm_store s)" "queued s \<inter> D = {}"
    "\<And>p. p \<in> dom (tm_store s) \<Longrightarrow> p < UINTPTR_MAX \<and> tm_seq s p \<le> numCreated s"
    "inj_on (tm_seq s) (dom (tm_store s))"
  using assms unfolding tq_inv_def by blast+

lemma tq_invI:
  assumes "sorted (timers s)" "distinct (timers s)" "sorted (activeTimers s)" "distinct (activeTimers s)"
    "set (timers s) = (\<lambda>p. (tm_exp s p, p)) ` Q" "set (activeTimers s) = (\<lambda>p. (p, tm_seq s p)) ` Q"
    "Q \<union> D = dom (tm_store s)" "Q \<inter> D = {}"
    "\<And>p. p \<in> dom (tm_store s) \<Longrightarrow> p < UINTPTR_MAX \<and> tm_seq s p \<le> numCreated s"
    "inj_on (tm_seq s) (dom (tm_store s))"
  shows "tq_inv D s" and "queued s = Q"
proof -
  show Q: "queued s = Q" unfolding queued_def assms(5) by (simp add: image_image)
  have "\<forall>p \<in> dom (tm_store s). p < UINTPTR_MAX \<and> tm_seq s p \<le> numCreated s" using assms(9) by blast
  then show "tq_inv D s" unfolding tq_inv_def Q by (intro conjI assms)
qed

lemma tq_inv_length:
  assumes "tq_inv D s"
  shows "length (timers s) = length (activeTimers s)"
proof -
  have "card (set (timers s)) = card (queued s)" "card (set (activeTimers s)) = card (queued s)"
    unfolding tq_invD(5,6) [OF assms] by (intro card_image inj_onI; simp)+
  then show ?thesis using tq_invD(2,4) [OF assms] by (simp add: distinct_card)
qed

lemma new_TimerQueue_inv: "tq_inv {} new_TimerQueue"
  by (simp add: tq_inv_def new_TimerQueue_def queued_def)

lemma with_timer_Some [simp]: "tm_store s p = Some tm \<Longrightarrow> with_timer p s f = f tm"
  by (simp add: with_timer_def)

text \<open>Fields outside the queue's own data do not matter.\<close>

lemma tq_inv_cong:
  assumes "timers s' = timers s" "activeTimers s' = activeTimers s" "tm_store s' = tm_store s" "numCreated s' = numCreated s"
  shows "tq_inv D s' \<longleftrightarrow> tq_inv D s"
proof -
  have "tm_exp s' = tm_exp s" "tm_seq s' = tm_seq s" "queued s' = queued s"
    using assms by (simp_all add: fun_eq_iff tm_exp_def tm_seq_def queued_def)
  then show ?thesis using assms by (simp add: tq_inv_def)
qed

section \<open>Every operation keeps it\<close>

lemma tq_insert_ok:
  assumes inv: "tq_inv D s" and p: "p \<in> D" "tm_store s p = Some tm"
    and s': "s' = s\<lparr>timers := insort (tm_expiration tm, p) (timers s), activeTimers := insort (p, tm_sequence tm) (activeTimers s)\<rparr>"
  shows "tq_insert p s = Inr (timers s = [] \<or> tm_expiration tm < fst (hd (timers s)), s')"
    and "tq_inv (D - {p}) s'" and "queued s' = insert p (queued s)"
proof -
  have pQ: "p \<notin> queued s" using tq_invD(8) [OF inv] p(1) by blast
  then have new: "(tm_expiration tm, p) \<notin> set (timers s)" "(p, tm_sequence tm) \<notin> set (activeTimers s)"
    unfolding tq_invD(5,6) [OF inv] by auto
  show "tq_insert p s = Inr (timers s = [] \<or> tm_expiration tm < fst (hd (timers s)), s')"
    using new p(2) tq_inv_length [OF inv] by (simp add: tq_insert_def set_insert_def s' Let_def)
  note inv' = tq_invD [OF inv]
  have ex: "tm_exp s' = tm_exp s" "tm_seq s' = tm_seq s" by (simp_all add: fun_eq_iff tm_exp_def tm_seq_def s')
  have t: "tm_exp s p = tm_expiration tm" "tm_seq s p = tm_sequence tm" using p(2) by (simp_all add: tm_exp_def tm_seq_def)
  have "set (timers s') = (\<lambda>p. (tm_exp s' p, p)) ` insert p (queued s)"
    "set (activeTimers s') = (\<lambda>p. (p, tm_seq s' p)) ` insert p (queued s)"
    using inv'(5,6) t unfolding ex by (simp_all add: set_insort_key s')
  moreover have "insert p (queued s) \<union> (D - {p}) = dom (tm_store s')" "insert p (queued s) \<inter> (D - {p}) = {}"
    using inv'(7,8) p by (auto simp: s')
  moreover have "sorted (timers s')" "distinct (timers s')" "sorted (activeTimers s')" "distinct (activeTimers s')"
    using inv'(1-4) new by (simp_all add: s' sorted_insort distinct_insort)
  moreover have "q < UINTPTR_MAX \<and> tm_seq s' q \<le> numCreated s'" if "q \<in> dom (tm_store s')" for q
    using inv'(9) [of q] that unfolding ex by (simp add: s')
  moreover have "inj_on (tm_seq s') (dom (tm_store s'))"
    using inv'(10) unfolding ex by (simp add: s')
  ultimately show "tq_inv (D - {p}) s'" "queued s' = insert p (queued s)"
    using tq_invI [of s' "insert p (queued s)" "D - {p}"] by blast+
qed

lemma create_timer_ok:
  assumes inv: "tq_inv D s" and fresh: "tm_store s p = None" "p < UINTPTR_MAX"
    and s': "s' = s\<lparr>tm_store := (tm_store s)(p \<mapsto> new_Timer cb when interval positive (numCreated s + 1)), numCreated := numCreated s + 1\<rparr>"
  shows "tq_inv (insert p D) s'" and "p \<notin> D" and "queued s' = queued s"
proof -
  note inv' = tq_invD [OF inv]
  have old: "q \<noteq> p" if "q \<in> queued s \<union> D" for q using that inv'(7) fresh(1) by auto
  then show "p \<notin> D" by blast
  have q: "tm_exp s' q = tm_exp s q" "tm_seq s' q = tm_seq s q" if "q \<noteq> p" for q
    using that by (simp_all add: s' tm_exp_def tm_seq_def)
  have sp: "tm_seq s' p = numCreated s + 1" by (simp add: s' tm_seq_def new_Timer_def)
  have img: "(\<lambda>p. (tm_exp s' p, p)) ` queued s = (\<lambda>p. (tm_exp s p, p)) ` queued s"
    "(\<lambda>p. (p, tm_seq s' p)) ` queued s = (\<lambda>p. (p, tm_seq s p)) ` queued s"
    using old q by (auto intro!: image_cong)
  have bound: "q < UINTPTR_MAX \<and> tm_seq s' q \<le> numCreated s'" if "q \<in> dom (tm_store s')" for q
    using that inv'(9) [of q] q [of q] sp fresh(2) by (cases "q = p") (auto simp: s')
  have "inj_on (tm_seq s') (insert p (dom (tm_store s)))"
  proof -
    have seq: "tm_seq s' q = tm_seq s q" if "q \<in> dom (tm_store s)" for q
      using that fresh(1) by (intro q(2)) auto
    then have "inj_on (tm_seq s') (dom (tm_store s))"
      using inv'(10) by (simp add: inj_on_def)
    moreover have "tm_seq s' p \<notin> tm_seq s' ` (dom (tm_store s) - {p})"
    proof
      assume "tm_seq s' p \<in> tm_seq s' ` (dom (tm_store s) - {p})"
      then obtain r where "r \<in> dom (tm_store s)" "tm_seq s' p = tm_seq s' r" by blast
      then show False using seq [of r] inv'(9) [of r] sp by simp
    qed
    ultimately show ?thesis by simp
  qed
  moreover have "dom (tm_store s') = insert p (dom (tm_store s))" by (auto simp: s')
  ultimately have "inj_on (tm_seq s') (dom (tm_store s'))" by simp
  moreover have "sorted (timers s')" "distinct (timers s')" "sorted (activeTimers s')" "distinct (activeTimers s')"
    using inv'(1-4) by (simp_all add: s')
  moreover have "set (timers s') = (\<lambda>p. (tm_exp s' p, p)) ` queued s" "set (activeTimers s') = (\<lambda>p. (p, tm_seq s' p)) ` queued s"
    unfolding img using inv'(5,6) by (simp_all add: s')
  moreover have "queued s \<union> insert p D = dom (tm_store s')" "queued s \<inter> insert p D = {}"
    using inv'(7,8) old by (auto simp: s')
  ultimately show "tq_inv (insert p D) s'" "queued s' = queued s"
    using tq_invI [of s' "queued s" "insert p D"] bound by blast+
qed

lemma tq_detach:
  assumes inv: "tq_inv D s" and p: "p \<in> queued s"
    and s': "s' = s\<lparr>timers := remove1 (tm_exp s p, p) (timers s), activeTimers := remove1 (p, tm_seq s p) (activeTimers s)\<rparr>"
  shows "tq_inv (insert p D) s'" and "queued s' = queued s - {p}"
proof -
  note inv' = tq_invD [OF inv]
  have ex: "tm_exp s' = tm_exp s" "tm_seq s' = tm_seq s" by (simp_all add: fun_eq_iff tm_exp_def tm_seq_def s')
  have "sorted (timers s')" "distinct (timers s')" "sorted (activeTimers s')" "distinct (activeTimers s')"
    using inv'(1-4) by (simp_all add: s' sorted_remove1)
  moreover have "set (timers s') = (\<lambda>p. (tm_exp s' p, p)) ` (queued s - {p})"
    "set (activeTimers s') = (\<lambda>p. (p, tm_seq s' p)) ` (queued s - {p})"
    using inv'(2,4,5,6) unfolding ex by (auto simp: s')
  moreover have "(queued s - {p}) \<union> insert p D = dom (tm_store s')" "(queued s - {p}) \<inter> insert p D = {}"
    using inv'(7,8) p by (auto simp: s')
  moreover have "q < UINTPTR_MAX \<and> tm_seq s' q \<le> numCreated s'" if "q \<in> dom (tm_store s')" for q
    using inv'(9) [of q] that unfolding ex by (simp add: s')
  moreover have "inj_on (tm_seq s') (dom (tm_store s'))"
    using inv'(10) unfolding ex by (simp add: s')
  ultimately show "tq_inv (insert p D) s'" "queued s' = queued s - {p}"
    using tq_invI [of s' "queued s - {p}" "insert p D"] by blast+
qed

text \<open>Deleting a detached timer.\<close>

lemma tq_free:
  assumes inv: "tq_inv D s" and p: "p \<in> D"
    and s': "s' = s\<lparr>tm_store := (tm_store s)(p := None)\<rparr>"
  shows "tq_inv (D - {p}) s'" and "queued s' = queued s"
proof -
  note inv' = tq_invD [OF inv]
  have pQ: "q \<noteq> p" if "q \<in> queued s" for q using that p inv'(8) by blast
  have q: "tm_exp s' q = tm_exp s q" "tm_seq s' q = tm_seq s q" if "q \<noteq> p" for q
    using that by (simp_all add: s' tm_exp_def tm_seq_def)
  have dom: "dom (tm_store s') = dom (tm_store s) - {p}" by (auto simp: s')
  have "sorted (timers s')" "distinct (timers s')" "sorted (activeTimers s')" "distinct (activeTimers s')"
    using inv'(1-4) by (simp_all add: s')
  moreover have "(\<lambda>p. (tm_exp s' p, p)) ` queued s = (\<lambda>p. (tm_exp s p, p)) ` queued s"
    "(\<lambda>p. (p, tm_seq s' p)) ` queued s = (\<lambda>p. (p, tm_seq s p)) ` queued s"
    using pQ q by (auto intro!: image_cong)
  then have "set (timers s') = (\<lambda>p. (tm_exp s' p, p)) ` queued s" "set (activeTimers s') = (\<lambda>p. (p, tm_seq s' p)) ` queued s"
    using inv'(5,6) by (simp_all add: s')
  moreover have "queued s \<union> (D - {p}) = dom (tm_store s')" "queued s \<inter> (D - {p}) = {}"
    using inv'(7,8) pQ dom by auto
  moreover have "r < UINTPTR_MAX \<and> tm_seq s' r \<le> numCreated s'" if "r \<in> dom (tm_store s')" for r
    using inv'(9) [of r] that q(2) [of r] dom by (simp add: s')
  moreover have "inj_on (tm_seq s') (dom (tm_store s'))"
    using inv'(10) q(2) unfolding dom by (simp add: inj_on_def)
  ultimately show "tq_inv (D - {p}) s'" "queued s' = queued s"
    using tq_invI [of s' "queued s" "D - {p}"] by blast+
qed

text \<open>Rewriting the expiration of a detached timer.\<close>

lemma tq_update:
  assumes inv: "tq_inv D s" and p: "p \<in> D" "tm_store s p = Some tm" "tm_sequence tm' = tm_sequence tm"
    and s': "s' = s\<lparr>tm_store := (tm_store s)(p \<mapsto> tm')\<rparr>"
  shows "tq_inv D s'" and "queued s' = queued s"
proof -
  note inv' = tq_invD [OF inv]
  have pQ: "q \<noteq> p" if "q \<in> queued s" for q using that p inv'(8) by blast
  have seq: "tm_seq s' = tm_seq s" using p by (simp add: fun_eq_iff s' tm_seq_def)
  have q: "tm_exp s' q = tm_exp s q" if "q \<noteq> p" for q
    using that by (simp add: s' tm_exp_def)
  have dom: "dom (tm_store s') = dom (tm_store s)" using p by (auto simp: s')
  have "sorted (timers s')" "distinct (timers s')" "sorted (activeTimers s')" "distinct (activeTimers s')"
    using inv'(1-4) by (simp_all add: s')
  moreover have "(\<lambda>p. (tm_exp s' p, p)) ` queued s = (\<lambda>p. (tm_exp s p, p)) ` queued s"
    using pQ q by (auto intro!: image_cong)
  then have "set (timers s') = (\<lambda>p. (tm_exp s' p, p)) ` queued s" "set (activeTimers s') = (\<lambda>p. (p, tm_seq s' p)) ` queued s"
    using inv'(5,6) unfolding seq by (simp_all add: s')
  moreover have "r < UINTPTR_MAX \<and> tm_seq s' r \<le> numCreated s'" if "r \<in> dom (tm_store s')" for r
    using inv'(9) [of r] that unfolding seq dom by (simp add: s')
  ultimately show "tq_inv D s'" "queued s' = queued s"
    using tq_invI [of s' "queued s" D] inv'(7,8,10) unfolding seq dom by blast+
qed

text \<open>What the operations keep: the detached timers, and that newer timers have larger sequence numbers.\<close>

definition keeps :: "timer_ptr set \<Rightarrow> timer_queue \<Rightarrow> timer_queue \<Rightarrow> bool" where
  "keeps D s s' \<longleftrightarrow> tq_inv D s' \<and> (\<forall>p \<in> D. tm_store s' p = tm_store s p)
     \<and> callingExpiredTimers s' = callingExpiredTimers s \<and> numCreated s \<le> numCreated s'
     \<and> set (cancelingTimers s) \<subseteq> set (cancelingTimers s')
     \<and> (\<forall>p tm. tm_store s' p = Some tm \<longrightarrow> tm_store s p = Some tm \<or> numCreated s < tm_sequence tm)"

lemma keeps_refl: "tq_inv D s \<Longrightarrow> keeps D s s"
  by (simp add: keeps_def)

lemma keeps_trans: "keeps D s s' \<Longrightarrow> keeps D s' s'' \<Longrightarrow> keeps D s s''"
  unfolding keeps_def by (fastforce intro: order_trans)

definition alloc_ok :: "timer_alloc \<Rightarrow> bool" where
  "alloc_ok alloc \<longleftrightarrow> (\<forall>st p. alloc st = Some p \<longrightarrow> st p = None \<and> p < UINTPTR_MAX)"

lemma resetTimerfd_simps [simp]:
  "timers (resetTimerfd c w s) = timers s" "activeTimers (resetTimerfd c w s) = activeTimers s"
  "tm_store (resetTimerfd c w s) = tm_store s" "numCreated (resetTimerfd c w s) = numCreated s"
  "callingExpiredTimers (resetTimerfd c w s) = callingExpiredTimers s" "cancelingTimers (resetTimerfd c w s) = cancelingTimers s"
  by (simp_all add: resetTimerfd_def)

lemma tq_inv_resetTimerfd [simp]: "tq_inv D (resetTimerfd c w s) = tq_inv D s"
  by (rule tq_inv_cong) simp_all

lemma addTimerInLoop_ok:
  assumes inv: "tq_inv D s" and p: "p \<in> D" "tm_store s p = Some tm"
  shows "\<exists>s'. addTimerInLoop clock p s = Inr s' \<and> tq_inv (D - {p}) s' \<and> tm_store s' = tm_store s
     \<and> timers s' = insort (tm_expiration tm, p) (timers s) \<and> numCreated s' = numCreated s
     \<and> callingExpiredTimers s' = callingExpiredTimers s \<and> cancelingTimers s' = cancelingTimers s
     \<and> armed s' = (if timers s = [] \<or> tm_expiration tm < fst (hd (timers s))
                    then Some (clock, howMuchTimeFromNow clock (tm_expiration tm)) else armed s)"
proof -
  define s1 where "s1 = s\<lparr>timers := insort (tm_expiration tm, p) (timers s), activeTimers := insort (p, tm_sequence tm) (activeTimers s)\<rparr>"
  note ok = tq_insert_ok [OF inv p s1_def]
  let ?s = "if timers s = [] \<or> tm_expiration tm < fst (hd (timers s)) then resetTimerfd clock (tm_expiration tm) s1 else s1"
  have "addTimerInLoop clock p s = Inr ?s"
    using ok(1) p(2) by (simp add: addTimerInLoop_def s1_def)
  moreover have "tq_inv (D - {p}) ?s" using ok(2) by simp
  ultimately show ?thesis
    by (intro exI [of _ ?s]) (simp add: s1_def resetTimerfd_def)
qed

lemma cancelInLoop_ok:
  assumes inv: "tq_inv D s"
  shows "\<exists>s'. cancelInLoop timer s = Inr s' \<and> keeps D s s' \<and> numCreated s' = numCreated s \<and> armed s' = armed s
     \<and> timers s' = filter (\<lambda>e. snd e \<notin> (if timer \<in> set (activeTimers s) then {fst timer} else {})) (timers s)
     \<and> tm_store s' = (if timer \<in> set (activeTimers s) then (tm_store s)(fst timer := None) else tm_store s)
     \<and> (timer \<notin> set (activeTimers s) \<longrightarrow> callingExpiredTimers s \<longrightarrow> timer \<in> set (cancelingTimers s'))"
proof (cases "timer \<in> set (activeTimers s)")
  case True
  note inv' = tq_invD [OF inv]
  let ?p = "fst timer"
  from True have p: "?p \<in> queued s" "snd timer = tm_seq s ?p" "timer = (?p, tm_seq s ?p)"
    unfolding inv'(6) by auto
  then obtain tm where tm: "tm_store s ?p = Some tm" using inv'(7) by blast
  then have ex: "tm_exp s ?p = tm_expiration tm" by (simp add: tm_exp_def)
  define s1 where "s1 = s\<lparr>timers := remove1 (tm_exp s ?p, ?p) (timers s), activeTimers := remove1 (?p, tm_seq s ?p) (activeTimers s)\<rparr>"
  note d = tq_detach [OF inv p(1) s1_def]
  define s2 where "s2 = s1\<lparr>tm_store := (tm_store s1)(?p := None)\<rparr>"
  have "?p \<notin> D" using inv'(8) p(1) by blast
  then have inv2: "tq_inv D s2"
    using tq_free(1) [OF d(1) _ s2_def] by (simp add: insert_Diff_if)
  have mem: "(tm_expiration tm, ?p) \<in> set (timers s)" unfolding inv'(5) ex [symmetric] using p(1) by blast
  have "timers s2 = filter (\<lambda>e. e \<noteq> (tm_expiration tm, ?p)) (timers s)"
    using inv'(2) by (simp add: s2_def s1_def ex distinct_remove1_removeAll removeAll_filter_not_eq eq_commute)
  also have "\<dots> = filter (\<lambda>e. snd e \<noteq> ?p) (timers s)"
    using inv'(5) ex by (intro filter_cong refl) auto
  finally have ts: "timers s2 = filter (\<lambda>e. snd e \<noteq> ?p) (timers s)" .
  have "cancelInLoop timer s = Inr s2"
    using True tm mem tq_inv_length [OF inv] tq_inv_length [OF inv2] p(3)
    by (simp add: cancelInLoop_def set_erase_def s2_def s1_def ex Let_def)
  moreover have "keeps D s s2"
    using inv2 \<open>?p \<notin> D\<close> by (auto simp: keeps_def s2_def s1_def)
  ultimately show ?thesis
    using True ts by (intro exI [of _ s2]) (simp add: s2_def s1_def)
next
  case False
  let ?s = "if callingExpiredTimers s then s\<lparr>cancelingTimers := fst (set_insert timer (cancelingTimers s))\<rparr> else s"
  have "tq_inv D ?s" using inv tq_inv_cong [of ?s s] by simp
  moreover have "set (cancelingTimers s) \<subseteq> set (cancelingTimers ?s)"
    by (auto simp: set_insert_def set_insort_key)
  ultimately have "keeps D s ?s" by (simp add: keeps_def)
  then show ?thesis
    using False tq_inv_length [OF inv]
    by (intro exI [of _ ?s]) (auto simp: cancelInLoop_def set_insert_def set_insort_key)
qed

lemma run_cmd_keeps:
  assumes "alloc_ok alloc" and inv: "tq_inv D s"
  shows "safe (keeps D s) (run_cmd alloc c s)"
proof (cases c)
  case (AddTimer clock cb at interval positive)
  show ?thesis
  proof (cases "alloc (tm_store s)")
    case None
    then show ?thesis using AddTimer by (simp add: run_cmd_def create_timer_def)
  next
    case (Some p)
    let ?tm = "new_Timer cb at interval positive (numCreated s + 1)"
    define s1 where "s1 = s\<lparr>tm_store := (tm_store s)(p \<mapsto> ?tm), numCreated := numCreated s + 1\<rparr>"
    have fresh: "tm_store s p = None" "p < UINTPTR_MAX" using assms(1) Some by (auto simp: alloc_ok_def)
    note ok = create_timer_ok [OF inv fresh s1_def]
    have "tm_store s1 p = Some ?tm" by (simp add: s1_def)
    from addTimerInLoop_ok [OF ok(1) _ this, of clock] ok(2) obtain s' where s': "addTimerInLoop clock p s1 = Inr s'"
        "tq_inv D s'" "tm_store s' = tm_store s1" "numCreated s' = numCreated s1"
        "callingExpiredTimers s' = callingExpiredTimers s1" "cancelingTimers s' = cancelingTimers s1"
      by auto
    then have "keeps D s s'" using ok(2) by (auto simp: keeps_def s1_def new_Timer_def)
    moreover have "run_cmd alloc c s = addTimerInLoop clock p s1"
      using AddTimer Some by (simp add: run_cmd_def create_timer_def s1_def Let_def)
    ultimately show ?thesis using s'(1) by simp
  qed
next
  case (CancelTimer timer)
  then show ?thesis using cancelInLoop_ok [OF inv, of timer] by (auto simp: run_cmd_def)
qed

lemma fold_cmd_keeps:
  assumes "alloc_ok alloc" and "tq_inv D s"
  shows "safe (keeps D s) (fold_res (run_cmd alloc) cs s)"
proof (rule safe_fold)
  fix c s1 assume "keeps D s s1"
  then show "safe (keeps D s) (run_cmd alloc c s1)"
    using run_cmd_keeps [OF assms(1), of D s1 c] by (auto elim!: safe_mono intro: keeps_trans simp: keeps_def)
qed (rule keeps_refl [OF assms(2)])

lemma run_timers_keep:
  assumes "alloc_ok alloc" and "tq_inv D s" and "snd ` set ex \<subseteq> D"
  shows "safe (keeps D s) (fold_res (run_timer alloc body) ex s)"
proof (rule safe_fold)
  fix e s1 assume e: "e \<in> set ex" and k: "keeps D s s1"
  then have inv: "tq_inv D s1" by (simp add: keeps_def)
  moreover have "snd e \<in> D" using e assms(3) by blast
  ultimately obtain tm where "tm_store s1 (snd e) = Some tm" using tq_invD(7) by blast
  then show "safe (keeps D s) (run_timer alloc body e s1)"
    using fold_cmd_keeps [OF assms(1) inv, of "body (tm_callback tm) s1"] keeps_trans [OF k]
    by (auto simp: run_timer_def elim!: safe_mono)
qed (rule keeps_refl [OF assms(2)])

section \<open>Taking out the expired timers\<close>

lemma tq_detach_set:
  assumes inv: "tq_inv D s" and X: "X \<subseteq> queued s"
    and s': "s' = s\<lparr>timers := filter (\<lambda>e. snd e \<notin> X) (timers s), activeTimers := filter (\<lambda>a. fst a \<notin> X) (activeTimers s)\<rparr>"
  shows "tq_inv (D \<union> X) s'" and "queued s' = queued s - X"
proof -
  note inv' = tq_invD [OF inv]
  have ex: "tm_exp s' = tm_exp s" "tm_seq s' = tm_seq s" by (simp_all add: fun_eq_iff tm_exp_def tm_seq_def s')
  have "sorted (timers s')" "distinct (timers s')" "sorted (activeTimers s')" "distinct (activeTimers s')"
    using inv'(1-4) by (simp_all add: s' sorted_wrt_filter)
  moreover have "set (timers s') = (\<lambda>p. (tm_exp s' p, p)) ` (queued s - X)"
    "set (activeTimers s') = (\<lambda>p. (p, tm_seq s' p)) ` (queued s - X)"
    using inv'(5,6) unfolding ex by (auto simp: s')
  moreover have "(queued s - X) \<union> (D \<union> X) = dom (tm_store s')" "(queued s - X) \<inter> (D \<union> X) = {}"
    using inv'(7,8) X by (auto simp: s')
  moreover have "q < UINTPTR_MAX \<and> tm_seq s' q \<le> numCreated s'" if "q \<in> dom (tm_store s')" for q
    using inv'(9) [of q] that unfolding ex by (simp add: s')
  moreover have "inj_on (tm_seq s') (dom (tm_store s'))"
    using inv'(10) unfolding ex by (simp add: s')
  ultimately show "tq_inv (D \<union> X) s'" "queued s' = queued s - X"
    using tq_invI [of s' "queued s - X" "D \<union> X"] by blast+
qed

lemma erase_active_fold:
  assumes "\<And>e. e \<in> set ex \<Longrightarrow> snd e \<in> dom (tm_store s) \<and> (snd e, tm_seq s (snd e)) \<in> set (activeTimers s)"
    and "distinct (map snd ex)" and "distinct (activeTimers s)" and "\<And>a. a \<in> set (activeTimers s) \<Longrightarrow> snd a = tm_seq s (fst a)"
  shows "fold_res erase_active ex s = Inr (s\<lparr>activeTimers := filter (\<lambda>a. fst a \<notin> snd ` set ex) (activeTimers s)\<rparr>)"
  using assms
proof (induction ex arbitrary: s)
  case Nil
  then show ?case by simp
next
  case (Cons e ex)
  let ?a = "(snd e, tm_seq s (snd e))"
  obtain tm where tm: "tm_store s (snd e) = Some tm" using Cons.prems(1) [of e] by auto
  then have seq: "tm_sequence tm = tm_seq s (snd e)" by (simp add: tm_seq_def)
  define s1 where "s1 = s\<lparr>activeTimers := remove1 ?a (activeTimers s)\<rparr>"
  have sq: "tm_seq s1 = tm_seq s" by (simp add: s1_def tm_seq_def fun_eq_iff)
  have "erase_active e s = Inr s1"
    using Cons.prems(1) [of e] tm seq by (simp add: erase_active_def set_erase_def s1_def)
  moreover have "fold_res erase_active ex s1 = Inr (s1\<lparr>activeTimers := filter (\<lambda>a. fst a \<notin> snd ` set ex) (activeTimers s1)\<rparr>)"
  proof (rule Cons.IH)
    fix x assume "x \<in> set ex"
    moreover from this have "snd x \<noteq> snd e" using Cons.prems(2) by (auto simp: image_iff)
    ultimately show "snd x \<in> dom (tm_store s1) \<and> (snd x, tm_seq s1 (snd x)) \<in> set (activeTimers s1)"
      using Cons.prems(1) [of x] unfolding sq by (auto simp: s1_def)
  qed (use Cons.prems in \<open>auto simp: s1_def sq [unfolded s1_def] dest: notin_set_remove1 set_remove1_subset [THEN subsetD]\<close>)
  moreover have "remove1 ?a (activeTimers s) = filter (\<lambda>a. fst a \<noteq> snd e) (activeTimers s)"
  proof -
    have "remove1 ?a (activeTimers s) = filter (\<lambda>a. a \<noteq> ?a) (activeTimers s)"
      using Cons.prems(3) by (simp add: distinct_remove1_removeAll removeAll_filter_not_eq eq_commute)
    also have "\<dots> = filter (\<lambda>a. fst a \<noteq> snd e) (activeTimers s)"
      using Cons.prems(4) by (intro filter_cong refl) (auto simp: prod_eq_iff)
    finally show ?thesis .
  qed
  ultimately show ?case by (simp add: s1_def conj_commute)
qed

lemma sorted_takeWhile_filter:
  assumes "sorted (xs :: (int \<times> nat) list)"
  shows "takeWhile (\<lambda>e. fst e \<le> now) xs = filter (\<lambda>e. fst e \<le> now) xs"
    and "dropWhile (\<lambda>e. fst e \<le> now) xs = filter (\<lambda>e. \<not> fst e \<le> now) xs"
proof -
  have "takeWhile (\<lambda>e. fst e \<le> now) xs = filter (\<lambda>e. fst e \<le> now) xs
      \<and> dropWhile (\<lambda>e. fst e \<le> now) xs = filter (\<lambda>e. \<not> fst e \<le> now) xs"
    using assms
  proof (induction xs)
    case (Cons x xs)
    then have "\<forall>y \<in> set xs. fst x \<le> fst y" by (auto simp: less_eq_prod_def)
    then have "now < fst x \<Longrightarrow> \<forall>y \<in> set xs. \<not> fst y \<le> now" by force
    then show ?case using Cons by (auto simp: filter_empty_conv filter_id_conv)
  qed simp
  then show "takeWhile (\<lambda>e. fst e \<le> now) xs = filter (\<lambda>e. fst e \<le> now) xs"
    and "dropWhile (\<lambda>e. fst e \<le> now) xs = filter (\<lambda>e. \<not> fst e \<le> now) xs" by simp_all
qed

lemma lower_bound_expired:
  assumes inv: "tq_inv D s"
  shows "lower_bound (now, UINTPTR_MAX) (timers s) =
     (filter (\<lambda>e. fst e \<le> now) (timers s), filter (\<lambda>e. \<not> fst e \<le> now) (timers s))"
proof -
  have "snd e < UINTPTR_MAX" if "e \<in> set (timers s)" for e
    using that tq_invD(7,9) [OF inv] by (auto simp: queued_def)
  then have less: "e < (now, UINTPTR_MAX) \<longleftrightarrow> fst e \<le> now" if "e \<in> set (timers s)" for e
    using that by (auto simp: less_prod_def)
  have "takeWhile (\<lambda>e. e < (now, UINTPTR_MAX)) (timers s) = takeWhile (\<lambda>e. fst e \<le> now) (timers s)"
    "dropWhile (\<lambda>e. e < (now, UINTPTR_MAX)) (timers s) = dropWhile (\<lambda>e. fst e \<le> now) (timers s)"
    using less by (auto intro!: takeWhile_cong dropWhile_cong)
  then show ?thesis
    using sorted_takeWhile_filter [OF tq_invD(1) [OF inv]] by (simp add: lower_bound_def)
qed

definition expired_at :: "int \<Rightarrow> timer_queue \<Rightarrow> (int \<times> timer_ptr) list" where
  "expired_at now s = filter (\<lambda>e. fst e \<le> now) (timers s)"

lemma getExpired_ok:
  assumes inv: "tq_inv D s"
  shows "\<exists>s'. getExpired now s = Inr (expired_at now s, s') \<and> tq_inv (D \<union> snd ` set (expired_at now s)) s'
     \<and> timers s' = filter (\<lambda>e. \<not> fst e \<le> now) (timers s) \<and> tm_store s' = tm_store s \<and> numCreated s' = numCreated s
     \<and> callingExpiredTimers s' = callingExpiredTimers s \<and> cancelingTimers s' = cancelingTimers s \<and> armed s' = armed s"
proof -
  note inv' = tq_invD [OF inv]
  let ?ex = "expired_at now s"
  let ?X = "snd ` set ?ex"
  define s' where "s' = s\<lparr>timers := filter (\<lambda>e. snd e \<notin> ?X) (timers s), activeTimers := filter (\<lambda>a. fst a \<notin> ?X) (activeTimers s)\<rparr>"
  have inj: "inj_on snd (set (timers s))"
    unfolding inv'(5) by (auto simp: inj_on_def)
  have X: "?X \<subseteq> queued s" by (auto simp: expired_at_def queued_def)
  note d = tq_detach_set [OF inv X s'_def]
  have rest: "filter (\<lambda>e. snd e \<notin> ?X) (timers s) = filter (\<lambda>e. \<not> fst e \<le> now) (timers s)"
    using inj by (intro filter_cong refl) (auto simp: expired_at_def inj_on_def)
  let ?s1 = "s\<lparr>timers := filter (\<lambda>e. \<not> fst e \<le> now) (timers s)\<rparr>"
  have "fold_res erase_active ?ex ?s1 = Inr (?s1\<lparr>activeTimers := filter (\<lambda>a. fst a \<notin> ?X) (activeTimers ?s1)\<rparr>)"
  proof (rule erase_active_fold)
    have seq: "tm_seq ?s1 = tm_seq s" by (simp add: tm_seq_def fun_eq_iff)
    show "snd e \<in> dom (tm_store ?s1) \<and> (snd e, tm_seq ?s1 (snd e)) \<in> set (activeTimers ?s1)" if "e \<in> set ?ex" for e
      using that X inv'(6,7) unfolding seq by auto
    show "snd a = tm_seq ?s1 (fst a)" if "a \<in> set (activeTimers ?s1)" for a
      using that inv'(6) unfolding seq by auto
    show "distinct (map snd ?ex)"
      using inj inv'(2) by (auto simp: expired_at_def distinct_map intro: inj_on_subset)
    show "distinct (activeTimers ?s1)" using inv'(4) by simp
  qed
  then have run: "fold_res erase_active ?ex ?s1 = Inr s'" by (simp add: s'_def rest)
  have hd: "filter (\<lambda>e. \<not> fst e \<le> now) (timers s) = [] \<or> now < fst (hd (filter (\<lambda>e. \<not> fst e \<le> now) (timers s)))"
    using hd_in_set [of "filter (\<lambda>e. \<not> fst e \<le> now) (timers s)"] by fastforce
  have "getExpired now s = Inr (?ex, s')"
    using run hd tq_inv_length [OF inv] tq_inv_length [OF d(1)]
    by (simp add: getExpired_def lower_bound_expired [OF inv] expired_at_def Let_def)
  then show ?thesis
    using d(1) rest by (intro exI [of _ s']) (simp add: s'_def)
qed

section \<open>Restarting after the callbacks\<close>

text \<open>
  While \<open>reset\<close> works through the expired timers, the ones still to be handled and the pending
  ones are detached.
\<close>

lemma restart_simps [simp]:
  "tm_sequence (restart now tm) = tm_sequence tm" "tm_callback (restart now tm) = tm_callback tm"
  "tm_repeat tm \<Longrightarrow> tm_expiration (restart now tm) = now + tm_interval tm"
  by (simp_all add: restart_def addTime_def)

lemma reset_one_ok:
  assumes inv: "tq_inv D s" and e: "snd e \<in> D" "tm_store s (snd e) = Some tm"
  shows "\<exists>s'. reset_one now e s = Inr s' \<and> tq_inv (D - {snd e}) s' \<and> numCreated s' = numCreated s
     \<and> callingExpiredTimers s' = callingExpiredTimers s \<and> cancelingTimers s' = cancelingTimers s \<and> armed s' = armed s
     \<and> (if tm_repeat tm \<and> (snd e, tm_sequence tm) \<notin> set (cancelingTimers s)
        then timers s' = insort (now + tm_interval tm, snd e) (timers s) \<and> tm_store s' = (tm_store s)(snd e \<mapsto> restart now tm)
        else timers s' = timers s \<and> tm_store s' = (tm_store s)(snd e := None))"
proof (cases "tm_repeat tm \<and> (snd e, tm_sequence tm) \<notin> set (cancelingTimers s)")
  case True
  define s1 where "s1 = s\<lparr>tm_store := (tm_store s)(snd e \<mapsto> restart now tm)\<rparr>"
  have inv1: "tq_inv D s1" by (rule tq_update(1) [OF inv e restart_simps(1) s1_def])
  have st: "tm_store s1 (snd e) = Some (restart now tm)" by (simp add: s1_def)
  note ok = tq_insert_ok [OF inv1 e(1) st refl]
  from True e(2) ok(1,2) show ?thesis
    by (simp add: reset_one_def s1_def [symmetric]) (simp add: s1_def)
next
  case False
  define s1 where "s1 = s\<lparr>tm_store := (tm_store s)(snd e := None)\<rparr>"
  have "tq_inv (D - {snd e}) s1" by (rule tq_free(1) [OF inv e(1) s1_def])
  moreover have "reset_one now e s = Inr s1" using False e(2) by (auto simp: reset_one_def s1_def)
  ultimately show ?thesis using False by (auto simp: s1_def)
qed

definition restarts :: "timer_queue \<Rightarrow> timer_ptr \<Rightarrow> bool" where
  "restarts s p = (case tm_store s p of None \<Rightarrow> False
     | Some tm \<Rightarrow> tm_repeat tm \<and> (p, tm_sequence tm) \<notin> set (cancelingTimers s))"

definition reset_spec :: "int \<Rightarrow> timer_ptr set \<Rightarrow> timer_queue \<Rightarrow> timer_queue \<Rightarrow> bool" where
  "reset_spec now X s t \<longleftrightarrow> numCreated t = numCreated s \<and> callingExpiredTimers t = callingExpiredTimers s
     \<and> cancelingTimers t = cancelingTimers s
     \<and> set (timers t) = set (timers s) \<union> (\<lambda>p. (now + tm_interval (the (tm_store s p)), p)) ` {p \<in> X. restarts s p}
     \<and> (\<forall>p. tm_store t p = (if p \<in> X then if restarts s p then map_option (restart now) (tm_store s p) else None
                              else tm_store s p))"

lemma reset_fold:
  assumes "tq_inv (D \<union> snd ` set ex) s" and "distinct (map snd ex)" and "D \<inter> snd ` set ex = {}"
  shows "\<exists>t. fold_res (reset_one now) ex s = Inr t \<and> tq_inv D t \<and> armed t = armed s \<and> reset_spec now (snd ` set ex) s t"
  using assms
proof (induction ex arbitrary: s)
  case Nil
  then show ?case by (simp add: reset_spec_def)
next
  case (Cons e ex)
  let ?p = "snd e"
  have "?p \<in> D \<union> snd ` set (e # ex)" by simp
  then obtain tm where tm: "tm_store s ?p = Some tm" using tq_invD(7) [OF Cons.prems(1)] by blast
  have rs: "restarts s ?p \<longleftrightarrow> tm_repeat tm \<and> (?p, tm_sequence tm) \<notin> set (cancelingTimers s)"
    using tm by (simp add: restarts_def)
  have eD: "?p \<notin> D" "?p \<notin> snd ` set ex" using Cons.prems(2,3) by auto
  then have D: "D \<union> snd ` set (e # ex) - {?p} = D \<union> snd ` set ex" by auto
  obtain s1 where s1: "reset_one now e s = Inr s1" "tq_inv (D \<union> snd ` set ex) s1" "numCreated s1 = numCreated s"
      "callingExpiredTimers s1 = callingExpiredTimers s" "cancelingTimers s1 = cancelingTimers s" "armed s1 = armed s"
      "if restarts s ?p then timers s1 = insort (now + tm_interval tm, ?p) (timers s) \<and> tm_store s1 = (tm_store s)(?p \<mapsto> restart now tm)
       else timers s1 = timers s \<and> tm_store s1 = (tm_store s)(?p := None)"
    using reset_one_ok [OF Cons.prems(1) _ tm, of now] unfolding D rs by auto
  obtain t where t: "fold_res (reset_one now) ex s1 = Inr t" "tq_inv D t" "armed t = armed s1"
      "reset_spec now (snd ` set ex) s1 t"
    using Cons.IH [OF s1(2)] Cons.prems(2,3) by auto
  have st: "tm_store s1 q = tm_store s q" if "q \<noteq> ?p" for q
    using s1(7) that by (auto split: if_splits)
  have st': "restarts s1 q = restarts s q" if "q \<noteq> ?p" for q
    unfolding restarts_def s1(5) st [OF that] ..
  have same: "tm_store s1 q = tm_store s q \<and> restarts s1 q = restarts s q" if "q \<in> snd ` set ex" for q
  proof -
    have "q \<noteq> ?p" using that eD(2) by blast
    then show ?thesis using st st' by simp
  qed
  let ?f = "\<lambda>p. (now + tm_interval (the (tm_store s p)), p)"
  have "(\<lambda>p. (now + tm_interval (the (tm_store s1 p)), p)) ` {p \<in> snd ` set ex. restarts s1 p}
      = ?f ` {p \<in> snd ` set ex. restarts s p}"
    using same by (intro image_cong) auto
  then have tt: "set (timers t) = set (timers s1) \<union> ?f ` {p \<in> snd ` set ex. restarts s p}"
    using t(4) by (simp add: reset_spec_def)
  have "set (timers t) = set (timers s) \<union> ?f ` {p \<in> snd ` set (e # ex). restarts s p}"
  proof (cases "restarts s ?p")
    case True
    then have "{p \<in> snd ` set (e # ex). restarts s p} = insert ?p {p \<in> snd ` set ex. restarts s p}" by auto
    then show ?thesis using tt s1(7) True tm by (simp add: set_insort_key)
  next
    case False
    then have "{p \<in> snd ` set (e # ex). restarts s p} = {p \<in> snd ` set ex. restarts s p}" by auto
    then show ?thesis using tt s1(7) False by simp
  qed
  moreover have "tm_store t q = (if q \<in> snd ` set (e # ex) then if restarts s q then map_option (restart now) (tm_store s q) else None
                                 else tm_store s q)" for q
  proof (cases "q = ?p")
    case True
    then have "tm_store t q = tm_store s1 q" using t(4) eD(2) by (simp add: reset_spec_def)
    then show ?thesis using True s1(7) tm by (simp split: if_splits)
  next
    case False
    then have "q \<in> snd ` set (e # ex) \<longleftrightarrow> q \<in> snd ` set ex" by simp
    then show ?thesis using t(4) st [OF False] st' [OF False] unfolding reset_spec_def by metis
  qed
  ultimately show ?case
    using s1(1,3-6) t(1-4) by (intro exI [of _ t]) (simp add: reset_spec_def)
qed

lemma tq_inv_hd:
  assumes "tq_inv D s" and "timers s \<noteq> []"
  obtains tm where "tm_store s (snd (hd (timers s))) = Some tm" and "tm_expiration tm = fst (hd (timers s))"
proof -
  have "hd (timers s) \<in> set (timers s)" using assms(2) by simp
  then have "hd (timers s) \<in> (\<lambda>p. (tm_exp s p, p)) ` queued s" using tq_invD(5) [OF assms(1)] by simp
  then obtain p where p: "hd (timers s) = (tm_exp s p, p)" "p \<in> queued s" by blast
  then obtain tm where "tm_store s p = Some tm" using tq_invD(7) [OF assms(1)] by blast
  then show thesis using that p by (simp add: tm_exp_def)
qed

lemma armed_resetTimerfd [simp]: "armed (resetTimerfd c w s) = Some (c, howMuchTimeFromNow c w)"
  by (simp add: resetTimerfd_def)

lemma tq_reset_ok:
  assumes "tq_inv (D \<union> snd ` set ex) s" and "distinct (map snd ex)" and "D \<inter> snd ` set ex = {}"
  shows "\<exists>t. tq_reset clock ex now s = Inr t \<and> tq_inv D t \<and> reset_spec now (snd ` set ex) s t
     \<and> armed t = (if timers t \<noteq> [] \<and> valid (fst (hd (timers t)))
                   then Some (clock, howMuchTimeFromNow clock (fst (hd (timers t)))) else armed s)"
proof -
  obtain t where t: "fold_res (reset_one now) ex s = Inr t" "tq_inv D t" "armed t = armed s" "reset_spec now (snd ` set ex) s t"
    using reset_fold [OF assms] by blast
  show ?thesis
  proof (cases "timers t = []")
    case True
    then show ?thesis using t by (intro exI [of _ t]) (simp add: tq_reset_def)
  next
    case False
    then obtain tm where tm: "tm_store t (snd (hd (timers t))) = Some tm" "tm_expiration tm = fst (hd (timers t))"
      using tq_inv_hd [OF t(2)] by blast
    let ?t = "if valid (fst (hd (timers t))) then resetTimerfd clock (fst (hd (timers t))) t else t"
    have "tq_reset clock ex now s = Inr ?t" using t(1) tm False by (simp add: tq_reset_def Let_def)
    then show ?thesis using t(2-4) False by (intro exI [of _ ?t]) (simp add: reset_spec_def)
  qed
qed

lemma expired_at_props:
  assumes "tq_inv D s"
  shows "distinct (map snd (expired_at now s))" "D \<inter> snd ` set (expired_at now s) = {}"
proof -
  note inv' = tq_invD [OF assms]
  have "inj_on snd (set (timers s))" unfolding inv'(5) by (auto simp: inj_on_def)
  then show "distinct (map snd (expired_at now s))"
    using inv'(2) by (auto simp: expired_at_def distinct_map intro: inj_on_subset)
  show "D \<inter> snd ` set (expired_at now s) = {}"
    using inv'(8) by (auto simp: expired_at_def queued_def)
qed

text \<open>The run of the alarm handler: the state after the callbacks, and the final one.\<close>

lemma handleRead_phases:
  assumes "alloc_ok alloc" and inv: "tq_inv D s"
  obtains s1 where "tq_inv (D \<union> snd ` set (expired_at now s)) s1" and "tm_store s1 = tm_store s" and "numCreated s1 = numCreated s"
    and "timers s1 = filter (\<lambda>e. \<not> fst e \<le> now) (timers s)" and "callingExpiredTimers s1" and "cancelingTimers s1 = []"
    and "armed s1 = None"
    and "tq_handleRead alloc body now clock s =
       bind_res (fold_res (run_timer alloc body) (expired_at now s) s1)
         (\<lambda>s2. tq_reset clock (expired_at now s) now (s2\<lparr>callingExpiredTimers := False\<rparr>))"
proof -
  let ?r = "readTimerfd s"
  have r: "tq_inv D ?r" "expired_at now ?r = expired_at now s" "timers ?r = timers s" "tm_store ?r = tm_store s"
      "numCreated ?r = numCreated s" "armed ?r = None"
    using inv tq_inv_cong [of ?r s] by (simp_all add: readTimerfd_def expired_at_def)
  from getExpired_ok [OF r(1), of now] obtain s' where
    s': "getExpired now ?r = Inr (expired_at now s, s')" "tq_inv (D \<union> snd ` set (expired_at now s)) s'"
      "timers s' = filter (\<lambda>e. \<not> fst e \<le> now) (timers s)" "tm_store s' = tm_store s" "numCreated s' = numCreated s"
      "armed s' = None"
    unfolding r by auto
  let ?s1 = "s'\<lparr>callingExpiredTimers := True, cancelingTimers := []\<rparr>"
  show thesis
    by (rule that [of ?s1]) (use s' tq_inv_cong [of ?s1 s'] in \<open>simp_all add: tq_handleRead_def\<close>)
qed

lemma handleRead_ok:
  assumes "alloc_ok alloc" and "tq_inv D s"
  shows "safe (tq_inv D) (tq_handleRead alloc body now clock s)"
proof -
  let ?ex = "expired_at now s"
  let ?D = "D \<union> snd ` set ?ex"
  obtain s1 where s1: "tq_inv ?D s1" and run: "tq_handleRead alloc body now clock s =
       bind_res (fold_res (run_timer alloc body) ?ex s1) (\<lambda>s2. tq_reset clock ?ex now (s2\<lparr>callingExpiredTimers := False\<rparr>))"
    using handleRead_phases [OF assms, of now body clock] by blast
  have "safe (keeps ?D s1) (fold_res (run_timer alloc body) ?ex s1)"
    by (rule run_timers_keep [OF assms(1) s1]) simp
  then show ?thesis
    unfolding run
  proof (rule safe_bind)
    fix s2 assume "keeps ?D s1 s2"
    then have "tq_inv ?D (s2\<lparr>callingExpiredTimers := False\<rparr>)"
      using tq_inv_cong [of "s2\<lparr>callingExpiredTimers := False\<rparr>" s2] by (simp add: keeps_def)
    from tq_reset_ok [OF this expired_at_props [OF assms(2)], of clock now]
    show "safe (tq_inv D) (tq_reset clock ?ex now (s2\<lparr>callingExpiredTimers := False\<rparr>))" by auto
  qed
qed

section \<open>Sequences of operations\<close>

text \<open>
  \<open>addTimer\<close> and \<open>cancel\<close> from any thread, and the alarms: \<open>addTimer\<close> allocates the timer at once
  and the loop inserts the allocated timers later, in the order of its functor queue.
\<close>

datatype tq_op =
    Create nat int int bool
  | RunPending int
  | Cancel "timer_ptr \<times> int"
  | Alarm int int "nat \<Rightarrow> timer_queue \<Rightarrow> timer_cmd list"

definition tq_exec :: "timer_alloc \<Rightarrow> tq_op \<Rightarrow> timer_queue \<times> timer_ptr list \<Rightarrow> (timer_queue \<times> timer_ptr list) res" where
  "tq_exec alloc op q =
     (case op of
        Create cb when interval positive \<Rightarrow>
          bind_res (create_timer alloc cb when interval positive (fst q)) (\<lambda>(timerId, s'). Inr (s', snd q @ [fst timerId]))
      | RunPending clock \<Rightarrow>
          (case snd q of [] \<Rightarrow> Inr q | p # ps \<Rightarrow> bind_res (addTimerInLoop clock p (fst q)) (\<lambda>s'. Inr (s', ps)))
      | Cancel timerId \<Rightarrow> bind_res (cancelInLoop timerId (fst q)) (\<lambda>s'. Inr (s', snd q))
      | Alarm now clock body \<Rightarrow> bind_res (tq_handleRead alloc body now clock (fst q)) (\<lambda>s'. Inr (s', snd q)))"

definition queue_ok :: "timer_queue \<times> timer_ptr list \<Rightarrow> bool" where
  "queue_ok q \<longleftrightarrow> tq_inv (set (snd q)) (fst q) \<and> distinct (snd q)"

lemma tq_exec_ok:
  assumes "alloc_ok alloc" and "queue_ok q"
  shows "safe queue_ok (tq_exec alloc op q)"
proof -
  obtain s pend where q: "q = (s, pend)" "tq_inv (set pend) s" "distinct pend"
    using assms(2) by (cases q) (auto simp: queue_ok_def)
  show ?thesis
  proof (cases op)
    case (Create cb at interval positive)
    show ?thesis
    proof (cases "alloc (tm_store s)")
      case None
      then show ?thesis using Create q by (simp add: tq_exec_def create_timer_def)
    next
      case (Some p)
      have "tm_store s p = None" "p < UINTPTR_MAX" using assms(1) Some by (auto simp: alloc_ok_def)
      from create_timer_ok(1,2) [OF q(2) this refl] Some Create q show ?thesis
        by (simp add: tq_exec_def create_timer_def Let_def queue_ok_def insert_commute)
    qed
  next
    case (RunPending clock)
    show ?thesis
    proof (cases pend)
      case Nil
      then show ?thesis using RunPending q by (simp add: tq_exec_def queue_ok_def)
    next
      case (Cons p ps)
      then have p: "p \<in> set pend" by simp
      then obtain tm where "tm_store s p = Some tm" using tq_invD(7) [OF q(2)] by blast
      moreover have "set pend - {p} = set ps" using Cons q(3) by auto
      ultimately show ?thesis
        using addTimerInLoop_ok [OF q(2) p, of tm clock] Cons RunPending q by (auto simp: tq_exec_def queue_ok_def)
    qed
  next
    case (Cancel timer)
    then show ?thesis using cancelInLoop_ok [OF q(2), of timer] q by (auto simp: tq_exec_def queue_ok_def keeps_def)
  next
    case (Alarm now clock body)
    then show ?thesis
      using handleRead_ok [OF assms(1) q(2), of body now clock] q
      by (auto simp: tq_exec_def queue_ok_def intro!: safe_bind [of "tq_inv (set pend)"])
  qed
qed


text \<open>An allocator with two cells, used in examples.\<close>

definition ex_alloc :: timer_alloc where
  "ex_alloc st = (if st 5 = None then Some 5 else if st 6 = None then Some 6 else None)"

lemma ex_alloc_ok: "alloc_ok ex_alloc"
  by (simp add: alloc_ok_def ex_alloc_def UINTPTR_MAX_def)

lemmas tq_eval = tq_exec_def create_timer_def ex_alloc_def new_TimerQueue_def new_Timer_def addTimerInLoop_def tq_insert_def
  with_timer_def set_insert_def resetTimerfd_def tq_handleRead_def getExpired_def readTimerfd_def lower_bound_def
  UINTPTR_MAX_def erase_active_def set_erase_def run_timer_def run_cmd_def cancelInLoop_def tq_reset_def reset_one_def
  restart_def addTime_def valid_def Let_def howMuchTimeFromNow_def kMicroSecondsPerSecond_def less_prod_def


text \<open>(C27) \<open>getExpired\<close> takes out exactly the timers that are due, in the order of their expiration,
  leaves the others queued, and fails no assertion.\<close>

theorem getExpired_exact:
  assumes "tq_inv D s"
  shows "\<exists>expired s'. getExpired now s = Inr (expired, s') \<and> sorted (map fst expired)
     \<and> set expired = {e \<in> set (timers s). fst e \<le> now} \<and> set (timers s') = {e \<in> set (timers s). now < fst e}
     \<and> tm_store s' = tm_store s"
proof -
  have "sorted (map fst (expired_at now s))"
    using tq_invD(1) [OF assms] unfolding expired_at_def
    by (auto simp: sorted_map less_eq_prod_def intro!: sorted_wrt_filter elim!: sorted_wrt_mono_rel [rotated])
  then show ?thesis
    using getExpired_ok [OF assms, of now] by (fastforce simp: expired_at_def)
qed

definition ex_queue :: timer_queue where
  "ex_queue = new_TimerQueue\<lparr>tm_store := [5 \<mapsto> new_Timer 0 10 30 True 1, 6 \<mapsto> new_Timer 1 90 0 False 2], numCreated := 2,
     timers := [(10, 5), (90, 6)], activeTimers := [(5, 1), (6, 2)], armed := Some (0, 0, 100000)\<rparr>"

lemma ex_queue_inv: "tq_inv {} ex_queue"
  by (auto simp: tq_inv_def ex_queue_def new_TimerQueue_def new_Timer_def queued_def tm_exp_def tm_seq_def UINTPTR_MAX_def
      split: if_splits)

theorem getExpired_exact_witness:
  "\<exists>expired s'. getExpired 20 ex_queue = Inr (expired, s') \<and> set expired = {(10, 5)} \<and> set (timers s') = {(90, 6)}"
proof -
  have "{e \<in> set (timers ex_queue). fst e \<le> 20} = {(10, 5)}" "{e \<in> set (timers ex_queue). 20 < fst e} = {(90, 6)}"
    by (auto simp: ex_queue_def)
  then show ?thesis using getExpired_exact [OF ex_queue_inv, of 20] by auto
qed

section \<open>Cancellation\<close>

text \<open>
  \<open>gone\<close>: the timer with this identifier was created, and it is no longer allocated, or it is a
  detached one that is marked for deletion.
\<close>

definition gone :: "timer_ptr \<times> int \<Rightarrow> timer_ptr set \<Rightarrow> timer_queue \<Rightarrow> bool" where
  "gone timer D s \<longleftrightarrow> snd timer \<le> numCreated s
     \<and> (\<forall>p tm. tm_store s p = Some tm \<longrightarrow> tm_sequence tm = snd timer \<longrightarrow> p = fst timer \<and> p \<in> D \<and> timer \<in> set (cancelingTimers s))"

definition genuine :: "timer_ptr \<times> int \<Rightarrow> timer_queue \<Rightarrow> bool" where
  "genuine timer s \<longleftrightarrow> snd timer \<le> numCreated s
     \<and> (\<forall>p tm. tm_store s p = Some tm \<longrightarrow> tm_sequence tm = snd timer \<longrightarrow> p = fst timer)"

lemma keeps_old:
  assumes "keeps D s s'" and "tm_store s' p = Some tm" and "tm_sequence tm \<le> numCreated s"
  shows "tm_store s p = Some tm"
proof -
  have "tm_store s p = Some tm \<or> numCreated s < tm_sequence tm" using assms(1,2) unfolding keeps_def by blast
  with assms(3) show ?thesis by linarith
qed

lemma gone_keeps:
  assumes "gone timer D s" and "keeps D s s'"
  shows "gone timer D s'"
  unfolding gone_def
proof (intro conjI allI impI)
  have le: "snd timer \<le> numCreated s" "numCreated s \<le> numCreated s'" "set (cancelingTimers s) \<subseteq> set (cancelingTimers s')"
    using assms by (simp_all add: gone_def keeps_def)
  then show "snd timer \<le> numCreated s'" by linarith
  fix p tm
  assume "tm_store s' p = Some tm" "tm_sequence tm = snd timer"
  then have "tm_store s p = Some tm" using keeps_old [OF assms(2)] le(1) by simp
  then have "p = fst timer \<and> p \<in> D \<and> timer \<in> set (cancelingTimers s)"
    using assms(1) \<open>tm_sequence tm = snd timer\<close> unfolding gone_def by blast
  then show "p = fst timer" "p \<in> D" "timer \<in> set (cancelingTimers s')" using le(3) by auto
qed

lemma genuine_keeps:
  assumes "genuine timer s" and "keeps D s s'"
  shows "genuine timer s'"
  unfolding genuine_def
proof (intro conjI allI impI)
  have le: "snd timer \<le> numCreated s" "numCreated s \<le> numCreated s'" using assms by (simp_all add: genuine_def keeps_def)
  then show "snd timer \<le> numCreated s'" by linarith
  fix p tm
  assume "tm_store s' p = Some tm" "tm_sequence tm = snd timer"
  then have "tm_store s p = Some tm" using keeps_old [OF assms(2)] le(1) by simp
  then show "p = fst timer" using assms(1) \<open>tm_sequence tm = snd timer\<close> unfolding genuine_def by blast
qed

lemma cancel_gone:
  assumes inv: "tq_inv D s" and g: "genuine timer s" and "callingExpiredTimers s" and "cancelInLoop timer s = Inr s'"
  shows "gone timer D s'"
proof -
  note inv' = tq_invD [OF inv]
  from cancelInLoop_ok [OF inv, of timer] assms(3,4) have
    s': "keeps D s s'" "numCreated s' = numCreated s"
      "tm_store s' = (if timer \<in> set (activeTimers s) then (tm_store s)(fst timer := None) else tm_store s)"
      "timer \<notin> set (activeTimers s) \<Longrightarrow> timer \<in> set (cancelingTimers s')"
    by auto
  show ?thesis
  proof (cases "timer \<in> set (activeTimers s)")
    case True
    then show ?thesis using g s'(2,3) by (auto simp: gone_def genuine_def)
  next
    case False
    have "p \<in> D" if "tm_store s p = Some tm" "tm_sequence tm = snd timer" for p tm
    proof -
      have "p = fst timer" using g that by (auto simp: genuine_def)
      then have "(p, tm_seq s p) = timer" using that by (simp add: tm_seq_def prod_eq_iff)
      then have "p \<notin> queued s" using False inv'(6) by blast
      then show ?thesis using inv'(7) that(1) by blast
    qed
    then show ?thesis using g s'(2,3,4) False by (auto simp: gone_def genuine_def)
  qed
qed

lemma fold_cmd_cancels:
  assumes "alloc_ok alloc" and "tq_inv D s" and "genuine timer s" and "callingExpiredTimers s"
    and "CancelTimer timer \<in> set cs" and "fold_res (run_cmd alloc) cs s = Inr s'"
  shows "gone timer D s'"
proof -
  obtain pre post where cs: "cs = pre @ CancelTimer timer # post" using assms(5) by (meson split_list)
  with assms(6) obtain s1 s2 where
    run: "fold_res (run_cmd alloc) pre s = Inr s1" "cancelInLoop timer s1 = Inr s2" "fold_res (run_cmd alloc) post s2 = Inr s'"
    by (auto simp: fold_res_append res_simps run_cmd_def)
  have k1: "keeps D s s1" using fold_cmd_keeps [OF assms(1,2), of pre] run(1) by simp
  then have inv1: "tq_inv D s1" "callingExpiredTimers s1" using assms(4) by (simp_all add: keeps_def)
  have g: "gone timer D s2" by (rule cancel_gone [OF inv1(1) genuine_keeps [OF assms(3) k1] inv1(2) run(2)])
  have "tq_inv D s2" using cancelInLoop_ok [OF inv1(1), of timer] run(2) by (auto simp: keeps_def)
  then have "keeps D s2 s'" using fold_cmd_keeps [OF assms(1), of D s2 post] run(3) by simp
  with g show ?thesis by (rule gone_keeps)
qed

lemma run_timers_cancel:
  assumes "alloc_ok alloc" and inv: "tq_inv D s" and "snd ` set ex \<subseteq> D" and g: "genuine timer s" and calling: "callingExpiredTimers s"
    and e: "e \<in> set ex" "tm_store s (snd e) = Some tm" "\<And>s. CancelTimer timer \<in> set (body (tm_callback tm) s)"
    and run: "fold_res (run_timer alloc body) ex s = Inr s'"
  shows "gone timer D s'"
proof -
  obtain pre post where ex: "ex = pre @ e # post" using e(1) by (meson split_list)
  with run obtain s1 s2 where
    r: "fold_res (run_timer alloc body) pre s = Inr s1" "run_timer alloc body e s1 = Inr s2" "fold_res (run_timer alloc body) post s2 = Inr s'"
    by (auto simp: fold_res_append res_simps)
  have sub: "snd ` set pre \<subseteq> D" "snd e \<in> D" "snd ` set post \<subseteq> D" using assms(3) ex by auto
  have k1: "keeps D s s1" using run_timers_keep [OF assms(1) inv sub(1), of body] r(1) by simp
  then have s1: "tq_inv D s1" "callingExpiredTimers s1" "tm_store s1 (snd e) = Some tm"
    using calling e(2) sub(2) by (simp_all add: keeps_def)
  have step: "fold_res (run_cmd alloc) (body (tm_callback tm) s1) s1 = Inr s2" using r(2) s1(3) by (simp add: run_timer_def)
  have g2: "gone timer D s2" by (rule fold_cmd_cancels [OF assms(1) s1(1) genuine_keeps [OF g k1] s1(2) e(3) step])
  have "tq_inv D s2" using fold_cmd_keeps [OF assms(1) s1(1), of "body (tm_callback tm) s1"] step by (simp add: keeps_def)
  then have "keeps D s2 s'" using run_timers_keep [OF assms(1) _ sub(3), of s2 body] r(3) by simp
  with g2 show ?thesis by (rule gone_keeps)
qed

text \<open>(C25) A timer whose cancellation is requested by a callback of the current batch is not queued
  afterwards and no longer allocated: by its own callback, by another one, before or after it ran, also
  when it repeats.\<close>

theorem cancelled_in_callback_is_gone:
  assumes "alloc_ok alloc" and "tq_inv D s" and "fst timer \<notin> D" and "genuine timer s"
    and "(t, p) \<in> set (timers s)" and "t \<le> now" and "tm_store s p = Some tm"
    and "\<And>s. CancelTimer timer \<in> set (body (tm_callback tm) s)"
    and "tq_handleRead alloc body now clock s = Inr s'"
  shows "timer \<notin> set (activeTimers s') \<and> (\<forall>q tm'. tm_store s' q = Some tm' \<longrightarrow> tm_sequence tm' \<noteq> snd timer)"
proof -
  let ?ex = "expired_at now s"
  let ?X = "snd ` set ?ex"
  let ?D = "D \<union> ?X"
  obtain s1 where s1: "tq_inv ?D s1" "tm_store s1 = tm_store s" "numCreated s1 = numCreated s" "callingExpiredTimers s1"
    and run: "tq_handleRead alloc body now clock s =
       bind_res (fold_res (run_timer alloc body) ?ex s1) (\<lambda>s2. tq_reset clock ?ex now (s2\<lparr>callingExpiredTimers := False\<rparr>))"
    using handleRead_phases [OF assms(1,2), of now body clock] by metis
  from assms(9) [unfolded run bind_res_Inr] obtain s2 where s2: "fold_res (run_timer alloc body) ?ex s1 = Inr s2"
      "tq_reset clock ?ex now (s2\<lparr>callingExpiredTimers := False\<rparr>) = Inr s'"
    by blast
  let ?s2 = "s2\<lparr>callingExpiredTimers := False\<rparr>"
  have "(t, p) \<in> set ?ex" using assms(5,6) by (simp add: expired_at_def)
  moreover have "genuine timer s1" using assms(4) s1(2,3) by (simp add: genuine_def)
  ultimately have g: "gone timer ?D s2"
    using run_timers_cancel [OF assms(1) s1(1) _ _ s1(4) _ _ assms(8) s2(1), of "(t, p)"] assms(7) s1(2) by simp
  have "tq_inv ?D s2" using run_timers_keep [OF assms(1) s1(1), of ?ex body] s2(1) by (simp add: keeps_def)
  then have "tq_inv ?D ?s2" using tq_inv_cong [of ?s2 s2] by simp
  from tq_reset_ok [OF this expired_at_props [OF assms(2)], of clock now] s2(2)
  have t: "tq_inv D s'" "reset_spec now ?X ?s2 s'" by auto
  have dead: "tm_sequence tm' \<noteq> snd timer" if live: "tm_store s' q = Some tm'" for q tm'
  proof
    assume seq: "tm_sequence tm' = snd timer"
    from t(2) live obtain tm0 where tm0: "tm_store s2 q = Some tm0" "tm_sequence tm0 = tm_sequence tm'"
        "q \<in> ?X \<longrightarrow> restarts ?s2 q"
      by (cases "q \<in> ?X") (auto simp: reset_spec_def split: if_splits)
    with g seq have "q = fst timer" "q \<in> ?D" "timer \<in> set (cancelingTimers s2)" by (auto simp: gone_def)
    moreover from this assms(3) have "restarts ?s2 q" using tm0(3) by auto
    ultimately show False using tm0 seq by (auto simp: restarts_def)
  qed
  have "timer \<notin> set (activeTimers s')"
  proof
    assume "timer \<in> set (activeTimers s')"
    then obtain q where q: "q \<in> queued s'" "timer = (q, tm_seq s' q)" using tq_invD(6) [OF t(1)] by auto
    then obtain tm' where "tm_store s' q = Some tm'" using tq_invD(7) [OF t(1)] by blast
    then show False using dead q(2) by (auto simp: tm_seq_def)
  qed
  then show ?thesis using dead by blast
qed

theorem cancelled_in_callback_is_gone_witness:
  "\<exists>s'. tq_handleRead ex_alloc (\<lambda>_ _. [CancelTimer (5, 1)]) 20 21 ex_queue = Inr s' \<and> (5, 1) \<notin> set (activeTimers s')"
proof -
  have "\<exists>s'. tq_handleRead ex_alloc (\<lambda>_ _. [CancelTimer (5, 1)]) 20 21 ex_queue = Inr s'"
    by (simp add: ex_queue_def tq_eval)
  moreover have "genuine (5, 1) ex_queue"
    by (auto simp: genuine_def ex_queue_def new_Timer_def split: if_splits)
  moreover have "(10, 5) \<in> set (timers ex_queue)" "tm_store ex_queue 5 = Some (new_Timer 0 10 30 True 1)"
    by (simp_all add: ex_queue_def)
  ultimately show ?thesis
    using cancelled_in_callback_is_gone [OF ex_alloc_ok ex_queue_inv, of "(5, 1)" 10 5 20 _ "\<lambda>_ _. [CancelTimer (5, 1)]" 21]
    by fastforce
qed

section \<open>The alarm is always set\<close>

lemma alarm_time_reset: "alarm_time (c, howMuchTimeFromNow c w) = max w (c + 100)"
proof -
  define m where "m = (if w - c < 100 then 100 else w - c)"
  have "alarm_time (c, howMuchTimeFromNow c w) = c + (m div kMicroSecondsPerSecond * kMicroSecondsPerSecond + m mod kMicroSecondsPerSecond)"
    by (simp add: alarm_time_def howMuchTimeFromNow_def Let_def m_def)
  then show ?thesis by (simp add: m_def)
qed

definition armed_ok :: "int \<Rightarrow> timer_queue \<Rightarrow> bool" where
  "armed_ok c s \<longleftrightarrow> timers s = []
     \<or> (\<exists>a. armed s = Some a \<and> alarm_time a \<le> max (fst (hd (timers s))) (c + 100))"

text \<open>Timers with valid expirations, and commands and operations that ask for such timers, at clocks up to \<open>c\<close>.\<close>

definition tm_valid :: "timer_queue \<Rightarrow> bool" where
  "tm_valid s \<longleftrightarrow> (\<forall>p tm. tm_store s p = Some tm \<longrightarrow> valid (tm_expiration tm) \<and> 0 \<le> tm_interval tm)"

definition cmd_ok :: "timer_cmd \<Rightarrow> bool" where
  "cmd_ok c = (case c of AddTimer clock cb when interval positive \<Rightarrow> valid when \<and> 0 \<le> interval | CancelTimer _ \<Rightarrow> True)"

definition op_ok :: "int \<Rightarrow> tq_op \<Rightarrow> bool" where
  "op_ok c op = (case op of
      Create cb when interval positive \<Rightarrow> valid when \<and> 0 \<le> interval
    | RunPending clock \<Rightarrow> clock \<le> c
    | Cancel _ \<Rightarrow> True
    | Alarm now clock body \<Rightarrow> valid now \<and> clock \<le> c \<and> (\<forall>cb s. list_all cmd_ok (body cb s)))"

lemma create_timer_store:
  assumes "create_timer alloc cb w i pos s = Inr (timer, s')"
  shows "tm_store s' = (tm_store s)(fst timer \<mapsto> new_Timer cb w i pos (numCreated s + 1)) \<and> timers s' = timers s \<and> armed s' = armed s"
  using assms by (auto simp: create_timer_def Let_def split: option.splits)

lemma addTimerInLoop_store: "addTimerInLoop clock p s = Inr s' \<Longrightarrow> tm_store s' = tm_store s"
  by (auto simp: addTimerInLoop_def tq_insert_def with_timer_def Let_def res_simps split: option.splits prod.splits if_splits)

lemma cancelInLoop_store: "cancelInLoop timer s = Inr s' \<Longrightarrow> tm_store s' \<subseteq>\<^sub>m tm_store s"
  by (auto simp: cancelInLoop_def with_timer_def Let_def res_simps map_le_def split: option.splits prod.splits if_splits)

lemma tm_valid_new: "tm_valid s \<Longrightarrow> valid w \<Longrightarrow> 0 \<le> i \<Longrightarrow> tm_store s' = (tm_store s)(p \<mapsto> new_Timer cb w i pos q) \<Longrightarrow> tm_valid s'"
  by (auto simp: tm_valid_def new_Timer_def)

lemma tm_valid_le: "tm_valid s \<Longrightarrow> tm_store s' \<subseteq>\<^sub>m tm_store s \<Longrightarrow> tm_valid s'"
  unfolding tm_valid_def map_le_def by (metis domI)

lemma run_cmd_valid:
  assumes "tm_valid s" and "cmd_ok c" and "run_cmd alloc c s = Inr s'"
  shows "tm_valid s'"
proof (cases c)
  case (AddTimer clock cb w i pos)
  with assms(3) obtain timer s1 where "create_timer alloc cb w i pos s = Inr (timer, s1)" "addTimerInLoop clock (fst timer) s1 = Inr s'"
    by (auto simp: run_cmd_def res_simps)
  then have "tm_store s' = (tm_store s)(fst timer \<mapsto> new_Timer cb w i pos (numCreated s + 1))"
    using create_timer_store addTimerInLoop_store by metis
  then show ?thesis using tm_valid_new [OF assms(1)] assms(2) AddTimer by (auto simp: cmd_ok_def)
next
  case (CancelTimer timer)
  then show ?thesis using assms tm_valid_le cancelInLoop_store by (auto simp: run_cmd_def)
qed

lemma run_timers_valid:
  assumes "tm_valid s" and "\<And>cb s. list_all cmd_ok (body cb s)" and "fold_res (run_timer alloc body) ex s = Inr s'"
  shows "tm_valid s'"
proof (rule fold_res_inv [where P = tm_valid, OF assms(1,3)])
  fix e s s'
  assume "tm_valid s" and "run_timer alloc body e s = Inr s'"
  then have "\<exists>cb. fold_res (run_cmd alloc) (body cb s) s = Inr s'"
    by (auto simp: run_timer_def with_timer_def split: option.splits)
  then obtain cb where "fold_res (run_cmd alloc) (body cb s) s = Inr s'" ..
  with \<open>tm_valid s\<close> show "tm_valid s'"
    by (rule fold_res_inv [where P = tm_valid]) (use assms(2) [unfolded list_all_iff] run_cmd_valid in blast)
qed

lemma reset_spec_valid:
  assumes "tm_valid s" and "valid now" and "reset_spec now X s t"
  shows "tm_valid t"
  unfolding tm_valid_def
proof (intro allI impI)
  fix p tm assume p: "tm_store t p = Some tm"
  then consider "tm_store s p = Some tm" | tm0 where "tm_store s p = Some tm0" "tm = restart now tm0" "tm_repeat tm0"
    using assms(3) by (auto simp: reset_spec_def restarts_def split: if_splits option.splits)
  then show "valid (tm_expiration tm) \<and> 0 \<le> tm_interval tm"
  proof cases
    case 1
    then show ?thesis using assms(1) by (simp add: tm_valid_def)
  next
    case 2
    then have "0 \<le> tm_interval tm0" using assms(1) by (simp add: tm_valid_def)
    then show ?thesis using 2 assms(2) by (simp add: valid_def restart_def addTime_def)
  qed
qed

lemma hd_insort:
  "hd (insort x xs) = (if xs = [] \<or> x \<le> hd xs then x else hd xs)"
  by (cases xs) auto

lemma armed_ok_set:
  "armed s = Some (clock, howMuchTimeFromNow clock (fst (hd (timers s)))) \<Longrightarrow> clock \<le> c \<Longrightarrow> armed_ok c s"
  by (simp add: armed_ok_def alarm_time_reset max_def)

lemma armed_insert:
  assumes "armed_ok c s" and "clock \<le> c" and "timers s' = insort (w, p) (timers s)"
    and "armed s' = (if timers s = [] \<or> w < fst (hd (timers s)) then Some (clock, howMuchTimeFromNow clock w) else armed s)"
  shows "armed_ok c s'"
proof (cases "timers s = [] \<or> w < fst (hd (timers s))")
  case True
  then have "fst (hd (timers s')) = w" using assms(3) by (auto simp: hd_insort less_eq_prod_def)
  then show ?thesis using True assms(2,4) by (simp add: armed_ok_def alarm_time_reset max_def)
next
  case False
  then have "fst (hd (timers s')) = fst (hd (timers s))" using assms(3) by (auto simp: hd_insort less_eq_prod_def)
  then show ?thesis using False assms(1,4) by (auto simp: armed_ok_def)
qed

lemma armed_filter:
  assumes "armed_ok c s" and "sorted (timers s)" and "timers s' = filter P (timers s)" and "armed s' = armed s"
  shows "armed_ok c s'"
proof (cases "timers s' = []")
  case False
  then have "hd (timers s') \<in> set (timers s)" using assms(3) by (metis filter_is_subset hd_in_set subsetD)
  then have "fst (hd (timers s)) \<le> fst (hd (timers s'))"
    using assms(2) by (cases "timers s") (auto simp: less_eq_prod_def)
  moreover have "timers s \<noteq> []" using False assms(3) by auto
  ultimately show ?thesis using assms(1,4) by (fastforce simp: armed_ok_def)
qed (simp add: armed_ok_def)

lemma handleRead_armed:
  assumes "alloc_ok alloc" and "tq_inv D s" and "tm_valid s" and "valid now" and "\<And>cb s. list_all cmd_ok (body cb s)"
    and "tq_handleRead alloc body now clock s = Inr s'"
  shows "tm_valid s' \<and> (timers s' \<noteq> [] \<longrightarrow> armed s' = Some (clock, howMuchTimeFromNow clock (fst (hd (timers s')))))"
proof -
  let ?ex = "expired_at now s"
  let ?D = "D \<union> snd ` set ?ex"
  obtain s1 where s1: "tq_inv ?D s1" "tm_store s1 = tm_store s"
    and run: "tq_handleRead alloc body now clock s =
       bind_res (fold_res (run_timer alloc body) ?ex s1) (\<lambda>s2. tq_reset clock ?ex now (s2\<lparr>callingExpiredTimers := False\<rparr>))"
    using handleRead_phases [OF assms(1,2), of now body clock] by metis
  from assms(6) [unfolded run bind_res_Inr] obtain s2 where s2: "fold_res (run_timer alloc body) ?ex s1 = Inr s2"
      "tq_reset clock ?ex now (s2\<lparr>callingExpiredTimers := False\<rparr>) = Inr s'"
    by blast
  let ?s2 = "s2\<lparr>callingExpiredTimers := False\<rparr>"
  have "tm_valid s1" using assms(3) s1(2) by (simp add: tm_valid_def)
  then have "tm_valid s2" using run_timers_valid assms(5) s2(1) by blast
  then have v: "tm_valid ?s2" by (simp add: tm_valid_def)
  have "tq_inv ?D s2" using run_timers_keep [OF assms(1) s1(1), of ?ex body] s2(1) by (simp add: keeps_def)
  then have "tq_inv ?D ?s2" using tq_inv_cong [of ?s2 s2] by simp
  from tq_reset_ok [OF this expired_at_props [OF assms(2)], of clock now] s2(2)
  have t: "tq_inv D s'" "reset_spec now (snd ` set ?ex) ?s2 s'"
      "armed s' = (if timers s' \<noteq> [] \<and> valid (fst (hd (timers s')))
                   then Some (clock, howMuchTimeFromNow clock (fst (hd (timers s')))) else armed ?s2)" by auto
  have v': "tm_valid s'" by (rule reset_spec_valid [OF v assms(4) t(2)])
  moreover have "valid (fst (hd (timers s')))" if "timers s' \<noteq> []"
    using tq_inv_hd [OF t(1) that] v' by (metis tm_valid_def)
  ultimately show ?thesis using t(3) by simp
qed

definition armed_queue :: "int \<Rightarrow> timer_queue \<times> timer_ptr list \<Rightarrow> bool" where
  "armed_queue c q \<longleftrightarrow> queue_ok q \<and> tm_valid (fst q) \<and> armed_ok c (fst q)"

lemma tq_exec_armed:
  assumes alloc: "alloc_ok alloc" and q: "armed_queue c q" and op: "op_ok c op" and run: "tq_exec alloc op q = Inr q'"
  shows "armed_queue c q'"
proof -
  obtain s pend where s: "q = (s, pend)" "tq_inv (set pend) s" "distinct pend" "tm_valid s" "armed_ok c s"
    using q by (cases q) (auto simp: armed_queue_def queue_ok_def)
  have ok: "queue_ok q'" using tq_exec_ok [OF alloc, of q op] q run by (simp add: armed_queue_def)
  have "tm_valid (fst q') \<and> armed_ok c (fst q')"
  proof (cases op)
    case (Create cb w i pos)
    with run s(1) obtain timer s' where s': "create_timer alloc cb w i pos s = Inr (timer, s')" "q' = (s', pend @ [fst timer])"
      by (auto simp: tq_exec_def res_simps)
    then show ?thesis
      using create_timer_store [OF s'(1)] tm_valid_new [OF s(4)] s(5) op Create by (auto simp: op_ok_def armed_ok_def)
  next
    case (RunPending clock)
    show ?thesis
    proof (cases pend)
      case Nil
      then show ?thesis using run s RunPending by (auto simp: tq_exec_def)
    next
      case (Cons p ps)
      with run s(1) RunPending obtain s' where s': "addTimerInLoop clock p s = Inr s'" "q' = (s', ps)"
        by (auto simp: tq_exec_def res_simps)
      have "p \<in> set pend" using Cons by simp
      moreover from this obtain tm where "tm_store s p = Some tm" using tq_invD(7) [OF s(2)] by blast
      ultimately have "timers s' = insort (tm_expiration tm, p) (timers s)" "tm_store s' = tm_store s"
          "armed s' = (if timers s = [] \<or> tm_expiration tm < fst (hd (timers s))
                       then Some (clock, howMuchTimeFromNow clock (tm_expiration tm)) else armed s)"
        using addTimerInLoop_ok [OF s(2), of p tm clock] s'(1) by auto
      moreover from this have "armed_ok c s'"
        using armed_insert [OF s(5)] op RunPending by (auto simp: op_ok_def)
      ultimately show ?thesis using s(4) s'(2) by (simp add: tm_valid_def)
    qed
  next
    case (Cancel timer)
    with run s(1) obtain s' where s': "cancelInLoop timer s = Inr s'" "q' = (s', pend)"
      by (auto simp: tq_exec_def res_simps)
    have "armed_ok c s'"
      using cancelInLoop_ok [OF s(2), of timer] s'(1) armed_filter [OF s(5) tq_invD(1) [OF s(2)]] by auto
    then show ?thesis using tm_valid_le [OF s(4) cancelInLoop_store [OF s'(1)]] s'(2) by simp
  next
    case (Alarm now clock body)
    with run s(1) obtain s' where s': "tq_handleRead alloc body now clock s = Inr s'" "q' = (s', pend)"
      by (auto simp: tq_exec_def res_simps)
    from op Alarm have "valid now" "\<And>cb s. list_all cmd_ok (body cb s)" "clock \<le> c" by (simp_all add: op_ok_def)
    with handleRead_armed [OF alloc s(2,4) _ _ s'(1)] armed_ok_set [of s' clock c] s'(2) show ?thesis
      by (cases "timers s' = []") (auto simp: armed_ok_def)
  qed
  then show ?thesis using ok by (simp add: armed_queue_def)
qed

text \<open>(C15) While timers with valid expirations are queued the timer descriptor is armed, for no later
  than the first expiration or, when that is past or less than 100 microseconds away, 100 microseconds
  after the last clock reading: no timer is forgotten, whatever was added, cancelled or run.\<close>

theorem timer_always_armed:
  assumes "alloc_ok alloc" and "\<forall>op \<in> set ops. op_ok c op"
    and "fold_res (tq_exec alloc) ops (new_TimerQueue, []) = Inr (s, pend)" and "timers s \<noteq> []"
  shows "\<exists>a. armed s = Some a \<and> alarm_time a \<le> max (fst (hd (timers s))) (c + 100)"
proof -
  have "armed_queue c (new_TimerQueue, [])"
    by (simp add: armed_queue_def queue_ok_def new_TimerQueue_inv tm_valid_def armed_ok_def) (simp add: new_TimerQueue_def)
  then have "armed_queue c (s, pend)"
    using assms(3) by (rule fold_res_inv [where P = "armed_queue c"]) (use assms(2) tq_exec_armed [OF assms(1)] in blast)
  then show ?thesis using assms(4) by (simp add: armed_queue_def armed_ok_def)
qed

theorem timer_always_armed_witness:
  "\<exists>s pend a. fold_res (tq_exec ex_alloc) [Create 0 500 30 True, RunPending 100, Alarm 520 530 (\<lambda>_ _. [])] (new_TimerQueue, []) = Inr (s, pend)
     \<and> timers s = [(550, 5)] \<and> armed s = Some a \<and> alarm_time a \<le> max 550 (530 + 100)"
proof -
  let ?ops = "[Create 0 500 30 True, RunPending 100, Alarm 520 530 (\<lambda>_ _. [])]"
  obtain s where s: "fold_res (tq_exec ex_alloc) ?ops (new_TimerQueue, []) = Inr (s, [])" "timers s = [(550, 5)]"
    by (simp add: tq_eval)
  have "\<forall>op \<in> set ?ops. op_ok 530 op" by (simp add: op_ok_def valid_def)
  from timer_always_armed [OF ex_alloc_ok this s(1)] s show ?thesis by fastforce
qed

section \<open>Restarting\<close>

lemma run_cmd_canceling:
  assumes "run_cmd alloc c s = Inr s'"
  shows "set (cancelingTimers s') \<subseteq> set (cancelingTimers s) \<union> {timer. c = CancelTimer timer}"
  using assms
  by (cases c) (auto simp: run_cmd_def create_timer_def addTimerInLoop_def tq_insert_def with_timer_def cancelInLoop_def
      set_insert_def set_insort_key resetTimerfd_def Let_def res_simps split: option.splits prod.splits if_splits)

lemma run_timers_canceling:
  assumes "\<And>cb s. CancelTimer timer \<notin> set (body cb s)" and "timer \<notin> set (cancelingTimers s)"
    and "fold_res (run_timer alloc body) ex s = Inr s'"
  shows "timer \<notin> set (cancelingTimers s')"
proof (rule fold_res_inv [where P = "\<lambda>s. timer \<notin> set (cancelingTimers s)", OF assms(2,3)])
  fix e s s'
  assume nin: "timer \<notin> set (cancelingTimers s)" and "run_timer alloc body e s = Inr s'"
  then have "\<exists>cb. fold_res (run_cmd alloc) (body cb s) s = Inr s'"
    by (auto simp: run_timer_def with_timer_def split: option.splits)
  then obtain cb where cb: "fold_res (run_cmd alloc) (body cb s) s = Inr s'" ..
  show "timer \<notin> set (cancelingTimers s')"
    by (rule fold_res_inv [where P = "\<lambda>s. timer \<notin> set (cancelingTimers s)", OF nin cb])
      (use assms(1) run_cmd_canceling in blast)
qed

text \<open>(C26) When the alarm handler has run, an expired repeating timer that no callback cancels is
  queued again one interval after the time of the alarm, and an expired one-shot timer is deleted,
  whatever other timers the callbacks add or cancel.\<close>

theorem expired_timer_restarts:
  assumes "alloc_ok alloc" and "tq_inv D s" and "(t, p) \<in> set (timers s)" and "t \<le> now" and "tm_store s p = Some tm"
    and "\<And>cb s. CancelTimer (p, tm_sequence tm) \<notin> set (body cb s)" and "tq_handleRead alloc body now clock s = Inr s'"
  shows "if tm_repeat tm then (now + tm_interval tm, p) \<in> set (timers s') \<and> tm_store s' p = Some (restart now tm)
         else tm_store s' p = None"
proof -
  let ?ex = "expired_at now s"
  let ?D = "D \<union> snd ` set ?ex"
  obtain s1 where s1: "tq_inv ?D s1" "tm_store s1 = tm_store s" "cancelingTimers s1 = []"
    and run: "tq_handleRead alloc body now clock s =
       bind_res (fold_res (run_timer alloc body) ?ex s1) (\<lambda>s2. tq_reset clock ?ex now (s2\<lparr>callingExpiredTimers := False\<rparr>))"
    using handleRead_phases [OF assms(1,2), of now body clock] by metis
  from assms(7) [unfolded run bind_res_Inr] obtain s2 where s2: "fold_res (run_timer alloc body) ?ex s1 = Inr s2"
      "tq_reset clock ?ex now (s2\<lparr>callingExpiredTimers := False\<rparr>) = Inr s'"
    by blast
  let ?s2 = "s2\<lparr>callingExpiredTimers := False\<rparr>"
  have p: "p \<in> snd ` set ?ex" using assms(3,4) by (force simp: expired_at_def)
  have k: "keeps ?D s1 s2" using run_timers_keep [OF assms(1) s1(1), of ?ex body] s2(1) by simp
  then have live: "tm_store s2 p = Some tm" using p s1(2) assms(5) by (auto simp: keeps_def)
  have "(p, tm_sequence tm) \<notin> set (cancelingTimers s2)"
    by (rule run_timers_canceling [OF assms(6) _ s2(1)]) (simp add: s1(3))
  then have rs: "restarts ?s2 p \<longleftrightarrow> tm_repeat tm" using live by (simp add: restarts_def)
  have "tq_inv ?D ?s2" using k tq_inv_cong [of ?s2 s2] by (simp add: keeps_def)
  from tq_reset_ok [OF this expired_at_props [OF assms(2)], of clock now] s2(2)
  have t: "reset_spec now (snd ` set ?ex) ?s2 s'" by auto
  have "tm_store s' p = (if tm_repeat tm then Some (restart now tm) else None)"
    using t p rs live by (simp add: reset_spec_def)
  moreover have "(now + tm_interval tm, p) \<in> set (timers s')" if "tm_repeat tm"
  proof -
    have "(\<lambda>p. (now + tm_interval (the (tm_store ?s2 p)), p)) p \<in> set (timers s')"
      using t p rs that unfolding reset_spec_def by blast
    then show ?thesis using live by simp
  qed
  ultimately show ?thesis by simp
qed

theorem expired_timer_restarts_witness:
  "\<exists>s'. tq_handleRead ex_alloc (\<lambda>_ _. [CancelTimer (6, 2)]) 20 21 ex_queue = Inr s' \<and> (50, 5) \<in> set (timers s')"
proof -
  obtain s' where s': "tq_handleRead ex_alloc (\<lambda>_ _. [CancelTimer (6, 2)]) 20 21 ex_queue = Inr s'"
    by (simp add: ex_queue_def tq_eval)
  have q: "(10, 5) \<in> set (timers ex_queue)" "tm_store ex_queue 5 = Some (new_Timer 0 10 30 True 1)"
    by (simp_all add: ex_queue_def)
  from expired_timer_restarts [OF ex_alloc_ok ex_queue_inv q(1) _ q(2) _ s'] s' show ?thesis
    by (auto simp: new_Timer_def)
qed

end
