(* ===== verification/Event_Loop.thy ===== *)
theory Event_Loop
  imports Channels
begin

text \<open>
  \<^verbatim>\<open>src/mynetlib/net/EventLoop.h\<close> and \<^verbatim>\<open>EventLoop.cc\<close>: the reactor. The functors that
  other threads hand to the loop are numbered; what they do to the loop is an argument of the
  operations that run them. The second half places the loop thread among threads that call
  \<open>queueInLoop\<close> and \<open>quit\<close> at any time: its steps are those between which another thread can act.
\<close>

section \<open>State\<close>

type_synonym task = nat

record event_loop =
  looping :: bool
  quitting :: bool
  eventHandling :: bool
  callingPendingFunctors :: bool
  iteration :: int
  threadId :: nat
  activeChannels :: "chan_ptr list"
  currentActiveChannel :: "chan_ptr option"
  pendingFunctors :: "task list"
  wakeupCount :: nat      \<comment> \<open>the counter of the event descriptor\<close>

text \<open>The constructor; \<open>other\<close> says whether the thread has a loop already.\<close>

definition new_EventLoop :: "bool \<Rightarrow> nat \<Rightarrow> event_loop res" where
  "new_EventLoop other tid =
     (if other then Inl Fatal
      else Inr \<lparr>looping = False, quitting = False, eventHandling = False, callingPendingFunctors = False, iteration = 0,
                threadId = tid, activeChannels = [], currentActiveChannel = None, pendingFunctors = [], wakeupCount = 0\<rparr>)"

section \<open>Operations\<close>

definition isInLoopThread :: "nat \<Rightarrow> event_loop \<Rightarrow> bool" where
  "isInLoopThread tid s \<longleftrightarrow> threadId s = tid"

definition assertInLoopThread :: "nat \<Rightarrow> event_loop \<Rightarrow> 'r res \<Rightarrow> 'r res" where
  "assertInLoopThread tid s r = (if isInLoopThread tid s then r else Inl Fatal)"

text \<open>A write that would overflow the counter of the descriptor fails and is only logged.\<close>

definition wakeup :: "event_loop \<Rightarrow> event_loop" where
  "wakeup s = (if wakeupCount s < 2 ^ 64 - 2 then s\<lparr>wakeupCount := wakeupCount s + 1\<rparr> else s)"

definition el_handleRead :: "event_loop \<Rightarrow> event_loop" where
  "el_handleRead s = s\<lparr>wakeupCount := 0\<rparr>"

definition el_push :: "task \<Rightarrow> event_loop \<Rightarrow> event_loop" where
  "el_push cb s = s\<lparr>pendingFunctors := pendingFunctors s @ [cb]\<rparr>"

definition queueInLoop :: "nat \<Rightarrow> task \<Rightarrow> event_loop \<Rightarrow> event_loop" where
  "queueInLoop tid cb s =
     (let s' = el_push cb s
      in if \<not> isInLoopThread tid s' \<or> callingPendingFunctors s' then wakeup s' else s')"

definition runInLoop :: "(task \<Rightarrow> event_loop \<Rightarrow> event_loop) \<Rightarrow> nat \<Rightarrow> task \<Rightarrow> event_loop \<Rightarrow> event_loop" where
  "runInLoop run tid cb s = (if isInLoopThread tid s then run cb s else queueInLoop tid cb s)"

definition el_quit :: "nat \<Rightarrow> event_loop \<Rightarrow> event_loop" where
  "el_quit tid s = (let s' = s\<lparr>quitting := True\<rparr> in if \<not> isInLoopThread tid s' then wakeup s' else s')"

definition doPendingFunctors :: "(task \<Rightarrow> event_loop \<Rightarrow> event_loop) \<Rightarrow> event_loop \<Rightarrow> event_loop" where
  "doPendingFunctors run s =
     (let functors = pendingFunctors s;
          s1 = s\<lparr>callingPendingFunctors := True, pendingFunctors := []\<rparr>
      in (fold run functors s1)\<lparr>callingPendingFunctors := False\<rparr>)"

text \<open>Channel updates go through the loop; \<open>update\<close> and \<open>remove\<close> are the poller's operations on its state.\<close>

definition el_updateChannel :: "(chan_ptr \<Rightarrow> 'p \<Rightarrow> 'p res) \<Rightarrow> nat \<Rightarrow> chan_ptr \<Rightarrow> event_loop \<Rightarrow> 'p \<Rightarrow> 'p res" where
  "el_updateChannel update tid p s ps = assertInLoopThread tid s (update p ps)"

definition el_removeChannel :: "(chan_ptr \<Rightarrow> 'p \<Rightarrow> 'p res) \<Rightarrow> nat \<Rightarrow> chan_ptr \<Rightarrow> event_loop \<Rightarrow> 'p \<Rightarrow> 'p res" where
  "el_removeChannel remove tid p s ps =
     assertInLoopThread tid s
       (assert_res (eventHandling s \<longrightarrow> currentActiveChannel s = Some p \<or> p \<notin> set (activeChannels s)) (remove p ps))"

text \<open>
  One turn of \<open>loop\<close>: \<open>active\<close> is what the poller reports, \<open>handle\<close> the channel dispatch,
  \<open>run\<close> the functors.
\<close>

definition loop_turn ::
  "chan_ptr list \<Rightarrow> (chan_ptr \<Rightarrow> event_loop \<Rightarrow> event_loop) \<Rightarrow> (task \<Rightarrow> event_loop \<Rightarrow> event_loop) \<Rightarrow> event_loop \<Rightarrow> event_loop" where
  "loop_turn active handle run s =
     (let s1 = s\<lparr>activeChannels := active, iteration := iteration s + 1, eventHandling := True\<rparr>;
          s2 = fold (\<lambda>p s. handle p (s\<lparr>currentActiveChannel := Some p\<rparr>)) active s1
      in doPendingFunctors run (s2\<lparr>currentActiveChannel := None, eventHandling := False\<rparr>))"

text \<open>
  \<open>loop\<close>: the poll results of the turns to come are an argument; \<open>None\<close> when they do not
  suffice, that is, while the loop is still running.
\<close>

fun loop_while ::
  "(chan_ptr \<Rightarrow> event_loop \<Rightarrow> event_loop) \<Rightarrow> (task \<Rightarrow> event_loop \<Rightarrow> event_loop) \<Rightarrow> chan_ptr list list \<Rightarrow> event_loop \<Rightarrow> event_loop option" where
  "loop_while handle run [] s = (if quitting s then Some s else None)"
| "loop_while handle run (active # polls) s =
     (if quitting s then Some s else loop_while handle run polls (loop_turn active handle run s))"

definition el_loop ::
  "(chan_ptr \<Rightarrow> event_loop \<Rightarrow> event_loop) \<Rightarrow> (task \<Rightarrow> event_loop \<Rightarrow> event_loop) \<Rightarrow> nat \<Rightarrow> chan_ptr list list \<Rightarrow>
   event_loop \<Rightarrow> event_loop option res" where
  "el_loop handle run tid polls s =
     assert_res (\<not> looping s)
       (assertInLoopThread tid s
         (Inr (map_option (looping_update (\<lambda>_. False)) (loop_while handle run polls (s\<lparr>looping := True, quitting := False\<rparr>)))))"

section \<open>The loop among other threads\<close>

datatype loop_pc = Test | Poll | Handle bool | Swap | Run "task list" | Done

text \<open>
  \<open>Handle b\<close>: the poll has returned, with the wakeup channel active when \<open>b\<close>. \<open>waking\<close> counts
  the other threads that have queued a functor or set the quit flag and not yet written to the
  descriptor. \<open>pushed\<close> and \<open>executed\<close> are histories.
\<close>

record el_conf =
  lp :: event_loop
  pc :: loop_pc
  waking :: nat
  pushed :: "task list"
  executed :: "task list"

text \<open>Steps of the loop thread; \<open>Inner\<close> and \<open>RunQueue\<close> are \<open>queueInLoop\<close> calls of its own callbacks.\<close>

inductive el_step :: "el_conf \<Rightarrow> el_conf \<Rightarrow> bool" where
  OtherPush: "el_step c (c\<lparr>lp := el_push f (lp c), waking := waking c + 1, pushed := pushed c @ [f]\<rparr>)"
| OtherQuit: "el_step c (c\<lparr>lp := (lp c)\<lparr>quitting := True\<rparr>, waking := waking c + 1\<rparr>)"
| OtherWakeup: "waking c > 0 \<Longrightarrow> el_step c (c\<lparr>lp := wakeup (lp c), waking := waking c - 1\<rparr>)"
| TestQuit: "pc c = Test \<Longrightarrow> quitting (lp c) \<Longrightarrow> el_step c (c\<lparr>pc := Done\<rparr>)"
| TestGo: "pc c = Test \<Longrightarrow> \<not> quitting (lp c) \<Longrightarrow> el_step c (c\<lparr>pc := Poll\<rparr>)"
| PollReturn: "pc c = Poll \<Longrightarrow> el_step c (c\<lparr>pc := Handle (wakeupCount (lp c) > 0)\<rparr>)"
| WakeupRead: "pc c = Handle True \<Longrightarrow> el_step c (c\<lparr>lp := el_handleRead (lp c), pc := Handle False\<rparr>)"
| Inner: "pc c = Handle b \<Longrightarrow> el_step c (c\<lparr>lp := queueInLoop (threadId (lp c)) f (lp c), pushed := pushed c @ [f]\<rparr>)"
| InnerQuit: "pc c = Handle b \<or> pc c = Run fs \<Longrightarrow> el_step c (c\<lparr>lp := el_quit (threadId (lp c)) (lp c)\<rparr>)"
| HandleDone: "pc c = Handle False \<Longrightarrow> el_step c (c\<lparr>lp := (lp c)\<lparr>callingPendingFunctors := True\<rparr>, pc := Swap\<rparr>)"
| SwapOut: "pc c = Swap \<Longrightarrow> el_step c (c\<lparr>lp := (lp c)\<lparr>pendingFunctors := []\<rparr>, pc := Run (pendingFunctors (lp c))\<rparr>)"
| RunQueue: "pc c = Run fs \<Longrightarrow> el_step c (c\<lparr>lp := queueInLoop (threadId (lp c)) f (lp c), pushed := pushed c @ [f]\<rparr>)"
| RunNext: "pc c = Run (f # fs) \<Longrightarrow> el_step c (c\<lparr>pc := Run fs, executed := executed c @ [f]\<rparr>)"
| RunDone: "pc c = Run [] \<Longrightarrow> el_step c (c\<lparr>lp := (lp c)\<lparr>callingPendingFunctors := False\<rparr>, pc := Test\<rparr>)"

definition el_init :: "nat \<Rightarrow> el_conf \<Rightarrow> bool" where
  "el_init tid c \<longleftrightarrow> (\<exists>s. new_EventLoop False tid = Inr s \<and> lp c = s\<lparr>looping := True\<rparr>)
     \<and> pc c = Test \<and> waking c = 0 \<and> pushed c = [] \<and> executed c = []"

section \<open>No wakeup is lost\<close>

definition running :: "el_conf \<Rightarrow> task list" where
  "running c = (case pc c of Run fs \<Rightarrow> fs | _ \<Rightarrow> [])"

definition signalled :: "el_conf \<Rightarrow> bool" where
  "signalled c \<longleftrightarrow> wakeupCount (lp c) > 0 \<or> waking c > 0"

definition el_inv :: "el_conf \<Rightarrow> bool" where
  "el_inv c \<longleftrightarrow>
     (callingPendingFunctors (lp c) \<longleftrightarrow> pc c = Swap \<or> (\<exists>fs. pc c = Run fs))
   \<and> ((pc c = Test \<or> pc c = Poll \<or> (\<exists>fs. pc c = Run fs)) \<longrightarrow> pendingFunctors (lp c) \<noteq> [] \<longrightarrow> signalled c)
   \<and> (pc c = Poll \<longrightarrow> quitting (lp c) \<longrightarrow> signalled c)
   \<and> pushed c = executed c @ running c @ pendingFunctors (lp c)"

lemma wakeup_simps [simp]:
  "wakeupCount (wakeup s) > 0" "pendingFunctors (wakeup s) = pendingFunctors s" "quitting (wakeup s) = quitting s"
  "callingPendingFunctors (wakeup s) = callingPendingFunctors s" "threadId (wakeup s) = threadId s"
  by (auto simp: wakeup_def)

lemma el_push_simps [simp]:
  "wakeupCount (el_push f s) = wakeupCount s" "pendingFunctors (el_push f s) = pendingFunctors s @ [f]" "quitting (el_push f s) = quitting s"
  "callingPendingFunctors (el_push f s) = callingPendingFunctors s" "threadId (el_push f s) = threadId s"
  by (auto simp: el_push_def)

lemma queueInLoop_own:
  "queueInLoop (threadId s) f s = (if callingPendingFunctors s then wakeup (el_push f s) else el_push f s)"
  by (simp add: queueInLoop_def isInLoopThread_def Let_def)

lemma el_quit_own: "el_quit (threadId s) s = s\<lparr>quitting := True\<rparr>"
  by (simp add: el_quit_def isInLoopThread_def)

interpretation el: safety "el_init tid" el_step el_inv
proof unfold_locales
  fix c assume "el_init tid c"
  then show "el_inv c" by (auto simp: el_init_def el_inv_def new_EventLoop_def running_def)
next
  fix c d assume "el_inv c" "el_step c d"
  from this(2,1) show "el_inv d"
    by cases (auto simp: el_inv_def running_def signalled_def queueInLoop_own el_quit_own el_handleRead_def)
qed


definition ex_conf :: el_conf where
  "ex_conf = \<lparr>lp = \<lparr>looping = True, quitting = False, eventHandling = False, callingPendingFunctors = False, iteration = 0,
                threadId = 1, activeChannels = [], currentActiveChannel = None, pendingFunctors = [], wakeupCount = 0\<rparr>,
              pc = Test, waking = 0, pushed = [], executed = []\<rparr>"

lemma ex_conf_init: "el_init 1 ex_conf"
  by (simp add: el_init_def ex_conf_def new_EventLoop_def)


text \<open>(C24) Functors run exactly once, in the order in which they were queued: at every moment the
  functors queued so far are the executed ones followed by the batch being run and the pending ones.\<close>

theorem functors_fifo:
  assumes "reachable (el_init tid) el_step c"
  shows "pushed c = executed c @ running c @ pendingFunctors (lp c)"
  using el.reachable_inv [OF assms] by (simp add: el_inv_def)

theorem functors_fifo_witness:
  "\<exists>c. reachable (el_init 1) el_step c \<and> pushed c = [7] \<and> pushed c = executed c @ running c @ pendingFunctors (lp c)"
proof -
  let ?c = "ex_conf\<lparr>lp := el_push 7 (lp ex_conf), waking := waking ex_conf + 1, pushed := pushed ex_conf @ [7]\<rparr>"
  have "reachable (el_init 1) el_step ?c"
    by (rule reach_step [OF reach_init [of "el_init 1", OF ex_conf_init]]) (rule OtherPush)
  moreover have "pushed ?c = [7]" by (simp add: ex_conf_def)
  ultimately show ?thesis using functors_fifo [of 1 ?c] by blast
qed

section \<open>Running the pending functors\<close>

lemma queue_fold:
  "callingPendingFunctors s \<Longrightarrow>
   pendingFunctors (fold (queueInLoop tid) fs s) = pendingFunctors s @ fs
   \<and> callingPendingFunctors (fold (queueInLoop tid) fs s)
   \<and> (fs \<noteq> [] \<or> wakeupCount s > 0 \<longrightarrow> wakeupCount (fold (queueInLoop tid) fs s) > 0)"
  by (induction fs arbitrary: s) (auto simp: queueInLoop_def Let_def)

text \<open>(C29) \<open>doPendingFunctors\<close> runs the functors that were pending when it began; the ones they queue
  wait for the next turn, in order, and the descriptor is readable then, so the next \<open>poll\<close> returns at
  once.\<close>

theorem doPendingFunctors_defers:
  assumes "\<And>f s. run f s = fold (queueInLoop tid) (spawn f) s"
  shows "pendingFunctors (doPendingFunctors run s) = concat (map spawn (pendingFunctors s))
     \<and> (pendingFunctors (doPendingFunctors run s) \<noteq> [] \<longrightarrow> wakeupCount (doPendingFunctors run s) > 0)
     \<and> \<not> callingPendingFunctors (doPendingFunctors run s)"
proof -
  have "fold run fs s = fold (queueInLoop tid) (concat (map spawn fs)) s" for fs s
    by (induction fs arbitrary: s) (simp_all add: assms)
  then show ?thesis
    using queue_fold [of "s\<lparr>callingPendingFunctors := True, pendingFunctors := []\<rparr>" tid "concat (map spawn (pendingFunctors s))"]
    by (simp add: doPendingFunctors_def Let_def)
qed

theorem doPendingFunctors_defers_witness:
  "pendingFunctors (doPendingFunctors (\<lambda>f. fold (queueInLoop 1) [f + 1]) ((lp ex_conf)\<lparr>pendingFunctors := [3, 5]\<rparr>)) = [4, 6]
   \<and> wakeupCount (doPendingFunctors (\<lambda>f. fold (queueInLoop 1) [f + 1]) ((lp ex_conf)\<lparr>pendingFunctors := [3, 5]\<rparr>)) > 0"
  using doPendingFunctors_defers [of "\<lambda>f. fold (queueInLoop 1) [f + 1]" 1 "\<lambda>f. [f + 1]" "(lp ex_conf)\<lparr>pendingFunctors := [3, 5]\<rparr>"]
  by simp

end
