(* ===== verification/Connectors.thy ===== *)
theory Connectors
  imports Net_Prelude "HOL-Library.Multiset"
begin

text \<open>
  \<^verbatim>\<open>src/mynetlib/net/Connector.h\<close> and \<^verbatim>\<open>Connector.cc\<close>: the client side state machine that
  opens a non-blocking connection, retries with a growing delay and hands a connected socket to its
  client. The kernel's answers (the number of a new socket, \<open>errno\<close> of \<open>connect\<close>, \<open>SO_ERROR\<close>,
  whether the socket is connected to itself) are arguments. The functors the connector queues in its
  loop and the timers it starts are counted in the state, and their execution is an event.
\<close>

section \<open>State\<close>

datatype cn_states = kDisconnected | kConnecting | kConnected

definition kMaxRetryDelayMs :: int where "kMaxRetryDelayMs = 30 * 1000"
definition kInitRetryDelayMs :: int where "kInitRetryDelayMs = 500"

text \<open>
  \<open>channel\<close> is the descriptor of the channel object, \<open>watched\<close> whether it is registered with the
  poller. \<open>created\<close>, \<open>closed\<close>, \<open>handed\<close> and \<open>delays\<close> are histories.
\<close>

record connector =
  connect_flag :: bool
  state :: cn_states
  channel :: "int option"
  watched :: bool
  retryDelayMs :: int
  timers_pending :: nat
  resets_queued :: nat
  stops_queued :: nat
  created :: "int list"
  closed :: "int list"
  handed :: "int list"
  delays :: "int list"

definition new_Connector :: connector where
  "new_Connector = \<lparr>connect_flag = False, state = kDisconnected, channel = None, watched = False,
     retryDelayMs = kInitRetryDelayMs, timers_pending = 0, resets_queued = 0, stops_queued = 0,
     created = [], closed = [], handed = [], delays = []\<rparr>"

definition destroy_Connector :: "connector \<Rightarrow> unit res" where
  "destroy_Connector s = assert_res (channel s = None) (Inr ())"

text \<open>Error numbers of Linux.\<close>

definition EPERM :: int where "EPERM = 1"
definition EINTR :: int where "EINTR = 4"
definition EBADF :: int where "EBADF = 9"
definition EAGAIN :: int where "EAGAIN = 11"
definition EACCES :: int where "EACCES = 13"
definition EFAULT :: int where "EFAULT = 14"
definition ENOTSOCK :: int where "ENOTSOCK = 88"
definition EAFNOSUPPORT :: int where "EAFNOSUPPORT = 97"
definition EADDRINUSE :: int where "EADDRINUSE = 98"
definition EADDRNOTAVAIL :: int where "EADDRNOTAVAIL = 99"
definition ENETUNREACH :: int where "ENETUNREACH = 101"
definition EISCONN :: int where "EISCONN = 106"
definition ECONNREFUSED :: int where "ECONNREFUSED = 111"
definition EALREADY :: int where "EALREADY = 114"
definition EINPROGRESS :: int where "EINPROGRESS = 115"

lemmas errno_defs = EPERM_def EINTR_def EBADF_def EAGAIN_def EACCES_def EFAULT_def ENOTSOCK_def EAFNOSUPPORT_def
  EADDRINUSE_def EADDRNOTAVAIL_def ENETUNREACH_def EISCONN_def ECONNREFUSED_def EALREADY_def EINPROGRESS_def

section \<open>Operations\<close>

definition cn_close :: "int \<Rightarrow> connector \<Rightarrow> connector" where
  "cn_close fd s = s\<lparr>closed := closed s @ [fd]\<rparr>"

definition setState :: "cn_states \<Rightarrow> connector \<Rightarrow> connector" where
  "setState st s = s\<lparr>state := st\<rparr>"

definition retry :: "int \<Rightarrow> connector \<Rightarrow> connector" where
  "retry sockfd s =
     (let s = setState kDisconnected (cn_close sockfd s)
      in if connect_flag s then
           s\<lparr>timers_pending := timers_pending s + 1, delays := delays s @ [retryDelayMs s],
             retryDelayMs := min (retryDelayMs s * 2) kMaxRetryDelayMs\<rparr>
         else s)"

definition connecting :: "int \<Rightarrow> connector \<Rightarrow> connector res" where
  "connecting sockfd s =
     (let s = setState kConnecting s
      in assert_res (channel s = None) (Inr (s\<lparr>channel := Some sockfd, watched := True\<rparr>)))"

text \<open>\<open>err\<close> is 0 or the error number of the \<open>connect\<close> call on the new socket.\<close>

definition connect :: "int \<Rightarrow> int \<Rightarrow> connector \<Rightarrow> connector res" where
  "connect sockfd savedErrno s =
     (let s = s\<lparr>created := created s @ [sockfd]\<rparr>
      in if savedErrno \<in> {0, EINPROGRESS, EINTR, EISCONN} then connecting sockfd s
         else if savedErrno \<in> {EAGAIN, EADDRINUSE, EADDRNOTAVAIL, ECONNREFUSED, ENETUNREACH} then Inr (retry sockfd s)
         else if savedErrno \<in> {EACCES, EPERM, EAFNOSUPPORT, EALREADY, EBADF, EFAULT, ENOTSOCK} then Inr (cn_close sockfd s)
         else Inr (cn_close sockfd s))"

definition startInLoop :: "int \<Rightarrow> int \<Rightarrow> connector \<Rightarrow> connector res" where
  "startInLoop sockfd savedErrno s =
     assert_res (state s = kDisconnected) (if connect_flag s then connect sockfd savedErrno s else Inr s)"

definition start :: "int \<Rightarrow> int \<Rightarrow> connector \<Rightarrow> connector res" where
  "start sockfd savedErrno s = startInLoop sockfd savedErrno (s\<lparr>connect_flag := True\<rparr>)"

definition restart_connector :: "int \<Rightarrow> int \<Rightarrow> connector \<Rightarrow> connector res" where
  "restart_connector sockfd savedErrno s =
     startInLoop sockfd savedErrno ((setState kDisconnected s)\<lparr>retryDelayMs := kInitRetryDelayMs, connect_flag := True\<rparr>)"

definition removeAndResetChannel :: "connector \<Rightarrow> (int \<times> connector) res" where
  "removeAndResetChannel s =
     (case channel s of None \<Rightarrow> Inl UseAfterFree
      | Some fd \<Rightarrow> Inr (fd, s\<lparr>watched := False, resets_queued := resets_queued s + 1\<rparr>))"

definition resetChannel :: "connector \<Rightarrow> connector" where
  "resetChannel s = s\<lparr>channel := None\<rparr>"

definition stop :: "connector \<Rightarrow> connector" where
  "stop s = s\<lparr>connect_flag := False, stops_queued := stops_queued s + 1\<rparr>"

definition stopInLoop :: "connector \<Rightarrow> connector res" where
  "stopInLoop s =
     (if state s = kConnecting then
        bind_res (removeAndResetChannel (setState kDisconnected s)) (\<lambda>(sockfd, s). Inr (retry sockfd s))
      else Inr s)"

definition handleWrite :: "int \<Rightarrow> bool \<Rightarrow> connector \<Rightarrow> connector res" where
  "handleWrite err isSelfConnect s =
     (if state s = kConnecting then
        bind_res (removeAndResetChannel s) (\<lambda>(sockfd, s).
          if err \<noteq> 0 then Inr (retry sockfd s)
          else if isSelfConnect then Inr (retry sockfd s)
          else
            (let s = setState kConnected s
             in if connect_flag s then Inr (s\<lparr>handed := handed s @ [sockfd]\<rparr>) else Inr (cn_close sockfd s)))
      else assert_res (state s = kDisconnected) (Inr s))"

definition handleError :: "connector \<Rightarrow> connector res" where
  "handleError s =
     (if state s = kConnecting then
        bind_res (removeAndResetChannel s) (\<lambda>(sockfd, s). Inr (retry sockfd s))
      else Inr s)"

section \<open>Events\<close>

text \<open>
  What can happen, in the loop thread: the client's calls, the queued functors, the retry timers and
  the two channel callbacks. An event whose cause does not exist changes nothing: a callback comes only
  from a registered channel, a functor or timer only after it was queued. One dispatch of the channel
  can call both the error and the write callback. \<open>restart\<close> is called by \<open>TcpClient\<close> after a
  connection it was handed is gone.
\<close>

datatype cn_event =
    Start int int | Restart int int | Stop | RunStop | RunReset | Timer int int
  | Writable int bool | Errored | ErroredWritable int bool

definition cn_exec :: "cn_event \<Rightarrow> connector \<Rightarrow> connector res" where
  "cn_exec e s =
     (case e of
        Start fd err \<Rightarrow> start fd err s
      | Restart fd err \<Rightarrow> if state s = kConnected then restart_connector fd err s else Inr s
      | Stop \<Rightarrow> Inr (stop s)
      | RunStop \<Rightarrow> if stops_queued s > 0 then stopInLoop (s\<lparr>stops_queued := stops_queued s - 1\<rparr>) else Inr s
      | RunReset \<Rightarrow> if resets_queued s > 0 then Inr (resetChannel (s\<lparr>resets_queued := resets_queued s - 1\<rparr>)) else Inr s
      | Timer fd err \<Rightarrow> if timers_pending s > 0 then startInLoop fd err (s\<lparr>timers_pending := timers_pending s - 1\<rparr>) else Inr s
      | Writable err self \<Rightarrow> if watched s then handleWrite err self s else Inr s
      | Errored \<Rightarrow> if watched s then handleError s else Inr s
      | ErroredWritable err self \<Rightarrow> if watched s then bind_res (handleError s) (handleWrite err self) else Inr s)"

section \<open>Ownership of the sockets\<close>

text \<open>
  \<open>loose fd\<close>: the connector holds the socket \<open>fd\<close> and no registered channel. The invariant says that
  a socket is held exactly while connecting, by the registered channel.
\<close>

definition idle_channel :: "connector \<Rightarrow> bool" where
  "idle_channel s \<longleftrightarrow> \<not> watched s \<and> (channel s \<noteq> None \<longleftrightarrow> resets_queued s > 0) \<and> resets_queued s \<le> 1"

definition loose :: "int \<Rightarrow> connector \<Rightarrow> bool" where
  "loose fd s \<longleftrightarrow> idle_channel s \<and> mset (created s) = mset (closed s) + mset (handed s) + {#fd#}"

definition cn_inv :: "connector \<Rightarrow> bool" where
  "cn_inv s \<longleftrightarrow>
     (if state s = kConnecting then watched s \<and> resets_queued s = 0
        \<and> (\<exists>fd. channel s = Some fd \<and> mset (created s) = mset (closed s) + mset (handed s) + {#fd#})
      else idle_channel s \<and> mset (created s) = mset (closed s) + mset (handed s))"

lemma cn_inv_new: "cn_inv new_Connector"
  by (simp add: cn_inv_def idle_channel_def new_Connector_def)

lemma retry_inv: "loose fd s \<Longrightarrow> cn_inv (retry fd s)"
  by (simp add: loose_def cn_inv_def idle_channel_def retry_def setState_def cn_close_def Let_def)

lemma close_inv: "loose fd s \<Longrightarrow> state s \<noteq> kConnecting \<Longrightarrow> cn_inv (cn_close fd s)"
  by (simp add: loose_def cn_inv_def idle_channel_def cn_close_def)

lemma handed_inv: "loose fd s \<Longrightarrow> state s \<noteq> kConnecting \<Longrightarrow> cn_inv (s\<lparr>handed := handed s @ [fd]\<rparr>)"
  by (simp add: loose_def cn_inv_def idle_channel_def)

lemma loose_setState [simp]: "loose fd (setState st s) = loose fd s" "state (setState st s) = st" "handed (setState st s) = handed s"
  by (simp_all add: loose_def idle_channel_def setState_def)

lemma connecting_inv: "loose fd s \<Longrightarrow> connecting fd s = Inr s' \<Longrightarrow> cn_inv s'"
  by (auto simp: loose_def cn_inv_def idle_channel_def connecting_def setState_def res_simps)

lemma connect_inv:
  assumes "cn_inv s" and "state s \<noteq> kConnecting" and "connect fd err s = Inr s'"
  shows "cn_inv s'"
proof -
  let ?s = "s\<lparr>created := created s @ [fd]\<rparr>"
  have "loose fd ?s" "state ?s \<noteq> kConnecting" using assms(1,2) by (simp_all add: loose_def cn_inv_def idle_channel_def)
  then show ?thesis
    using assms(3) retry_inv close_inv connecting_inv by (auto simp: connect_def Let_def split: if_splits)
qed

lemma startInLoop_inv: "cn_inv s \<Longrightarrow> startInLoop fd err s = Inr s' \<Longrightarrow> cn_inv s'"
  by (auto simp: startInLoop_def res_simps split: if_splits elim: connect_inv)

definition held :: "connector \<Rightarrow> bool" where
  "held s \<longleftrightarrow> resets_queued s = 0
     \<and> (\<exists>fd. channel s = Some fd \<and> mset (created s) = mset (closed s) + mset (handed s) + {#fd#})"

lemma held_connecting: "cn_inv s \<Longrightarrow> state s = kConnecting \<Longrightarrow> held s" "held (setState st s) = held s"
  by (simp_all add: cn_inv_def held_def setState_def)

lemma removeAndReset_inv:
  assumes "held s"
  obtains fd s' where "removeAndResetChannel s = Inr (fd, s')" and "loose fd s'"
    and "connect_flag s' = connect_flag s" and "handed s' = handed s"
  using assms by (auto simp: held_def removeAndResetChannel_def loose_def idle_channel_def)

lemma stopInLoop_inv:
  assumes "cn_inv s" and "stopInLoop s = Inr s'"
  shows "cn_inv s'"
proof (cases "state s = kConnecting")
  case True
  then have "held (setState kDisconnected s)" using assms(1) held_connecting by blast
  then obtain fd s1 where "removeAndResetChannel (setState kDisconnected s) = Inr (fd, s1)" "loose fd s1"
    by (rule removeAndReset_inv)
  then show ?thesis using True assms(2) retry_inv by (auto simp: stopInLoop_def)
qed (use assms in \<open>simp add: stopInLoop_def\<close>)

lemma handleError_inv:
  assumes "cn_inv s" and "handleError s = Inr s'"
  shows "cn_inv s'"
proof (cases "state s = kConnecting")
  case True
  then have "held s" using assms(1) held_connecting by blast
  then obtain fd s1 where "removeAndResetChannel s = Inr (fd, s1)" "loose fd s1" by (rule removeAndReset_inv)
  then show ?thesis using True assms(2) retry_inv by (auto simp: handleError_def)
qed (use assms in \<open>simp add: handleError_def\<close>)

lemma handleWrite_inv:
  assumes "cn_inv s" and "handleWrite err self s = Inr s'"
  shows "cn_inv s'"
proof (cases "state s = kConnecting")
  case True
  then have "held s" using assms(1) held_connecting by blast
  then obtain fd s1 where s1: "removeAndResetChannel s = Inr (fd, s1)" "loose fd s1" by (rule removeAndReset_inv)
  then have "s' = (if err \<noteq> 0 \<or> self then retry fd s1
             else if connect_flag s1 then (setState kConnected s1)\<lparr>handed := handed s1 @ [fd]\<rparr>
             else cn_close fd (setState kConnected s1))"
    using True assms(2) by (auto simp: handleWrite_def setState_def Let_def split: if_splits)
  then show ?thesis
    using retry_inv [OF s1(2)] close_inv [of fd "setState kConnected s1"] handed_inv [of fd "setState kConnected s1"] s1(2)
    by (simp split: if_splits)
next
  case False
  then show ?thesis using assms by (simp add: handleWrite_def res_simps)
qed

lemma resetChannel_inv: "cn_inv s \<Longrightarrow> resets_queued s > 0 \<Longrightarrow> cn_inv (resetChannel (s\<lparr>resets_queued := resets_queued s - 1\<rparr>))"
  by (auto simp: cn_inv_def idle_channel_def resetChannel_def split: if_splits)

lemma cn_inv_cong:
  assumes "state s' = state s" "watched s' = watched s" "channel s' = channel s" "resets_queued s' = resets_queued s"
    "created s' = created s" "closed s' = closed s" "handed s' = handed s"
  shows "cn_inv s' = cn_inv s"
  using assms by (simp add: cn_inv_def idle_channel_def)

lemma cn_exec_inv:
  assumes "cn_inv s" and "cn_exec e s = Inr s'"
  shows "cn_inv s'"
proof (cases e)
  case (Start fd err)
  then show ?thesis
    using assms cn_inv_cong [of "s\<lparr>connect_flag := True\<rparr>" s] by (auto simp: cn_exec_def start_def elim: startInLoop_inv [rotated])
next
  case (Restart fd err)
  let ?s = "(setState kDisconnected s)\<lparr>retryDelayMs := kInitRetryDelayMs, connect_flag := True\<rparr>"
  have "state s = kConnected \<Longrightarrow> cn_inv ?s" using assms(1) by (simp add: cn_inv_def idle_channel_def setState_def)
  then show ?thesis
    using Restart assms startInLoop_inv [of ?s] by (auto simp: cn_exec_def restart_connector_def split: if_splits)
next
  case Stop
  then show ?thesis using assms cn_inv_cong [of s' s] by (auto simp: cn_exec_def stop_def)
next
  case RunStop
  then show ?thesis
    using assms cn_inv_cong [of "s\<lparr>stops_queued := stops_queued s - 1\<rparr>" s] stopInLoop_inv
    by (auto simp: cn_exec_def split: if_splits)
next
  case RunReset
  then show ?thesis using assms resetChannel_inv by (auto simp: cn_exec_def split: if_splits)
next
  case (Timer fd err)
  then show ?thesis
    using assms cn_inv_cong [of "s\<lparr>timers_pending := timers_pending s - 1\<rparr>" s] startInLoop_inv
    by (auto simp: cn_exec_def split: if_splits)
next
  case (Writable err self)
  then show ?thesis using assms handleWrite_inv [OF assms(1)] by (simp add: cn_exec_def split: if_splits)
next
  case Errored
  then show ?thesis using assms handleError_inv [OF assms(1)] by (simp add: cn_exec_def split: if_splits)
next
  case (ErroredWritable err self)
  show ?thesis
  proof (cases "watched s")
    case True
    with ErroredWritable assms(2) obtain s1 where "handleError s = Inr s1" "handleWrite err self s1 = Inr s'"
      by (auto simp: cn_exec_def res_simps)
    then show ?thesis using handleError_inv [OF assms(1)] handleWrite_inv by blast
  qed (use assms ErroredWritable in \<open>simp add: cn_exec_def\<close>)
qed

text \<open>(C10) In every run of the connector each socket it opened has been closed once or handed to the
  client once, except the one it is connecting, which belongs to the registered channel: no socket
  leaks and none is closed twice, on every error path and across stop and restart.\<close>

theorem connector_owns_sockets:
  assumes "fold_res cn_exec es new_Connector = Inr s"
  shows "mset (created s) = mset (closed s) + mset (handed s)
           + (if state s = kConnecting then {#the (channel s)#} else {#})
     \<and> (watched s \<longleftrightarrow> state s = kConnecting)"
proof -
  have "cn_inv s"
    using cn_inv_new assms by (rule fold_res_inv [where P = cn_inv]) (rule cn_exec_inv)
  then show ?thesis by (auto simp: cn_inv_def idle_channel_def split: if_splits)
qed

lemmas cn_eval = cn_exec_def start_def restart_connector_def stop_def stopInLoop_def startInLoop_def connect_def
  connecting_def retry_def cn_close_def setState_def removeAndResetChannel_def resetChannel_def handleWrite_def
  handleError_def Let_def new_Connector_def errno_defs kInitRetryDelayMs_def kMaxRetryDelayMs_def

theorem connector_owns_sockets_witness:
  "\<exists>s. fold_res cn_exec [Start 3 ECONNREFUSED, Timer 4 EINPROGRESS, Writable 0 False, RunReset, Restart 5 EINPROGRESS] new_Connector = Inr s
     \<and> handed s = [4] \<and> mset (created s) = mset (closed s) + mset (handed s) + {#the (channel s)#}"
proof -
  obtain s where s: "fold_res cn_exec [Start 3 ECONNREFUSED, Timer 4 EINPROGRESS, Writable 0 False, RunReset, Restart 5 EINPROGRESS]
      new_Connector = Inr s" "handed s = [4]" "state s = kConnecting"
    by (simp add: cn_eval)
  then show ?thesis using connector_owns_sockets [OF s(1)] by simp
qed

section \<open>Retry delays\<close>

definition backoff :: "nat \<Rightarrow> int" where
  "backoff n = min (kInitRetryDelayMs * 2 ^ n) kMaxRetryDelayMs"

lemma backoff_Suc: "min (backoff n * 2) kMaxRetryDelayMs = backoff (Suc n)"
  by (simp add: backoff_def kInitRetryDelayMs_def kMaxRetryDelayMs_def min_def)

text \<open>Attempts that fail at once, each started by the retry timer of the one before.\<close>

definition refused :: "int \<Rightarrow> cn_event" where
  "refused fd = Timer fd ECONNREFUSED"

lemma refused_step:
  assumes "state s = kDisconnected" "connect_flag s" "timers_pending s = 1" "retryDelayMs s = backoff n"
  shows "\<exists>s'. cn_exec (refused fd) s = Inr s' \<and> state s' = kDisconnected \<and> connect_flag s' \<and> timers_pending s' = 1
     \<and> retryDelayMs s' = backoff (Suc n) \<and> delays s' = delays s @ [backoff n]"
  using assms by (simp add: cn_exec_def refused_def startInLoop_def connect_def retry_def cn_close_def setState_def
      backoff_Suc Let_def errno_defs)

lemma refused_run:
  assumes "state s = kDisconnected" "connect_flag s" "timers_pending s = 1" "retryDelayMs s = backoff n"
  shows "\<exists>s'. fold_res cn_exec (map refused fds) s = Inr s' \<and> delays s' = delays s @ map backoff [n..<n + length fds]"
  using assms
proof (induction fds arbitrary: s n)
  case (Cons fd fds)
  from refused_step [OF Cons.prems, of fd] obtain s1 where s1: "cn_exec (refused fd) s = Inr s1" "state s1 = kDisconnected"
      "connect_flag s1" "timers_pending s1 = 1" "retryDelayMs s1 = backoff (Suc n)" "delays s1 = delays s @ [backoff n]"
    by blast
  have "[n..<n + length (fd # fds)] = n # [Suc n..<Suc n + length fds]"
    by (simp add: upt_conv_Cons del: upt_Suc)
  with Cons.IH [OF s1(2-5)] s1(1,6) show ?case by (auto simp del: upt_Suc)
qed simp

text \<open>(C31) While connection attempts keep being refused, every attempt is followed by a retry timer, with
  delays of 500 ms doubled each time up to 30 s.\<close>

theorem retry_backoff:
  "\<exists>s. fold_res cn_exec (Start fd ECONNREFUSED # map refused fds) new_Connector = Inr s
     \<and> delays s = map (\<lambda>n. min (500 * 2 ^ n) 30000) [0..<Suc (length fds)]"
proof -
  obtain s where s: "cn_exec (Start fd ECONNREFUSED) new_Connector = Inr s" "state s = kDisconnected" "connect_flag s"
      "timers_pending s = 1" "retryDelayMs s = backoff 1" "delays s = [backoff 0]"
    by (simp add: cn_eval backoff_def)
  have "backoff = (\<lambda>n. min (500 * 2 ^ n) 30000)"
    by (simp add: fun_eq_iff backoff_def kInitRetryDelayMs_def kMaxRetryDelayMs_def)
  moreover have "[0..<Suc (length fds)] = 0 # [1..<1 + length fds]"
    by (simp add: upt_conv_Cons del: upt_Suc)
  ultimately show ?thesis
    using refused_run [OF s(2-5), of fds] s(1,6) by (auto simp del: upt_Suc)
qed

section \<open>Stopping\<close>

definition starts :: "cn_event \<Rightarrow> bool" where
  "starts e = (case e of Start _ _ \<Rightarrow> True | Restart _ _ \<Rightarrow> True | _ \<Rightarrow> False)"

definition still :: "connector \<Rightarrow> connector \<Rightarrow> bool" where
  "still s s' \<longleftrightarrow> \<not> connect_flag s' \<and> handed s' = handed s \<and> delays s' = delays s \<and> created s' = created s"

lemma still_refl: "\<not> connect_flag s \<Longrightarrow> still s s"
  by (simp add: still_def)

lemma still_trans: "still s s' \<Longrightarrow> still s' s'' \<Longrightarrow> still s s''"
  by (simp add: still_def)

lemma retry_still: "\<not> connect_flag s \<Longrightarrow> still s (retry fd s)"
  by (simp add: still_def retry_def cn_close_def setState_def Let_def)

lemma removeAndReset_still: "\<not> connect_flag s \<Longrightarrow> removeAndResetChannel s = Inr (fd, s') \<Longrightarrow> still s s'"
  by (auto simp: still_def removeAndResetChannel_def split: option.splits)

lemma handleError_still:
  assumes "\<not> connect_flag s" and "handleError s = Inr s'"
  shows "still s s'"
proof (cases "state s = kConnecting")
  case True
  with assms(2) obtain fd s1 where s1: "removeAndResetChannel s = Inr (fd, s1)" "s' = retry fd s1"
    by (auto simp: handleError_def res_simps)
  then have "still s s1" using removeAndReset_still assms(1) by blast
  then show ?thesis using retry_still [of s1 fd] s1(2) still_trans by (auto simp: still_def)
qed (use assms in \<open>simp add: handleError_def still_def\<close>)

lemma stopInLoop_still:
  assumes "\<not> connect_flag s" and "stopInLoop s = Inr s'"
  shows "still s s'"
proof (cases "state s = kConnecting")
  case True
  with assms(2) obtain fd s1 where s1: "removeAndResetChannel (setState kDisconnected s) = Inr (fd, s1)" "s' = retry fd s1"
    by (auto simp: stopInLoop_def res_simps)
  have "still (setState kDisconnected s) s1"
    by (rule removeAndReset_still [OF _ s1(1)]) (use assms(1) in \<open>simp add: setState_def\<close>)
  then show ?thesis using retry_still [of s1 fd] s1(2) by (simp add: still_def setState_def)
qed (use assms in \<open>simp add: stopInLoop_def still_def\<close>)

lemma handleWrite_still:
  assumes "\<not> connect_flag s" and "handleWrite err self s = Inr s'"
  shows "still s s'"
proof (cases "state s = kConnecting")
  case True
  with assms(2) obtain fd s1 where s1: "removeAndResetChannel s = Inr (fd, s1)"
      "s' = retry fd s1 \<or> connect_flag s1 \<or> s' = cn_close fd (setState kConnected s1)"
    by (auto simp: handleWrite_def setState_def Let_def res_simps split: if_splits)
  then have "still s s1" using removeAndReset_still assms(1) by blast
  then show ?thesis using retry_still [of s1 fd] s1(2) by (auto simp: still_def cn_close_def setState_def)
qed (use assms in \<open>simp add: handleWrite_def still_def res_simps\<close>)

lemma stopped_step:
  assumes "\<not> starts e" and "\<not> connect_flag s" and "cn_exec e s = Inr s'"
  shows "still s s'"
proof (cases e)
  case RunStop
  then have "s' = s \<or> stopInLoop (s\<lparr>stops_queued := stops_queued s - 1\<rparr>) = Inr s'"
    using assms(3) by (auto simp: cn_exec_def split: if_splits)
  then show ?thesis
    using stopInLoop_still [of "s\<lparr>stops_queued := stops_queued s - 1\<rparr>" s'] assms(2) by (auto simp: still_def)
next
  case (Writable err self)
  then have "s' = s \<or> handleWrite err self s = Inr s'" using assms(3) by (auto simp: cn_exec_def split: if_splits)
  then show ?thesis using handleWrite_still still_refl assms(2) by blast
next
  case Errored
  then have "s' = s \<or> handleError s = Inr s'" using assms(3) by (auto simp: cn_exec_def split: if_splits)
  then show ?thesis using handleError_still still_refl assms(2) by blast
next
  case (ErroredWritable err self)
  then consider "s' = s" | s1 where "handleError s = Inr s1" "handleWrite err self s1 = Inr s'"
    using assms(3) by (auto simp: cn_exec_def res_simps split: if_splits)
  then show ?thesis
  proof cases
    case 2
    then have "still s s1" using handleError_still assms(2) by blast
    moreover have "\<not> connect_flag s1" using \<open>still s s1\<close> by (simp add: still_def)
    then have "still s1 s'" using handleWrite_still 2(2) by blast
    ultimately show ?thesis by (rule still_trans)
  qed (use assms(2) in \<open>simp add: still_def\<close>)
qed (use assms in \<open>auto simp: starts_def cn_exec_def stop_def startInLoop_def resetChannel_def still_def res_simps split: if_splits\<close>)

text \<open>(C28) After \<open>stop\<close> and until the next \<open>start\<close> or \<open>restart\<close> the connector opens no socket, hands out
  no connection and schedules no retry, whatever timers and callbacks are still under way; and once the
  queued \<open>stopInLoop\<close> has run it is no longer connecting.\<close>

theorem stop_is_final:
  assumes "cn_exec Stop s = Inr s1" and "\<forall>e \<in> set es. \<not> starts e" and "fold_res cn_exec es s1 = Inr s2"
    and "cn_exec RunStop s2 = Inr s3" and "stops_queued s2 > 0"
  shows "handed s3 = handed s \<and> created s3 = created s \<and> delays s3 = delays s \<and> state s3 \<noteq> kConnecting"
proof -
  let ?P = "\<lambda>t. \<not> connect_flag t \<and> handed t = handed s \<and> delays t = delays s \<and> created t = created s"
  have step: "?P t'" if "?P t" "\<not> starts e" "cn_exec e t = Inr t'" for e t t'
    using stopped_step [OF that(2) _ that(3)] that(1) by (simp add: still_def)
  have "?P s1" using assms(1) by (auto simp: cn_exec_def stop_def)
  then have "?P s2"
    using assms(3) by (rule fold_res_inv [where P = ?P]) (rule step, use assms(2) in auto)
  moreover have "\<not> starts RunStop" by (simp add: starts_def)
  ultimately have "?P s3" using step assms(4) by blast
  moreover have "state s3 \<noteq> kConnecting"
    using assms(4,5) by (auto simp: cn_exec_def stopInLoop_def removeAndResetChannel_def retry_def setState_def Let_def
        res_simps split: if_splits option.splits)
  ultimately show ?thesis by simp
qed

theorem stop_is_final_witness:
  "\<exists>s s1 s3. cn_exec (Start 3 EINPROGRESS) new_Connector = Inr s \<and> cn_exec Stop s = Inr s1 \<and> cn_exec RunStop s1 = Inr s3
     \<and> handed s3 = [] \<and> state s3 \<noteq> kConnecting"
proof -
  obtain s s1 s3 where s: "cn_exec (Start 3 EINPROGRESS) new_Connector = Inr s" "handed s = []" "cn_exec Stop s = Inr s1"
      "cn_exec RunStop s1 = Inr s3" "stops_queued s1 > 0"
    by (simp add: cn_eval)
  then show ?thesis using stop_is_final [OF s(3), of "[]" s1 s3] by auto
qed


end
