(* ===== verification/Tcp_Connection.thy ===== *)
theory Tcp_Connection
  imports Byte_Buffer Channels
begin

text \<open>
  \<^verbatim>\<open>src/mynetlib/net/TcpConnection.h\<close> and \<^verbatim>\<open>TcpConnection.cc\<close>: one TCP connection, on
  the buffers of \<open>Byte_Buffer\<close> and the event masks of \<open>Channels\<close>. The answers of \<open>write\<close> and
  \<open>readv\<close> are arguments; callbacks and queued functors appear, in order, in a history. That the poller
  accepts the channel's updates is shown in \<open>Pollers\<close>.
\<close>

section \<open>State\<close>

datatype StateE = kDisconnected | kConnecting | kConnected | kDisconnecting

datatype conn_call =
    ConnectionCb bool      \<comment> \<open>connection callback, with \<open>connected()\<close>\<close>
  | MessageCb int          \<comment> \<open>message callback, with the receive time\<close>
  | WriteCompleteQueued
  | HighWaterMarkQueued nat
  | CloseCb

text \<open>
  \<open>written\<close> are the bytes the kernel took, \<open>accepted\<close> the bytes \<open>sendInLoop\<close> took
  responsibility for; \<open>sends_queued\<close> are messages other threads handed to the loop.
\<close>

record tcp_conn =
  tc_state :: StateE
  tc_channel :: channel
  inputBuffer :: buffer
  outputBuffer :: buffer
  highWaterMark :: nat
  hasWriteCompleteCallback :: bool
  hasHighWaterMarkCallback :: bool
  reading :: bool
  shut :: bool
  sends_queued :: "byte list list"
  closes_queued :: nat
  written :: "byte list"
  accepted :: "byte list"
  calls :: "conn_call list"

definition new_TcpConnection :: "int \<Rightarrow> tcp_conn" where
  "new_TcpConnection sockfd =
     \<lparr>tc_state = kConnecting,
      tc_channel = setErrorCallback (setCloseCallback (setWriteCallback (setReadCallback (new_Channel sockfd)))),
      inputBuffer = new_Buffer kInitialSize, outputBuffer = new_Buffer kInitialSize, highWaterMark = 64 * 1024 * 1024,
      hasWriteCompleteCallback = False, hasHighWaterMarkCallback = False, reading = True, shut = False,
      sends_queued = [], closes_queued = 0, written = [], accepted = [], calls = []\<rparr>"

definition destroy_TcpConnection :: "tcp_conn \<Rightarrow> unit res" where
  "destroy_TcpConnection s = assert_res (tc_state s = kDisconnected) (Inr ())"

definition setWriteCompleteCallback :: "tcp_conn \<Rightarrow> tcp_conn" where
  "setWriteCompleteCallback s = s\<lparr>hasWriteCompleteCallback := True\<rparr>"

definition setHighWaterMarkCallback :: "nat \<Rightarrow> tcp_conn \<Rightarrow> tcp_conn" where
  "setHighWaterMarkCallback mark s = s\<lparr>hasHighWaterMarkCallback := True, highWaterMark := mark\<rparr>"

definition stateToString :: "tcp_conn \<Rightarrow> string" where
  "stateToString s = (case tc_state s of kDisconnected \<Rightarrow> ''kDisconnected'' | kConnecting \<Rightarrow> ''kConnecting''
     | kConnected \<Rightarrow> ''kConnected'' | kDisconnecting \<Rightarrow> ''kDisconnecting'')"

text \<open>An event change of the connection's channel.\<close>

definition tc_update :: "(i32 \<Rightarrow> i32) \<Rightarrow> tcp_conn \<Rightarrow> tcp_conn" where
  "tc_update f s = s\<lparr>tc_channel := (tc_channel s)\<lparr>ch_events := f (ch_events (tc_channel s)), ch_addedToLoop := True\<rparr>\<rparr>"

definition tc_log :: "conn_call list \<Rightarrow> tcp_conn \<Rightarrow> tcp_conn" where
  "tc_log cs s = s\<lparr>calls := calls s @ cs\<rparr>"

section \<open>Sending\<close>

definition EWOULDBLOCK :: int where "EWOULDBLOCK = 11"
definition EPIPE :: int where "EPIPE = 32"
definition ECONNRESET :: int where "ECONNRESET = 104"

text \<open>The first part of \<open>sendInLoop\<close>: the direct write, with its answer; the result is the number of
  bytes written, the fault flag and the new state.\<close>

definition direct_write :: "byte list \<Rightarrow> int + nat \<Rightarrow> tcp_conn \<Rightarrow> nat \<times> bool \<times> tcp_conn" where
  "direct_write data r s =
     (if \<not> isWriting (tc_channel s) \<and> readableBytes (outputBuffer s) = 0 then
        (case r of
           Inr nwrote \<Rightarrow>
             (let remaining = length data - nwrote;
                  s1 = s\<lparr>written := written s @ take nwrote data\<rparr>
              in (nwrote, False, if remaining = 0 \<and> hasWriteCompleteCallback s then tc_log [WriteCompleteQueued] s1 else s1))
         | Inl errno \<Rightarrow> (0, errno \<noteq> EWOULDBLOCK \<and> (errno = EPIPE \<or> errno = ECONNRESET), s))
      else (0, False, s))"

text \<open>The second part: what is left goes to the output buffer.\<close>

definition queue_rest :: "byte list \<Rightarrow> nat \<Rightarrow> tcp_conn \<Rightarrow> tcp_conn res" where
  "queue_rest data nwrote s =
     (let oldLen = readableBytes (outputBuffer s);
          remaining = length data - nwrote;
          s1 = (if oldLen + remaining \<ge> highWaterMark s \<and> oldLen < highWaterMark s \<and> hasHighWaterMarkCallback s
                then tc_log [HighWaterMarkQueued (oldLen + remaining)] s else s)
      in bind_res (buf_append (drop nwrote data) (outputBuffer s1)) (\<lambda>b.
           let s2 = s1\<lparr>outputBuffer := b, accepted := accepted s1 @ data\<rparr>
           in Inr (if \<not> isWriting (tc_channel s2) then tc_update (\<lambda>ev. ev OR kWriteEvent) s2 else s2)))"

definition sendInLoop :: "byte list \<Rightarrow> int + nat \<Rightarrow> tcp_conn \<Rightarrow> tcp_conn res" where
  "sendInLoop data r s =
     (if tc_state s = kDisconnected then Inr s
      else
        (let (nwrote, faultError, s1) = direct_write data r s;
             remaining = length data - nwrote
         in assert_res (nwrote \<le> length data)   \<comment> \<open>\<open>remaining <= len\<close>, on unsigned numbers\<close>
            (if faultError then Inr s1
             else if remaining > 0 then queue_rest data nwrote s1
             else Inr (s1\<lparr>accepted := accepted s1 @ data\<rparr>))))"

text \<open>\<open>send\<close>, from the loop thread and from another one.\<close>

definition send :: "byte list \<Rightarrow> int + nat \<Rightarrow> tcp_conn \<Rightarrow> tcp_conn res" where
  "send message r s = (if tc_state s = kConnected then sendInLoop message r s else Inr s)"

definition send_queued :: "byte list \<Rightarrow> tcp_conn \<Rightarrow> tcp_conn" where
  "send_queued message s = (if tc_state s = kConnected then s\<lparr>sends_queued := sends_queued s @ [message]\<rparr> else s)"

section \<open>Closing\<close>

definition shutdownInLoop :: "tcp_conn \<Rightarrow> tcp_conn" where
  "shutdownInLoop s = (if \<not> isWriting (tc_channel s) then s\<lparr>shut := True\<rparr> else s)"

definition shutdown :: "tcp_conn \<Rightarrow> tcp_conn" where
  "shutdown s = (if tc_state s = kConnected then shutdownInLoop (s\<lparr>tc_state := kDisconnecting\<rparr>) else s)"

definition tc_handleClose :: "tcp_conn \<Rightarrow> tcp_conn res" where
  "tc_handleClose s =
     assert_res (tc_state s = kConnected \<or> tc_state s = kDisconnecting)
       (let s = tc_update (\<lambda>_. kNoneEvent) (s\<lparr>tc_state := kDisconnected\<rparr>)
        in Inr (tc_log [ConnectionCb (tc_state s = kConnected), CloseCb] s))"

definition forceClose :: "tcp_conn \<Rightarrow> tcp_conn" where
  "forceClose s =
     (if tc_state s = kConnected \<or> tc_state s = kDisconnecting
      then s\<lparr>tc_state := kDisconnecting, closes_queued := closes_queued s + 1\<rparr> else s)"

text \<open>The delayed variant starts a timer, whose callback is \<open>forceClose\<close> if the connection still exists.\<close>

definition forceCloseWithDelay :: "tcp_conn \<Rightarrow> bool \<times> tcp_conn" where
  "forceCloseWithDelay s =
     (if tc_state s = kConnected \<or> tc_state s = kDisconnecting then (True, s\<lparr>tc_state := kDisconnecting\<rparr>) else (False, s))"

definition forceCloseInLoop :: "tcp_conn \<Rightarrow> tcp_conn res" where
  "forceCloseInLoop s = (if tc_state s = kConnected \<or> tc_state s = kDisconnecting then tc_handleClose s else Inr s)"

section \<open>Reading and the life cycle\<close>

definition startReadInLoop :: "tcp_conn \<Rightarrow> tcp_conn" where
  "startReadInLoop s =
     (if \<not> reading s \<or> \<not> isReading (tc_channel s) then (tc_update (\<lambda>ev. ev OR kReadEvent) s)\<lparr>reading := True\<rparr> else s)"

definition stopReadInLoop :: "tcp_conn \<Rightarrow> tcp_conn" where
  "stopReadInLoop s =
     (if reading s \<or> isReading (tc_channel s) then (tc_update (\<lambda>ev. ev AND NOT kReadEvent) s)\<lparr>reading := False\<rparr> else s)"

definition connectEstablished :: "tcp_conn \<Rightarrow> tcp_conn res" where
  "connectEstablished s =
     assert_res (tc_state s = kConnecting)
       (let s = s\<lparr>tc_state := kConnected, tc_channel := tie (tc_channel s)\<rparr>;
            s = tc_update (\<lambda>ev. ev OR kReadEvent) s
        in Inr (tc_log [ConnectionCb (tc_state s = kConnected)] s))"

definition tc_remove :: "tcp_conn \<Rightarrow> tcp_conn res" where
  "tc_remove s = assert_res (isNoneEvent (tc_channel s)) (Inr (s\<lparr>tc_channel := (tc_channel s)\<lparr>ch_addedToLoop := False\<rparr>\<rparr>))"

definition connectDestroyed :: "tcp_conn \<Rightarrow> tcp_conn res" where
  "connectDestroyed s =
     (let s = (if tc_state s = kConnected
               then tc_log [ConnectionCb False] (tc_update (\<lambda>_. kNoneEvent) (s\<lparr>tc_state := kDisconnected\<rparr>)) else s)
      in tc_remove s)"

text \<open>The default message callback drops what was received.\<close>

definition defaultMessageCallback :: "tcp_conn \<Rightarrow> tcp_conn" where
  "defaultMessageCallback s = s\<lparr>inputBuffer := retrieveAll (inputBuffer s)\<rparr>"

section \<open>Channel callbacks\<close>

definition tc_handleError :: "tcp_conn \<Rightarrow> tcp_conn" where
  "tc_handleError s = s"

definition tc_handleRead :: "int + byte list \<Rightarrow> int \<Rightarrow> tcp_conn \<Rightarrow> tcp_conn res" where
  "tc_handleRead r receiveTime s =
     bind_res (readFd r (inputBuffer s)) (\<lambda>(n, savedErrno, b).
       let s = s\<lparr>inputBuffer := b\<rparr>
       in if n > 0 then Inr (tc_log [MessageCb receiveTime] s)
          else if n = 0 then tc_handleClose s
          else Inr (tc_handleError s))"

definition tc_handleWrite :: "int + nat \<Rightarrow> tcp_conn \<Rightarrow> tcp_conn res" where
  "tc_handleWrite r s =
     (if isWriting (tc_channel s) then
        (case r of
           Inl errno \<Rightarrow> Inr s
         | Inr n \<Rightarrow>
             if n > 0 then
               bind_res (retrieve n (outputBuffer s)) (\<lambda>b.
                 let s1 = s\<lparr>written := written s @ take n (peek (outputBuffer s)), outputBuffer := b\<rparr>
                 in if readableBytes (outputBuffer s1) = 0 then
                      (let s2 = tc_update (\<lambda>ev. ev AND NOT kWriteEvent) s1;
                           s3 = (if hasWriteCompleteCallback s2 then tc_log [WriteCompleteQueued] s2 else s2)
                       in Inr (if tc_state s3 = kDisconnecting then shutdownInLoop s3 else s3))
                    else Inr s1)
             else Inr s)
      else Inr s)"

definition run_chan_call :: "int + byte list \<Rightarrow> int + nat \<Rightarrow> chan_call \<Rightarrow> tcp_conn \<Rightarrow> tcp_conn res" where
  "run_chan_call rd wr c s =
     (case c of CloseCall \<Rightarrow> tc_handleClose s | ErrorCall \<Rightarrow> Inr (tc_handleError s)
      | ReadCall t \<Rightarrow> tc_handleRead rd t s | WriteCall \<Rightarrow> tc_handleWrite wr s)"

definition tc_dispatch :: "i32 \<Rightarrow> int \<Rightarrow> int + byte list \<Rightarrow> int + nat \<Rightarrow> tcp_conn \<Rightarrow> tcp_conn res" where
  "tc_dispatch revents receiveTime rd wr s =
     fold_res (run_chan_call rd wr) (handleEvent True receiveTime (set_revents revents (tc_channel s))) s"

section \<open>Events\<close>

text \<open>
  What can happen to a connection in the loop thread: the calls of its server or client, the user's
  calls, functors queued by other threads, and dispatches of a registered channel.
\<close>

datatype tc_event =
    Established | Destroyed
  | Send "byte list" "int + nat" | OtherSend "byte list" | RunSend "int + nat"
  | Shutdown | ForceClose | RunForceClose | StartRead | StopRead | Consume nat
  | Dispatch i32 int "int + byte list" "int + nat"

definition tc_exec :: "tc_event \<Rightarrow> tcp_conn \<Rightarrow> tcp_conn res" where
  "tc_exec e s =
     (case e of
        Established \<Rightarrow> connectEstablished s
      | Destroyed \<Rightarrow> connectDestroyed s
      | Send message r \<Rightarrow> send message r s
      | OtherSend message \<Rightarrow> Inr (send_queued message s)
      | RunSend r \<Rightarrow> (case sends_queued s of [] \<Rightarrow> Inr s | m # ms \<Rightarrow> sendInLoop m r (s\<lparr>sends_queued := ms\<rparr>))
      | Shutdown \<Rightarrow> Inr (shutdown s)
      | ForceClose \<Rightarrow> Inr (forceClose s)
      | RunForceClose \<Rightarrow> if closes_queued s > 0 then forceCloseInLoop (s\<lparr>closes_queued := closes_queued s - 1\<rparr>) else Inr s
      | StartRead \<Rightarrow> Inr (startReadInLoop s)
      | StopRead \<Rightarrow> Inr (stopReadInLoop s)
      | Consume n \<Rightarrow> bind_res (retrieve n (inputBuffer s)) (\<lambda>b. Inr (s\<lparr>inputBuffer := b\<rparr>))
      | Dispatch revents t rd wr \<Rightarrow> if ch_addedToLoop (tc_channel s) then tc_dispatch revents t rd wr s else Inr s)"

section \<open>The output stream\<close>

text \<open>The bytes a connection can take over its life, and the number an event asks it to take.\<close>

definition send_limit :: nat where
  "send_limit = buffer_room (new_Buffer kInitialSize)"

definition weight :: "tc_event \<Rightarrow> nat" where
  "weight e = (case e of Send m _ \<Rightarrow> length m | OtherSend m \<Rightarrow> length m | _ \<Rightarrow> 0)"

text \<open>
  \<open>stream_ok k\<close>: what the kernel took followed by the output buffer is what was accepted, the
  connection waits for writability exactly while the output buffer holds bytes, and \<open>k\<close> more
  bytes can be taken.
\<close>

definition stream_ok :: "nat \<Rightarrow> tcp_conn \<Rightarrow> bool" where
  "stream_ok k s \<longleftrightarrow> buffer_wf (outputBuffer s) \<and> written s @ peek (outputBuffer s) = accepted s
     \<and> send_limit \<le> buffer_room (outputBuffer s) + length (accepted s)
     \<and> length (accepted s) + length (concat (sends_queued s)) + k \<le> send_limit
     \<and> (isWriting (tc_channel s) \<longleftrightarrow> tc_state s \<noteq> kDisconnected \<and> peek (outputBuffer s) \<noteq> [])"

lemma stream_ok_cong:
  assumes "stream_ok k s" "outputBuffer s' = outputBuffer s" "written s' = written s" "accepted s' = accepted s"
    "sends_queued s' = sends_queued s" "tc_state s = kDisconnected \<longrightarrow> tc_state s' = kDisconnected"
    "isWriting (tc_channel s') \<longleftrightarrow> isWriting (tc_channel s) \<and> tc_state s' \<noteq> kDisconnected"
  shows "stream_ok k s'"
  using assms by (auto simp: stream_ok_def)

lemma isWriting_masks [simp]:
  "isWriting (ch\<lparr>ch_events := ev OR kReadEvent, ch_addedToLoop := b\<rparr>) = isWriting (ch\<lparr>ch_events := ev\<rparr>)"
  "isWriting (ch\<lparr>ch_events := ev AND NOT kReadEvent, ch_addedToLoop := b\<rparr>) = isWriting (ch\<lparr>ch_events := ev\<rparr>)"
  "isWriting (ch\<lparr>ch_events := ev OR kWriteEvent, ch_addedToLoop := b\<rparr>)"
  "\<not> isWriting (ch\<lparr>ch_events := ev AND NOT kWriteEvent, ch_addedToLoop := b\<rparr>)"
  by (simp_all add: isWriting_def has_event_masks)

lemma readableBytes_0: "buffer_wf b \<Longrightarrow> readableBytes b = 0 \<longleftrightarrow> peek b = []"
  using length_peek [of b] by (auto simp: buffer_wf_def)

lemma stream_ok_new: "stream_ok send_limit (new_TcpConnection fd)"
proof -
  have "kCheapPrepend + kInitialSize \<le> vector_max_size"
    by (simp add: kCheapPrepend_def kInitialSize_def vector_max_size_def)
  then show ?thesis
    using new_Buffer_wf
    by (simp add: stream_ok_def new_TcpConnection_def send_limit_def isWriting_def setErrorCallback_def setCloseCallback_def
        setWriteCallback_def setReadCallback_def new_Channel_def has_event_def)
qed

lemma tc_log_simps [simp]:
  "outputBuffer (tc_log cs s) = outputBuffer s" "written (tc_log cs s) = written s" "accepted (tc_log cs s) = accepted s"
  "sends_queued (tc_log cs s) = sends_queued s" "tc_state (tc_log cs s) = tc_state s" "tc_channel (tc_log cs s) = tc_channel s"
  "shut (tc_log cs s) = shut s" "inputBuffer (tc_log cs s) = inputBuffer s" "calls (tc_log cs s) = calls s @ cs"
  "hasWriteCompleteCallback (tc_log cs s) = hasWriteCompleteCallback s" "highWaterMark (tc_log cs s) = highWaterMark s"
  "hasHighWaterMarkCallback (tc_log cs s) = hasHighWaterMarkCallback s" "closes_queued (tc_log cs s) = closes_queued s"
  by (simp_all add: tc_log_def)

lemma tc_update_simps [simp]:
  "outputBuffer (tc_update f s) = outputBuffer s" "written (tc_update f s) = written s" "accepted (tc_update f s) = accepted s"
  "sends_queued (tc_update f s) = sends_queued s" "tc_state (tc_update f s) = tc_state s"
  "tc_channel (tc_update f s) = (tc_channel s)\<lparr>ch_events := f (ch_events (tc_channel s)), ch_addedToLoop := True\<rparr>"
  "shut (tc_update f s) = shut s" "inputBuffer (tc_update f s) = inputBuffer s" "calls (tc_update f s) = calls s"
  "hasWriteCompleteCallback (tc_update f s) = hasWriteCompleteCallback s" "closes_queued (tc_update f s) = closes_queued s"
  by (simp_all add: tc_update_def)

text \<open>The direct write: either nothing changes, or the kernel took a prefix of the data.\<close>

lemma direct_write_cases:
  assumes "stream_ok k s" and "tc_state s \<noteq> kDisconnected"
  obtains (skip) fault where "direct_write data r s = (0, fault, s)" and "fault \<longrightarrow> peek (outputBuffer s) = []"
    | (wrote) n s1 where "direct_write data r s = (n, False, s1)" and "r = Inr n" and "peek (outputBuffer s) = []"
      and "written s1 = written s @ take n data" and "outputBuffer s1 = outputBuffer s" and "accepted s1 = accepted s"
      and "sends_queued s1 = sends_queued s" and "tc_state s1 = tc_state s" and "tc_channel s1 = tc_channel s" and "shut s1 = shut s"
proof (cases "\<not> isWriting (tc_channel s) \<and> readableBytes (outputBuffer s) = 0")
  case True
  then have "peek (outputBuffer s) = []" using assms readableBytes_0 by (auto simp: stream_ok_def)
  show ?thesis
  proof (cases r)
    case (Inl errno)
    then show ?thesis
      using True by (intro skip [of "errno \<noteq> EWOULDBLOCK \<and> (errno = EPIPE \<or> errno = ECONNRESET)"])
        (simp_all add: direct_write_def \<open>peek (outputBuffer s) = []\<close>)
  next
    case (Inr n)
    let ?s = "s\<lparr>written := written s @ take n data\<rparr>"
    let ?s1 = "if length data - n = 0 \<and> hasWriteCompleteCallback s then tc_log [WriteCompleteQueued] ?s else ?s"
    show ?thesis
      by (rule wrote [of n ?s1]) (use True Inr \<open>peek (outputBuffer s) = []\<close> in \<open>simp_all add: direct_write_def Let_def\<close>)
  qed
next
  case False
  then have "direct_write data r s = (0, False, s)" unfolding direct_write_def by (rule if_not_P)
  then show ?thesis by (rule skip) simp
qed

definition half_sent :: "nat \<Rightarrow> byte list \<Rightarrow> nat \<Rightarrow> tcp_conn \<Rightarrow> bool" where
  "half_sent n data k s \<longleftrightarrow> buffer_wf (outputBuffer s) \<and> written s @ peek (outputBuffer s) @ drop n data = accepted s @ data
     \<and> send_limit \<le> buffer_room (outputBuffer s) + length (accepted s)
     \<and> length (accepted s) + length (concat (sends_queued s)) + (length data + k) \<le> send_limit
     \<and> (isWriting (tc_channel s) \<longleftrightarrow> peek (outputBuffer s) \<noteq> []) \<and> tc_state s \<noteq> kDisconnected"

lemma queue_rest_ok:
  assumes half: "half_sent n data k s" and n: "n < length data"
  shows "\<exists>s'. queue_rest data n s = Inr s' \<and> stream_ok k s' \<and> shut s' = shut s \<and> tc_state s' = tc_state s"
proof -
  note h = half [unfolded half_sent_def]
  let ?b = "outputBuffer s"
  have lim: "send_limit \<le> buffer_room ?b + length (accepted s)" 
      "length (accepted s) + length (concat (sends_queued s)) + (length data + k) \<le> send_limit"
    using h by blast+
  then have "length (drop n data) \<le> buffer_room ?b" unfolding length_drop by linarith
  with bq.push_ok [of ?b "drop n data"] h obtain b where
    b: "buf_append (drop n data) ?b = Inr b" "buffer_wf b" "peek b = peek ?b @ drop n data"
      "buffer_room ?b - length (drop n data) \<le> buffer_room b"
    by blast
  define s1 where "s1 = (if readableBytes ?b + (length data - n) \<ge> highWaterMark s \<and> readableBytes ?b < highWaterMark s
      \<and> hasHighWaterMarkCallback s then tc_log [HighWaterMarkQueued (readableBytes ?b + (length data - n))] s else s)"
  have s1: "outputBuffer s1 = ?b" "accepted s1 = accepted s" "written s1 = written s" "sends_queued s1 = sends_queued s"
      "tc_channel s1 = tc_channel s" "shut s1 = shut s" "tc_state s1 = tc_state s"
    by (simp_all add: s1_def)
  let ?s2 = "s1\<lparr>outputBuffer := b, accepted := accepted s1 @ data\<rparr>"
  let ?s = "if \<not> isWriting (tc_channel ?s2) then tc_update (\<lambda>ev. ev OR kWriteEvent) ?s2 else ?s2"
  have "queue_rest data n s = Inr ?s"
    using b(1) s1 unfolding queue_rest_def Let_def s1_def [symmetric] by simp
  moreover have "stream_ok k ?s"
  proof -
    have "peek b \<noteq> []" using b(3) n by simp
    moreover have "send_limit \<le> buffer_room b + length (accepted s @ data)"
      using b(4) lim unfolding length_append length_drop by linarith
    moreover have "written s @ peek b = accepted s @ data" using h b(3) by simp
    ultimately show ?thesis using lim(2) b(2) s1 h by (simp add: stream_ok_def)
  qed
  ultimately show ?thesis using s1 by (intro exI [of _ ?s]) simp
qed

lemma sendInLoop_stream:
  assumes ok: "stream_ok (length data + k) s" and n: "\<And>n. r = Inr n \<Longrightarrow> peek (outputBuffer s) = [] \<Longrightarrow> n \<le> length data"
  shows "\<exists>s'. sendInLoop data r s = Inr s' \<and> stream_ok k s' \<and> shut s' = shut s \<and> tc_state s' = tc_state s"
proof (cases "tc_state s = kDisconnected")
  case True
  then show ?thesis using ok by (simp add: sendInLoop_def stream_ok_def)
next
  case False
  note o = ok [unfolded stream_ok_def]
  have rest: ?thesis if "direct_write data r s = (m, False, s1)" "half_sent m data k s1" "m \<le> length data"
    "shut s1 = shut s" "tc_state s1 = tc_state s" for m s1
  proof (cases "m < length data")
    case True
    then show ?thesis using queue_rest_ok [OF that(2) True] that False by (auto simp: sendInLoop_def)
  next
    case False
    then have "m = length data" using that(3) by simp
    then show ?thesis
      using that \<open>tc_state s \<noteq> kDisconnected\<close> by (auto simp: sendInLoop_def half_sent_def stream_ok_def)
  qed
  from ok False show ?thesis
  proof (cases rule: direct_write_cases [where data = data and r = r])
    case (skip fault)
    show ?thesis
    proof (cases fault)
      case True
      then show ?thesis using skip(1) False o by (auto simp: sendInLoop_def stream_ok_def)
    next
      case False
      with skip(1) show ?thesis
        using o \<open>tc_state s \<noteq> kDisconnected\<close> by (intro rest [of 0 s]) (simp_all add: half_sent_def)
    qed
  next
    case (wrote m s1)
    then show ?thesis
      using o n [of m] False by (intro rest [of m s1]) (simp_all add: half_sent_def)
  qed
qed

lemma sendInLoop_result:
  assumes ok: "stream_ok (length data + k) s" and run: "sendInLoop data r s = Inr s'"
  shows "stream_ok k s' \<and> shut s' = shut s \<and> tc_state s' = tc_state s"
proof (cases "tc_state s = kDisconnected")
  case True
  then show ?thesis using ok run by (auto simp: sendInLoop_def stream_ok_def)
next
  case False
  have le: "n \<le> length data" if r: "r = Inr n" "peek (outputBuffer s) = []" for n
  proof -
    have "\<not> isWriting (tc_channel s)" "readableBytes (outputBuffer s) = 0"
      using ok False that(2) readableBytes_0 by (auto simp: stream_ok_def)
    then show ?thesis using run r(1) False by (auto simp: sendInLoop_def direct_write_def Let_def res_simps)
  qed
  obtain s1 where "sendInLoop data r s = Inr s1" "stream_ok k s1 \<and> shut s1 = shut s \<and> tc_state s1 = tc_state s"
    using sendInLoop_stream [of data k s r, OF ok le] by blast
  then show ?thesis using run by simp
qed

text \<open>One step: the stream is kept, and the write side is shut down only when everything was written.\<close>

definition stream_step :: "nat \<Rightarrow> tcp_conn \<Rightarrow> tcp_conn \<Rightarrow> bool" where
  "stream_step k s s' \<longleftrightarrow> stream_ok k s' \<and> (shut s' \<longrightarrow> shut s \<or> written s' = accepted s')
     \<and> (tc_state s = kDisconnected \<longrightarrow> tc_state s' = kDisconnected \<and> shut s' = shut s \<and> written s' = written s)"

lemma stream_step_refl: "stream_ok k s \<Longrightarrow> stream_step k s s"
  by (simp add: stream_step_def)

lemma stream_step_trivial:
  assumes "stream_ok k s" "outputBuffer s' = outputBuffer s" "written s' = written s" "accepted s' = accepted s"
    "sends_queued s' = sends_queued s" "tc_state s = kDisconnected \<longrightarrow> tc_state s' = kDisconnected"
    "isWriting (tc_channel s') \<longleftrightarrow> isWriting (tc_channel s) \<and> tc_state s' \<noteq> kDisconnected"
    "shut s' = shut s"
  shows "stream_step k s s'"
  using stream_ok_cong [OF assms(1-7)] assms(3,6,8) by (auto simp: stream_step_def)

lemma shutdownInLoop_step:
  assumes "stream_ok k s" "tc_state s \<noteq> kDisconnected"
  shows "stream_step k s (shutdownInLoop s)"
  using assms by (auto simp: stream_step_def shutdownInLoop_def stream_ok_def)

lemma handleClose_step:
  assumes "stream_ok k s" and "tc_handleClose s = Inr s'"
  shows "stream_step k s s'"
  by (rule stream_step_trivial [OF assms(1)])
    (use assms(2) in \<open>auto simp: tc_handleClose_def Let_def res_simps isWriting_def has_event_def kNoneEvent_def\<close>)

lemma handleRead_step:
  assumes "stream_ok k s" and "tc_handleRead r t s = Inr s'"
  shows "stream_step k s s'"
proof -
  from assms(2) obtain n e b where b: "readFd r (inputBuffer s) = Inr (n, e, b)"
    and s': "(if n > 0 then Inr (tc_log [MessageCb t] (s\<lparr>inputBuffer := b\<rparr>)) else if n = 0 then tc_handleClose (s\<lparr>inputBuffer := b\<rparr>)
        else Inr (tc_handleError (s\<lparr>inputBuffer := b\<rparr>))) = Inr s'"
    by (cases "readFd r (inputBuffer s)") (auto simp: tc_handleRead_def Let_def)
  let ?s = "s\<lparr>inputBuffer := b\<rparr>"
  have ok: "stream_ok k ?s" using assms(1) by (simp add: stream_ok_def)
  show ?thesis
  proof (cases "n = 0")
    case True
    then have "tc_handleClose ?s = Inr s'" using s' by simp
    then show ?thesis using handleClose_step [OF ok] by (simp add: stream_step_def)
  next
    case False
    then have "s' = (if n > 0 then tc_log [MessageCb t] ?s else ?s)"
      using s' by (simp add: tc_handleError_def split: if_splits)
    then show ?thesis using assms(1) by (simp add: stream_step_def stream_ok_def)
  qed
qed

lemma handleWrite_step:
  assumes ok: "stream_ok k s" and run: "tc_handleWrite r s = Inr s'"
  shows "stream_step k s s'"
proof (cases "s' = s")
  case True
  then show ?thesis using ok by (simp add: stream_step_refl)
next
  case False
  note o = ok [unfolded stream_ok_def]
  let ?out = "outputBuffer s"
  from run False obtain n b where n: "r = Inr n" "n > 0" "isWriting (tc_channel s)" and b: "retrieve n ?out = Inr b"
    by (auto simp: tc_handleWrite_def res_simps split: if_splits sum.splits)
  from bq.pop_result [OF _ b] o have p: "buffer_wf b" "n \<le> length (peek ?out)" "peek b = drop n (peek ?out)" "buffer_room ?out \<le> buffer_room b"
    by auto
  have st: "tc_state s \<noteq> kDisconnected" using o n(3) by blast
  let ?s1 = "s\<lparr>written := written s @ take n (peek ?out), outputBuffer := b\<rparr>"
  have stream: "written ?s1 @ peek b = accepted s" "send_limit \<le> buffer_room b + length (accepted s)"
    using o p(3,4) append_take_drop_id [of n "peek ?out"] by auto
  show ?thesis
  proof (cases "peek b = []")
    case False
    then have "s' = ?s1" using run n b readableBytes_0 [OF p(1)] by (simp add: tc_handleWrite_def Let_def)
    then show ?thesis using o p stream False n st by (simp add: stream_step_def stream_ok_def)
  next
    case True
    let ?s2 = "tc_update (\<lambda>ev. ev AND NOT kWriteEvent) ?s1"
    let ?s3 = "if hasWriteCompleteCallback ?s2 then tc_log [WriteCompleteQueued] ?s2 else ?s2"
    have "tc_handleWrite r s = Inr (if tc_state ?s3 = kDisconnecting then shutdownInLoop ?s3 else ?s3)"
      using n b readableBytes_0 [OF p(1)] True by (simp add: tc_handleWrite_def Let_def)
    then have s': "s' = (if tc_state ?s3 = kDisconnecting then shutdownInLoop ?s3 else ?s3)"
      using run by (simp only: sum.inject)
    have "stream_ok k ?s3" using o p stream True st by (simp add: stream_ok_def)
    then have "stream_step k ?s3 s'"
      using s' shutdownInLoop_step [of k ?s3] st by (simp add: stream_step_refl)
    moreover have "shut ?s3 = shut s" "tc_state ?s3 = tc_state s" by simp_all
    ultimately show ?thesis using st by (auto simp: stream_step_def)
  qed
qed

text \<open>The channel callbacks take no data; a sequence of them is a step as well.\<close>

definition callback_step :: "nat \<Rightarrow> tcp_conn \<Rightarrow> tcp_conn \<Rightarrow> bool" where
  "callback_step k s s' \<longleftrightarrow> stream_step k s s' \<and> accepted s' = accepted s \<and> (written s = accepted s \<longrightarrow> written s' = accepted s)"

lemma callback_step_trans:
  assumes "callback_step k s s1" "callback_step k s1 s2"
  shows "callback_step k s s2"
  using assms by (auto simp: callback_step_def stream_step_def)

lemma handleClose_frame: "tc_handleClose s = Inr s' \<Longrightarrow> accepted s' = accepted s \<and> written s' = written s"
  by (auto simp: tc_handleClose_def Let_def res_simps)

lemma handleRead_frame: "tc_handleRead r t s = Inr s' \<Longrightarrow> accepted s' = accepted s \<and> written s' = written s"
  using handleClose_frame
  by (cases "readFd r (inputBuffer s)") (fastforce simp: tc_handleRead_def tc_handleError_def Let_def split: if_splits)+

lemma handleWrite_frame: "tc_handleWrite r s = Inr s' \<Longrightarrow> accepted s' = accepted s"
  by (auto simp: tc_handleWrite_def Let_def shutdownInLoop_def res_simps split: if_splits sum.splits)

lemma handleWrite_idle: "\<not> isWriting (tc_channel s) \<Longrightarrow> tc_handleWrite r s = Inr s"
  by (simp add: tc_handleWrite_def)

lemma run_chan_call_step:
  assumes ok: "stream_ok k s" and run: "run_chan_call rd wr c s = Inr s'"
  shows "callback_step k s s'"
proof (cases c)
  case CloseCall
  then show ?thesis
    using run handleClose_step [OF ok] handleClose_frame [of s s'] by (simp add: callback_step_def run_chan_call_def)
next
  case ErrorCall
  then show ?thesis
    using run ok stream_step_refl by (auto simp: callback_step_def run_chan_call_def tc_handleError_def)
next
  case (ReadCall t)
  then show ?thesis
    using run handleRead_step [OF ok] handleRead_frame [of rd t s s'] by (simp add: callback_step_def run_chan_call_def)
next
  case WriteCall
  then have w: "tc_handleWrite wr s = Inr s'" using run by (simp add: run_chan_call_def)
  have "written s' = accepted s" if "written s = accepted s"
  proof -
    have "\<not> isWriting (tc_channel s)" using ok that by (auto simp: stream_ok_def)
    then show ?thesis using handleWrite_idle w that by auto
  qed
  then show ?thesis using handleWrite_step [OF ok w] handleWrite_frame [OF w] by (simp add: callback_step_def)
qed

lemma fold_calls_step:
  assumes "fold_res (run_chan_call rd wr) cs s = Inr s'" and "stream_ok k s"
  shows "callback_step k s s'"
  using assms
proof (induction cs arbitrary: s)
  case Nil
  then show ?case by (simp add: callback_step_def stream_step_refl)
next
  case (Cons c cs)
  then obtain s1 where s1: "run_chan_call rd wr c s = Inr s1" "fold_res (run_chan_call rd wr) cs s1 = Inr s'"
    by (cases "run_chan_call rd wr c s") simp_all
  have "callback_step k s s1" by (rule run_chan_call_step [OF Cons.prems(2) s1(1)])
  moreover have "callback_step k s1 s'"
    by (rule Cons.IH [OF s1(2)]) (use calculation in \<open>simp add: callback_step_def stream_step_def\<close>)
  ultimately show ?case by (rule callback_step_trans)
qed

lemma tie_isWriting [simp]: "isWriting (tie ch) = isWriting ch"
  by (simp add: isWriting_def tie_def)

lemma tc_exec_stream:
  assumes ok: "stream_ok (weight e + k) s" and run: "tc_exec e s = Inr s'"
  shows "stream_step k s s'"
proof (cases e)
  case Established
  then show ?thesis
    using run ok by (intro stream_step_trivial) (auto simp: weight_def tc_exec_def connectEstablished_def Let_def res_simps)
next
  case Destroyed
  then show ?thesis
    using run ok by (intro stream_step_trivial)
     (auto simp: weight_def tc_exec_def connectDestroyed_def tc_remove_def isWriting_def has_event_def isNoneEvent_def kNoneEvent_def Let_def res_simps split: if_splits)
next
  case (Send m r)
  show ?thesis
  proof (cases "tc_state s = kConnected")
    case True
    then show ?thesis using run ok Send sendInLoop_result [of m k s r s'] by (simp add: weight_def tc_exec_def send_def stream_step_def)
  next
    case False
    then have "stream_ok k s" "s' = s" using ok run Send by (auto simp: weight_def stream_ok_def tc_exec_def send_def)
    then show ?thesis by (simp add: stream_step_refl)
  qed
next
  case (OtherSend m)
  then have "s' = send_queued m s" using run by (simp add: tc_exec_def)
  then show ?thesis using ok OtherSend by (auto simp: stream_step_def stream_ok_def weight_def send_queued_def)
next
  case (RunSend r)
  show ?thesis
  proof (cases "sends_queued s")
    case Nil
    then show ?thesis using run ok RunSend by (simp add: tc_exec_def weight_def stream_step_refl)
  next
    case (Cons m ms)
    let ?s = "s\<lparr>sends_queued := ms\<rparr>"
    have "stream_ok (length m + k) ?s" using ok RunSend Cons by (simp add: weight_def stream_ok_def)
    moreover have "sendInLoop m r ?s = Inr s'" using run RunSend Cons by (simp add: tc_exec_def)
    ultimately show ?thesis using sendInLoop_result [of m k ?s r s'] by (auto simp: stream_step_def sendInLoop_def)
  qed
next
  case Shutdown
  then have "s' = shutdown s" using run by (simp add: tc_exec_def)
  moreover have "stream_ok k s" using ok Shutdown by (simp add: weight_def)
  ultimately show ?thesis
    using shutdownInLoop_step [of k "s\<lparr>tc_state := kDisconnecting\<rparr>"]
    by (auto simp: shutdown_def stream_step_def stream_ok_def)
next
  case (Dispatch rev t rd wr)
  then have "stream_ok k s" using ok by (simp add: weight_def)
  then show ?thesis
    using run Dispatch fold_calls_step [of rd wr _ s s' k]
    by (auto simp: tc_exec_def tc_dispatch_def callback_step_def stream_step_refl split: if_splits)
next
  case RunForceClose
  then show ?thesis
    using run ok handleClose_step [of k "s\<lparr>closes_queued := closes_queued s - 1\<rparr>" s']
    by (auto simp: tc_exec_def weight_def stream_step_def stream_ok_def forceCloseInLoop_def split: if_splits)
qed (use run ok in \<open>auto simp: tc_exec_def weight_def stream_step_def stream_ok_def forceClose_def startReadInLoop_def
      stopReadInLoop_def res_simps split: if_splits\<close>)

lemma tc_run_stream:
  assumes "fold_res tc_exec es s = Inr s'" and "stream_ok (sum_list (map weight es) + k) s"
  shows "stream_ok k s'"
  using assms
proof (induction es arbitrary: s)
  case (Cons e es)
  then obtain s1 where s1: "tc_exec e s = Inr s1" "fold_res tc_exec es s1 = Inr s'"
    by (cases "tc_exec e s") simp_all
  have "stream_ok (weight e + (sum_list (map weight es) + k)) s" using Cons.prems(2) by (simp add: add.assoc)
  then have "stream_ok (sum_list (map weight es) + k) s1"
    using tc_exec_stream [OF _ s1(1)] by (auto simp: stream_step_def)
  with s1(2) show ?case by (rule Cons.IH)
qed simp

lemma stream_ok_mono: "stream_ok k s \<Longrightarrow> k' \<le> k \<Longrightarrow> stream_ok k' s"
  by (simp add: stream_ok_def)

lemma tc_run_stream_new:
  assumes "fold_res tc_exec es (new_TcpConnection fd) = Inr s" and "sum_list (map weight es) + k \<le> send_limit"
  shows "stream_ok k s"
proof -
  have "stream_ok (sum_list (map weight es) + k) (new_TcpConnection fd)"
    by (rule stream_ok_mono [OF stream_ok_new assms(2)])
  with assms(1) show ?thesis by (rule tc_run_stream)
qed

section \<open>Callbacks of the life cycle\<close>

definition life_calls :: "tcp_conn \<Rightarrow> conn_call list" where
  "life_calls s = filter (\<lambda>c. c \<in> {ConnectionCb True, ConnectionCb False, CloseCb}) (calls s)"

definition life_ok :: "tcp_conn \<Rightarrow> bool" where
  "life_ok s \<longleftrightarrow> (tc_state s, life_calls s) \<in> {(kConnecting, []), (kConnected, [ConnectionCb True]),
     (kDisconnecting, [ConnectionCb True]), (kDisconnected, [ConnectionCb True, ConnectionCb False]),
     (kDisconnected, [ConnectionCb True, ConnectionCb False, CloseCb])}"

lemma life_calls_log [simp]:
  "life_calls (tc_log cs s) = life_calls s @ filter (\<lambda>c. c \<in> {ConnectionCb True, ConnectionCb False, CloseCb}) cs"
  "life_calls (tc_update f s) = life_calls s"
  by (simp_all add: life_calls_def)

lemma life_calls_cong: "calls s' = calls s \<Longrightarrow> life_calls s' = life_calls s"
  by (simp add: life_calls_def)

lemma life_ok_cong: "life_ok s \<Longrightarrow> tc_state s' = tc_state s \<Longrightarrow> life_calls s' = life_calls s \<Longrightarrow> life_ok s'"
  by (simp add: life_ok_def)

lemma life_calls_upd [simp]:
  "life_calls (s\<lparr>tc_state := x1\<rparr>) = life_calls s" "life_calls (s\<lparr>tc_channel := x2\<rparr>) = life_calls s"
  "life_calls (s\<lparr>inputBuffer := x3\<rparr>) = life_calls s" "life_calls (s\<lparr>outputBuffer := x4\<rparr>) = life_calls s"
  "life_calls (s\<lparr>shut := x5\<rparr>) = life_calls s" "life_calls (s\<lparr>written := x6\<rparr>) = life_calls s"
  "life_calls (s\<lparr>accepted := x7\<rparr>) = life_calls s" "life_calls (s\<lparr>sends_queued := x8\<rparr>) = life_calls s"
  "life_calls (s\<lparr>closes_queued := x9\<rparr>) = life_calls s" "life_calls (s\<lparr>reading := x10\<rparr>) = life_calls s"
  by (simp_all add: life_calls_def)

definition same_life :: "tcp_conn \<Rightarrow> tcp_conn \<Rightarrow> bool" where
  "same_life s s' \<longleftrightarrow> tc_state s' = tc_state s \<and> life_calls s' = life_calls s"

lemma direct_write_life: "same_life s (snd (snd (direct_write data r s)))"
  by (auto simp: same_life_def direct_write_def Let_def split: sum.splits)

lemma queue_rest_life: "queue_rest data n s = Inr s' \<Longrightarrow> same_life s s'"
  by (cases "buf_append (drop n data) (outputBuffer s)") (auto simp: same_life_def queue_rest_def Let_def res_simps)

lemma sendInLoop_life:
  assumes "sendInLoop data r s = Inr s'"
  shows "same_life s s'"
proof (cases "tc_state s = kDisconnected")
  case True
  then show ?thesis using assms by (simp add: sendInLoop_def same_life_def)
next
  case False
  obtain n f s1 where d: "direct_write data r s = (n, f, s1)" by (cases "direct_write data r s") auto
  have "same_life s s1" using direct_write_life [of s data r] d by simp
  then show ?thesis
    using assms d False queue_rest_life [of data n s1 s'] by (auto simp: sendInLoop_def same_life_def res_simps split: if_splits)
qed

lemma handleClose_life: "life_ok s \<Longrightarrow> tc_handleClose s = Inr s' \<Longrightarrow> life_ok s'"
  by (auto simp: tc_handleClose_def Let_def life_ok_def res_simps)

lemma handleRead_life:
  assumes "life_ok s" and "tc_handleRead r t s = Inr s'"
  shows "life_ok s'"
proof (cases "readFd r (inputBuffer s)")
  case (Inr x)
  then obtain n e b where x: "readFd r (inputBuffer s) = Inr (n, e, b)" by (cases x) simp
  have "life_ok (s\<lparr>inputBuffer := b\<rparr>)" using assms(1) by (simp add: life_ok_def)
  then show ?thesis
    using assms(2) handleClose_life [of "s\<lparr>inputBuffer := b\<rparr>" s'] x
    by (auto simp: tc_handleRead_def tc_handleError_def Let_def life_ok_def split: if_splits)
qed (use assms(2) in \<open>simp add: tc_handleRead_def\<close>)

lemma handleWrite_life: "tc_handleWrite r s = Inr s' \<Longrightarrow> same_life s s'"
  by (auto simp: same_life_def tc_handleWrite_def Let_def shutdownInLoop_def res_simps split: if_splits sum.splits)

lemma run_chan_call_life:
  assumes "life_ok s" and "run_chan_call rd wr c s = Inr s'"
  shows "life_ok s'"
  using assms handleClose_life [of s s'] handleRead_life [of s rd _ s'] handleWrite_life [of wr s s']
  by (cases c) (auto simp: run_chan_call_def tc_handleError_def same_life_def intro: life_ok_cong)

lemma fold_calls_life:
  "fold_res (run_chan_call rd wr) cs s = Inr s' \<Longrightarrow> life_ok s \<Longrightarrow> life_ok s'"
  by (rule fold_res_inv [where P = life_ok and f = "run_chan_call rd wr" and xs = cs and s = s]) (auto intro: run_chan_call_life)

lemma tc_exec_life:
  assumes ok: "life_ok s" and run: "tc_exec e s = Inr s'"
  shows "life_ok s'"
proof (cases e)
  case (Send m r)
  then show ?thesis
    using run ok sendInLoop_life [of m r s s'] by (auto simp: tc_exec_def send_def same_life_def intro: life_ok_cong split: if_splits)
next
  case (RunSend r)
  then show ?thesis
    using run ok sendInLoop_life [of "hd (sends_queued s)" r "s\<lparr>sends_queued := tl (sends_queued s)\<rparr>" s']
    by (auto simp: tc_exec_def same_life_def intro: life_ok_cong split: list.splits)
next
  case RunForceClose
  then show ?thesis
    using run ok handleClose_life [of "s\<lparr>closes_queued := closes_queued s - 1\<rparr>" s']
    by (auto simp: tc_exec_def forceCloseInLoop_def life_ok_def split: if_splits)
next
  case (Dispatch rev t rd wr)
  then show ?thesis
    using run ok fold_calls_life [of rd wr _ s s'] by (auto simp: tc_exec_def tc_dispatch_def split: if_splits)
next
  case Destroyed
  then show ?thesis
    using run ok by (auto simp: tc_exec_def connectDestroyed_def tc_remove_def Let_def life_ok_def res_simps split: if_splits)
next
  case Shutdown
  then show ?thesis using run ok by (auto simp: tc_exec_def shutdown_def shutdownInLoop_def life_ok_def split: if_splits)
next
  case ForceClose
  then show ?thesis using run ok by (auto simp: tc_exec_def forceClose_def life_ok_def split: if_splits)
next
  case Established
  then show ?thesis using run ok by (auto simp: tc_exec_def connectEstablished_def Let_def life_ok_def res_simps)
qed (use run ok in \<open>auto simp: tc_exec_def send_queued_def startReadInLoop_def stopReadInLoop_def res_simps intro: life_ok_cong split: if_splits\<close>)

text \<open>(C2) Output integrity: after every run of a connection in which no more bytes are handed to it than
  a buffer can hold, the bytes the kernel took, followed by the output buffer, are the bytes accepted
  from the user in order; the connection waits for writability exactly while the buffer holds bytes, and
  the next event sets the write side shut only at a moment when the kernel took everything.\<close>

theorem tcp_stream_integrity:
  assumes "fold_res tc_exec es (new_TcpConnection fd) = Inr s" and "sum_list (map weight (es @ [e])) \<le> send_limit"
  shows "written s @ peek (outputBuffer s) = accepted s
     \<and> (isWriting (tc_channel s) \<longleftrightarrow> tc_state s \<noteq> kDisconnected \<and> peek (outputBuffer s) \<noteq> [])
     \<and> (\<forall>s'. tc_exec e s = Inr s' \<longrightarrow> shut s' \<longrightarrow> shut s \<or> written s' = accepted s')"
proof -
  have ok: "stream_ok (weight e + 0) s"
    by (rule tc_run_stream_new [OF assms(1)]) (use assms(2) in simp)
  have "shut s \<or> written s' = accepted s'" if "tc_exec e s = Inr s'" "shut s'" for s'
    using tc_exec_stream [OF ok that(1)] that(2) by (simp add: stream_step_def)
  then show ?thesis using ok by (simp add: stream_ok_def)
qed

lemmas tc_eval = tc_exec_def connectEstablished_def send_def sendInLoop_def direct_write_def new_TcpConnection_def Let_def
  setErrorCallback_def setCloseCallback_def setWriteCallback_def setReadCallback_def new_Channel_def tie_def

lemma new_output_room: "buffer_wf (new_Buffer kInitialSize)" "peek (new_Buffer kInitialSize) = []" "4 \<le> buffer_room (new_Buffer kInitialSize)"
  using new_Buffer_wf [of kInitialSize]
  by (simp_all add: peek_def slice_of_def buffer_room_def new_Buffer_def kCheapPrepend_def kInitialSize_def vector_max_size_def)

lemma ex_partial_send:
  "\<exists>s. fold_res tc_exec [Established, Send [1, 2, 3] (Inr 1)] (new_TcpConnection 7) = Inr s
     \<and> tc_state s = kConnected \<and> written s = [1] \<and> peek (outputBuffer s) = [2, 3] \<and> isWriting (tc_channel s) \<and> \<not> shut s"
proof -
  obtain b where b: "buf_append [2, 3] (new_Buffer kInitialSize) = Inr b" "peek b = [2, 3]"
    using bq.push_ok [of "new_Buffer kInitialSize" "[2, 3]"] new_output_room by auto
  then show ?thesis
    using readableBytes_0 [OF new_output_room(1)] new_output_room(2)
    by (simp add: tc_eval queue_rest_def tc_update_def tc_log_def isWriting_def has_event_def kReadEvent_def kWriteEvent_def poll_masks)
qed

theorem tcp_stream_integrity_witness:
  "\<exists>s. fold_res tc_exec [Established, Send [1, 2, 3] (Inr 1)] (new_TcpConnection 7) = Inr s
     \<and> accepted s = [1, 2, 3] \<and> isWriting (tc_channel s)"
proof -
  obtain s where s: "fold_res tc_exec [Established, Send [1, 2, 3] (Inr 1)] (new_TcpConnection 7) = Inr s"
      "written s = [1]" "peek (outputBuffer s) = [2, 3]" "tc_state s = kConnected"
    using ex_partial_send by blast
  have "sum_list (map weight ([Established, Send [1, 2, 3] (Inr 1)] @ [Shutdown])) \<le> send_limit"
    using new_output_room(3) by (simp add: weight_def send_limit_def)
  from tcp_stream_integrity [OF s(1) this] s show ?thesis by auto
qed

text \<open>(C16) Life cycle: in every run the user's connection callback goes up at most once, goes down at
  most once and only after it went up, and the close callback follows the going down at most once;
  which of them has happened is determined by the state.\<close>

theorem tcp_life_cycle:
  assumes "fold_res tc_exec es (new_TcpConnection fd) = Inr s"
  shows "prefix (life_calls s) [ConnectionCb True, ConnectionCb False, CloseCb]
     \<and> (life_calls s = [] \<longleftrightarrow> tc_state s = kConnecting)
     \<and> (life_calls s = [ConnectionCb True] \<longleftrightarrow> tc_state s = kConnected \<or> tc_state s = kDisconnecting)"
proof -
  have "life_ok (new_TcpConnection fd)" by (simp add: life_ok_def life_calls_def new_TcpConnection_def)
  then have "life_ok s"
    by (rule fold_res_inv [OF _ assms]) (auto intro: tc_exec_life)
  then show ?thesis
    by (cases "tc_state s") (auto simp: life_ok_def)
qed

theorem tcp_life_cycle_witness:
  "\<exists>s. fold_res tc_exec [Established, ForceClose, RunForceClose] (new_TcpConnection 7) = Inr s
     \<and> prefix (life_calls s) [ConnectionCb True, ConnectionCb False, CloseCb]
     \<and> life_calls s \<noteq> [] \<and> life_calls s \<noteq> [ConnectionCb True]"
proof -
  obtain s where s: "fold_res tc_exec [Established, ForceClose, RunForceClose] (new_TcpConnection 7) = Inr s" "tc_state s = kDisconnected"
    by (simp add: tc_eval forceClose_def forceCloseInLoop_def tc_handleClose_def tc_update_def tc_log_def)
  then show ?thesis using tcp_life_cycle [OF s(1)] by simp
qed


section \<open>Draining a half closed connection\<close>

text \<open>All callbacks are set, and a channel that waits for events is registered.\<close>

definition wired :: "tcp_conn \<Rightarrow> bool" where
  "wired s \<longleftrightarrow> ch_writeCallback (tc_channel s) \<and> (ch_events (tc_channel s) \<noteq> kNoneEvent \<longrightarrow> ch_addedToLoop (tc_channel s))"

lemma wired_upd [simp]:
  "wired (tc_log cs s) = wired s" "wired (s\<lparr>tc_state := x1\<rparr>) = wired s" 
  "wired (s\<lparr>inputBuffer := x3\<rparr>) = wired s" "wired (s\<lparr>outputBuffer := x4\<rparr>) = wired s"
  "wired (s\<lparr>shut := x5\<rparr>) = wired s" "wired (s\<lparr>written := x6\<rparr>) = wired s"
  "wired (s\<lparr>accepted := x7\<rparr>) = wired s" "wired (s\<lparr>sends_queued := x8\<rparr>) = wired s"
  "wired (s\<lparr>closes_queued := x9\<rparr>) = wired s" "wired (s\<lparr>reading := x10\<rparr>) = wired s"
  by (simp_all add: wired_def)

lemma wired_update [simp]: "wired s \<Longrightarrow> wired (tc_update f s)"
  by (simp add: wired_def)

lemma direct_write_wired: "wired s \<Longrightarrow> wired (snd (snd (direct_write data r s)))"
  by (auto simp: direct_write_def Let_def split: sum.splits)

lemma queue_rest_wired: "wired s \<Longrightarrow> queue_rest data n s = Inr s' \<Longrightarrow> wired s'"
  by (cases "buf_append (drop n data) (outputBuffer s)") (auto simp: queue_rest_def Let_def res_simps)

lemma sendInLoop_wired:
  assumes "wired s" and "sendInLoop data r s = Inr s'"
  shows "wired s'"
proof (cases "tc_state s = kDisconnected")
  case True
  then show ?thesis using assms by (simp add: sendInLoop_def)
next
  case False
  obtain n f s1 where d: "direct_write data r s = (n, f, s1)" by (cases "direct_write data r s") auto
  have "wired s1" using direct_write_wired [OF assms(1), of data r] d by simp
  then show ?thesis
    using assms(2) d False queue_rest_wired [of s1 data n s'] by (auto simp: sendInLoop_def res_simps split: if_splits)
qed

lemma handleClose_wired: "wired s \<Longrightarrow> tc_handleClose s = Inr s' \<Longrightarrow> wired s'"
  by (auto simp: tc_handleClose_def Let_def res_simps)

lemma handleRead_wired:
  assumes "wired s" and "tc_handleRead r t s = Inr s'"
  shows "wired s'"
proof (cases "readFd r (inputBuffer s)")
  case (Inr x)
  then obtain n e b where x: "readFd r (inputBuffer s) = Inr (n, e, b)" by (cases x) simp
  then show ?thesis
    using assms handleClose_wired [of "s\<lparr>inputBuffer := b\<rparr>" s']
    by (auto simp: tc_handleRead_def tc_handleError_def Let_def split: if_splits)
qed (use assms(2) in \<open>simp add: tc_handleRead_def\<close>)

lemma handleWrite_wired: "wired s \<Longrightarrow> tc_handleWrite r s = Inr s' \<Longrightarrow> wired s'"
  by (auto simp: tc_handleWrite_def Let_def shutdownInLoop_def res_simps split: if_splits sum.splits)

lemma run_chan_call_wired:
  assumes "wired s" and "run_chan_call rd wr c s = Inr s'"
  shows "wired s'"
proof (cases c)
  case CloseCall
  then show ?thesis using assms by (simp add: run_chan_call_def handleClose_wired)
next
  case ErrorCall
  then show ?thesis using assms by (simp add: run_chan_call_def tc_handleError_def)
next
  case (ReadCall t)
  then show ?thesis using assms handleRead_wired [of s rd t s'] by (simp add: run_chan_call_def)
next
  case WriteCall
  then show ?thesis using assms handleWrite_wired [of s wr s'] by (simp add: run_chan_call_def)
qed

lemma tc_exec_wired:
  assumes ok: "wired s" and run: "tc_exec e s = Inr s'"
  shows "wired s'"
proof (cases e)
  case (RunSend r)
  then show ?thesis
    using run ok sendInLoop_wired [of "s\<lparr>sends_queued := tl (sends_queued s)\<rparr>" "hd (sends_queued s)" r s']
    by (auto simp: tc_exec_def split: list.splits)
next
  case (Dispatch rev t rd wr)
  have "wired s'" if "fold_res (run_chan_call rd wr) cs s = Inr s'" for cs
    by (rule fold_res_inv [of wired, OF ok that]) (rule run_chan_call_wired)
  then show ?thesis using run ok Dispatch by (auto simp: tc_exec_def tc_dispatch_def split: if_splits)
next
  case Destroyed
  then show ?thesis
    using run ok by (auto simp: tc_exec_def connectDestroyed_def tc_remove_def Let_def wired_def isNoneEvent_def res_simps)
next
  case Established
  have "wired (s\<lparr>tc_state := kConnected, tc_channel := tie (tc_channel s)\<rparr>)" using ok by (simp add: wired_def tie_def)
  then show ?thesis using run Established by (auto simp: tc_exec_def connectEstablished_def Let_def res_simps)
next
  case (Send m r)
  then show ?thesis using run ok sendInLoop_wired [OF ok] by (simp add: tc_exec_def send_def split: if_splits)
next
  case RunForceClose
  let ?s = "s\<lparr>closes_queued := closes_queued s - 1\<rparr>"
  have "wired ?s" using ok by simp
  then show ?thesis
    using run ok RunForceClose handleClose_wired [of ?s s'] by (auto simp: tc_exec_def forceCloseInLoop_def split: if_splits)
next
  case (Consume n)
  then show ?thesis using run ok by (auto simp: tc_exec_def res_simps)
qed (use run ok in \<open>auto simp: tc_exec_def send_queued_def startReadInLoop_def stopReadInLoop_def shutdown_def
    shutdownInLoop_def forceClose_def split: if_splits\<close>)

lemma dispatch_out:
  assumes "wired s" and "isWriting (tc_channel s)"
  shows "tc_exec (Dispatch POLLOUT t rd wr) s = tc_handleWrite wr s"
proof -
  have "ch_addedToLoop (tc_channel s)" "ch_writeCallback (tc_channel s)"
    using assms by (auto simp: wired_def isWriting_def has_event_def kNoneEvent_def)
  then show ?thesis
    by (cases "tc_handleWrite wr s") (simp_all add: tc_exec_def tc_dispatch_def handleEvent_def handleEventWithGuard_def
        set_revents_def has_event_def poll_masks run_chan_call_def Let_def)
qed

text \<open>One write of a half closed connection.\<close>

lemma handleWrite_half_closed:
  assumes ok: "stream_ok k s" and st: "tc_state s = kDisconnecting" and n: "0 < n" "n \<le> length (peek (outputBuffer s))"
  shows "\<exists>s'. tc_handleWrite (Inr n) s = Inr s' \<and> tc_state s' = kDisconnecting \<and> peek (outputBuffer s') = drop n (peek (outputBuffer s))
     \<and> (n = length (peek (outputBuffer s)) \<longrightarrow> shut s')"
proof -
  note o = ok [unfolded stream_ok_def]
  have "peek (outputBuffer s) \<noteq> []" using n by auto
  with o st have w: "isWriting (tc_channel s)" by simp
  from bq.pop_ok [of "outputBuffer s" n] o n(2) obtain b where b: "retrieve n (outputBuffer s) = Inr b" "buffer_wf b"
      "peek b = drop n (peek (outputBuffer s))" by auto
  show ?thesis
    using w n(1) b(1,3) st readableBytes_0 [OF b(2)]
    by (simp add: tc_handleWrite_def shutdownInLoop_def Let_def)
qed

lemma drain_half_closed:
  assumes "stream_ok k s" "wired s" "tc_state s = kDisconnecting" "peek (outputBuffer s) \<noteq> []"
    "\<forall>n\<in>set ns. 0 < n" "sum_list ns = length (peek (outputBuffer s))"
  shows "\<exists>s'. fold_res tc_exec (map (\<lambda>n. Dispatch POLLOUT t rd (Inr n)) ns) s = Inr s'
     \<and> shut s' \<and> written s' = accepted s \<and> peek (outputBuffer s') = []"
  using assms
proof (induction ns arbitrary: s)
  case (Cons n ns)
  have n: "0 < n" "n \<le> length (peek (outputBuffer s))" using Cons.prems(5,6) by auto
  have "isWriting (tc_channel s)" using Cons.prems(1,3,4) by (simp add: stream_ok_def)
  then have ex: "tc_exec (Dispatch POLLOUT t rd (Inr n)) s = tc_handleWrite (Inr n) s"
    by (rule dispatch_out [OF Cons.prems(2)])
  obtain s1 where s1: "tc_handleWrite (Inr n) s = Inr s1" "tc_state s1 = kDisconnecting"
      "peek (outputBuffer s1) = drop n (peek (outputBuffer s))" "n = length (peek (outputBuffer s)) \<longrightarrow> shut s1"
    using handleWrite_half_closed [OF Cons.prems(1,3) n] by blast
  have ok1: "stream_ok k s1" using handleWrite_step [OF Cons.prems(1) s1(1)] by (simp add: stream_step_def)
  have acc: "accepted s1 = accepted s" by (rule handleWrite_frame [OF s1(1)])
  have wired1: "wired s1" by (rule handleWrite_wired [OF Cons.prems(2) s1(1)])
  show ?case
  proof (cases "n = length (peek (outputBuffer s))")
    case True
    then have "ns = []" using Cons.prems(5,6) by (cases ns) auto
    moreover have "written s1 = accepted s" using ok1 s1(3) True acc by (simp add: stream_ok_def)
    ultimately show ?thesis using ex s1 True by simp
  next
    case False
    then have "peek (outputBuffer s1) \<noteq> []" "sum_list ns = length (peek (outputBuffer s1))"
      using s1(3) n Cons.prems(6) by auto
    then obtain s2 where "fold_res tc_exec (map (\<lambda>n. Dispatch POLLOUT t rd (Inr n)) ns) s1 = Inr s2"
        "shut s2 \<and> written s2 = accepted s1 \<and> peek (outputBuffer s2) = []"
      using Cons.IH [OF ok1 wired1 s1(2)] Cons.prems(5) by auto
    then show ?thesis using ex s1(1) acc by simp
  qed
qed simp

text \<open>(C17) Graceful close: a connection that was half closed with bytes still in its output buffer shuts its
  write side down once the kernel took them, in however many writes, and all that was accepted has been
  written by then.\<close>

theorem tcp_graceful_close:
  assumes "fold_res tc_exec es (new_TcpConnection fd) = Inr s" and "sum_list (map weight es) \<le> send_limit"
    and "tc_state s = kDisconnecting" and "peek (outputBuffer s) \<noteq> []"
    and "\<forall>n\<in>set ns. 0 < n" and "sum_list ns = length (peek (outputBuffer s))"
  shows "\<exists>s'. fold_res tc_exec (map (\<lambda>n. Dispatch POLLOUT t rd (Inr n)) ns) s = Inr s'
     \<and> shut s' \<and> written s' = accepted s \<and> peek (outputBuffer s') = []"
proof -
  have ok: "stream_ok 0 s" by (rule tc_run_stream_new [OF assms(1)]) (use assms(2) in simp)
  have "wired (new_TcpConnection fd)"
    by (simp add: wired_def new_TcpConnection_def setErrorCallback_def setCloseCallback_def setWriteCallback_def
        setReadCallback_def new_Channel_def kNoneEvent_def)
  then have "wired s" by (rule fold_res_inv [OF _ assms(1)]) (rule tc_exec_wired)
  then show ?thesis by (rule drain_half_closed [OF ok _ assms(3-6)])
qed

theorem tcp_graceful_close_witness:
  "\<exists>s s'. fold_res tc_exec [Established, Send [1, 2, 3] (Inr 1), Shutdown] (new_TcpConnection 7) = Inr s
     \<and> \<not> shut s \<and> fold_res tc_exec [Dispatch POLLOUT 0 (Inr []) (Inr 1), Dispatch POLLOUT 0 (Inr []) (Inr 1)] s = Inr s'
     \<and> shut s' \<and> written s' = accepted s"
proof -
  obtain s0 where s0: "fold_res tc_exec [Established, Send [1, 2, 3] (Inr 1)] (new_TcpConnection 7) = Inr s0"
      "tc_state s0 = kConnected" "peek (outputBuffer s0) = [2, 3]" "isWriting (tc_channel s0)" "\<not> shut s0"
    using ex_partial_send by blast
  let ?s = "s0\<lparr>tc_state := kDisconnecting\<rparr>"
  have run: "fold_res tc_exec ([Established, Send [1, 2, 3] (Inr 1)] @ [Shutdown]) (new_TcpConnection 7) = Inr ?s"
    unfolding fold_res_append s0(1) using s0 by (simp add: tc_exec_def shutdown_def shutdownInLoop_def)
  have "sum_list (map weight ([Established, Send [1, 2, 3] (Inr 1)] @ [Shutdown])) \<le> send_limit"
    using new_output_room(3) by (simp add: weight_def send_limit_def)
  from tcp_graceful_close [OF run this, of "[1, 1]" 0 "Inr []"] s0(3,5) run show ?thesis by auto
qed

end
