(* ===== verification/Str_Ops.thy ===== *)
theory Str_Ops
  imports Net_Prelude "HOL-Library.Sublist" "HOL-Library.Multiset"
begin

text \<open>
  \<^verbatim>\<open>src/common/Strops.cpp\<close>: the string utilities \<open>EasyString\<close>. Strings are character lists;
  positions are natural numbers with \<open>None\<close> for \<open>npos\<close>. Where the code subtracts positions of type
  \<open>size_t\<close> the wrap-around is written out. The two loops that need not end are partial functions whose
  value \<open>None\<close> means that the loop runs forever.
\<close>

section \<open>The members of \<open>std::string\<close> the code uses\<close>

fun first_idx :: "('a \<Rightarrow> bool) \<Rightarrow> 'a list \<Rightarrow> nat option" where
  "first_idx P [] = None"
| "first_idx P (x # xs) = (if P x then Some 0 else map_option Suc (first_idx P xs))"

fun match_idx :: "string \<Rightarrow> string \<Rightarrow> nat option" where
  "match_idx pat [] = (if pat = [] then Some 0 else None)"
| "match_idx pat (x # xs) = (if prefix pat (x # xs) then Some 0 else map_option Suc (match_idx pat xs))"

definition str_find :: "string \<Rightarrow> string \<Rightarrow> nat \<Rightarrow> nat option" where
  "str_find s pat pos = (if pos \<le> length s then map_option ((+) pos) (match_idx pat (drop pos s)) else None)"

definition find_first_of :: "string \<Rightarrow> string \<Rightarrow> nat \<Rightarrow> nat option" where
  "find_first_of s cs pos = map_option ((+) pos) (first_idx (\<lambda>c. c \<in> set cs) (drop pos s))"

definition find_first_not_of :: "string \<Rightarrow> string \<Rightarrow> nat \<Rightarrow> nat option" where
  "find_first_not_of s cs pos = map_option ((+) pos) (first_idx (\<lambda>c. c \<notin> set cs) (drop pos s))"

definition find_last_not_of :: "string \<Rightarrow> string \<Rightarrow> nat option" where
  "find_last_not_of s cs = map_option (\<lambda>i. length s - 1 - i) (first_idx (\<lambda>c. c \<notin> set cs) (rev s))"

fun rfind_upto :: "string \<Rightarrow> string \<Rightarrow> nat \<Rightarrow> nat option" where
  "rfind_upto s pat 0 = (if prefix pat s then Some 0 else None)"
| "rfind_upto s pat (Suc i) = (if prefix pat (drop (Suc i) s) then Some (Suc i) else rfind_upto s pat i)"

definition str_rfind :: "string \<Rightarrow> string \<Rightarrow> nat option" where
  "str_rfind s pat = (if length pat \<le> length s then rfind_upto s pat (length s - length pat) else None)"

definition substr :: "string \<Rightarrow> nat \<Rightarrow> nat \<Rightarrow> string" where
  "substr s pos n = take n (drop pos s)"

section \<open>Trimming and splitting\<close>

partial_function (option) split_loop :: "string \<Rightarrow> string \<Rightarrow> nat \<Rightarrow> string list \<Rightarrow> string list option" where
  "split_loop str token i res =
     (if i < length str then
        (case str_find str token i of
           Some pos \<Rightarrow>
             if pos < length str then split_loop str token (pos + length token) (res @ [substr str i (pos - i)])
             else Some (res @ [substr str i (length str - i)])
         | None \<Rightarrow> Some (res @ [substr str i (length str - i)]))
      else Some res)"

definition split :: "string \<Rightarrow> string \<Rightarrow> string list \<Rightarrow> string list option" where
  "split str token res = split_loop str token 0 res"

definition TrimLeft :: "string \<Rightarrow> string \<Rightarrow> string" where
  "TrimLeft target str = (case find_first_not_of str target 0 of Some pos \<Rightarrow> drop pos str | None \<Rightarrow> [])"

definition TrimRight :: "string \<Rightarrow> string \<Rightarrow> string" where
  "TrimRight target str = (case find_last_not_of str target of Some pos \<Rightarrow> substr str 0 (pos + 1) | None \<Rightarrow> [])"

definition Trim :: "string \<Rightarrow> string \<Rightarrow> string" where
  "Trim target str = TrimRight target (TrimLeft target str)"

lemma first_idx_Some: "first_idx P xs = Some i \<longleftrightarrow> i < length xs \<and> P (xs ! i) \<and> (\<forall>j<i. \<not> P (xs ! j))"
proof (induction xs arbitrary: i)
  case (Cons x xs)
  then show ?case by (cases i) (auto simp: nth_Cons' split: if_splits)
qed simp

lemma first_idx_None: "first_idx P xs = None \<longleftrightarrow> (\<forall>x\<in>set xs. \<not> P x)"
  by (induction xs) auto

lemma first_idx_dropWhile: "(case first_idx P xs of Some i \<Rightarrow> drop i xs | None \<Rightarrow> []) = dropWhile (\<lambda>x. \<not> P x) xs"
  by (induction xs) (auto split: option.splits)

lemma first_idx_takeWhile: "(case first_idx P xs of Some i \<Rightarrow> take i xs | None \<Rightarrow> xs) = takeWhile (\<lambda>x. \<not> P x) xs"
  by (induction xs) (auto split: option.splits)

function tokenize_loop :: "string \<Rightarrow> string \<Rightarrow> nat \<Rightarrow> string list" where
  "tokenize_loop str delims pos =
     (case find_first_not_of str delims pos of
        None \<Rightarrow> []
      | Some last_pos \<Rightarrow>
          (case find_first_of str delims last_pos of
             Some p \<Rightarrow> substr str last_pos (p - last_pos) # tokenize_loop str delims p
           | None \<Rightarrow> [substr str last_pos (length str - last_pos)]))"
  by pat_completeness auto
termination
proof (relation "measure (\<lambda>(str, delims, pos). length str - pos)", simp, clarsimp)
  fix str delims pos lp p
  assume a: "find_first_not_of str delims pos = Some lp" "find_first_of str delims lp = Some p"
  then have "pos \<le> lp" "lp \<le> p" "p < length str" "str ! lp \<notin> set delims" "str ! p \<in> set delims"
    by (auto simp: find_first_not_of_def find_first_of_def first_idx_Some)
  then have "lp \<noteq> p" by metis
  with \<open>pos \<le> lp\<close> \<open>lp \<le> p\<close> \<open>p < length str\<close> show "length str - p < length str - pos" by linarith
qed

definition Tokenize :: "string \<Rightarrow> string \<Rightarrow> string list" where
  "Tokenize str delims = tokenize_loop str delims 0"

definition EndsWith :: "string \<Rightarrow> string \<Rightarrow> bool" where
  "EndsWith str endStr \<longleftrightarrow> str_find str endStr (unat (word_of_nat (length str) - word_of_nat (length endStr) :: 64 word)) \<noteq> None"

definition StartsWith :: "string \<Rightarrow> string \<Rightarrow> bool" where
  "StartsWith str startStr \<longleftrightarrow> str_find str startStr 0 = Some 0"

partial_function (option) replace_loop ::
    "string \<Rightarrow> string \<Rightarrow> string \<Rightarrow> nat option \<Rightarrow> nat \<Rightarrow> string \<Rightarrow> bool \<Rightarrow> (nat \<times> string \<times> bool) option" where
  "replace_loop str pat rep pos tpos strTemp bHasReplaced =
     (case pos of
        None \<Rightarrow> Some (tpos, strTemp, bHasReplaced)
      | Some p \<Rightarrow>
          (let strTemp = strTemp @ substr str tpos (p - tpos) @ rep;
               tpos = p + length pat
           in replace_loop str pat rep (str_find str pat tpos) tpos strTemp True))"

definition ReplaceAll :: "string \<Rightarrow> string \<Rightarrow> string \<Rightarrow> string option" where
  "ReplaceAll str strToReplaced strReplaced =
     map_option (\<lambda>(tpos, strTemp, bHasReplaced). if bHasReplaced then strTemp @ drop tpos str else str)
       (replace_loop str strToReplaced strReplaced (str_find str strToReplaced 0) 0 [] False)"

definition ToLowerCase :: "string \<Rightarrow> string" where
  "ToLowerCase str = map (\<lambda>ch. if of_char ch \<ge> (65 :: nat) \<and> of_char ch \<le> (90 :: nat) then char_of (of_char ch + 97 - 65 :: nat) else ch) str"

lemma str_find_bounds:
  assumes "str_find s pat pos = Some p"
  shows "pos \<le> p" and "p + length pat \<le> length s" and "take (length pat) (drop p s) = pat"
proof -
  have "i + length pat \<le> length xs \<and> take (length pat) (drop i xs) = pat" if "match_idx pat xs = Some i" for i xs
    using that
  proof (induction xs arbitrary: i)
    case (Cons x xs)
    then show ?case by (auto simp: prefix_def dest: arg_cong [of "_ # _" _ length] split: if_splits)
  qed (auto split: if_splits)
  then show "pos \<le> p" "p + length pat \<le> length s" "take (length pat) (drop p s) = pat"
    using assms by (fastforce simp: str_find_def add.commute split: if_splits)+
qed

function remove_tags_loop :: "string \<Rightarrow> nat option \<Rightarrow> string" where
  "remove_tags_loop strText pos =
     (case pos of
        None \<Rightarrow> strText
      | Some p \<Rightarrow>
          (case str_find strText ''>'' p of
             None \<Rightarrow> strText
           | Some e \<Rightarrow>
               if e - p + 1 < 1024
               then (let t = take p strText @ drop (e + 1) strText in remove_tags_loop t (str_find t ''<'' p))
               else remove_tags_loop strText (str_find strText ''<'' (e + 1))))"
  by pat_completeness auto
termination
proof (relation "measure (\<lambda>(s, pos). case pos of None \<Rightarrow> 0 | Some p \<Rightarrow> Suc (length s - p))", goal_cases)
  case (2 s pos p e t)
  then show ?case
    using str_find_bounds [OF 2(2)] str_find_bounds [of t "''<''" p] by (auto split: option.splits)
next
  case (3 s pos p e)
  then show ?case
    using str_find_bounds [OF 3(2)] str_find_bounds [of s "''<''" "Suc e"] by (fastforce split: option.splits)
qed simp

definition RemoveHtmlTags :: "string \<Rightarrow> string" where
  "RemoveHtmlTags strText = remove_tags_loop strText (str_find strText ''<'' 0)"

section \<open>Similarity\<close>

definition incr :: "(string \<Rightarrow> int option) \<Rightarrow> string \<Rightarrow> string \<Rightarrow> int option" where
  "incr imap k = imap(k \<mapsto> (case imap k of None \<Rightarrow> 0 | Some c \<Rightarrow> c) + 1)"

definition ngram_hit :: "string \<Rightarrow> nat \<times> (string \<Rightarrow> int option) \<Rightarrow> nat \<times> (string \<Rightarrow> int option)" where
  "ngram_hit k = (\<lambda>(common, imap).
     case imap k of
       None \<Rightarrow> (common, imap)
     | Some c \<Rightarrow> (common + 1, if c - 1 = 0 then imap(k := None) else imap(k \<mapsto> c - 1)))"

definition ngram :: "string \<Rightarrow> nat \<Rightarrow> nat \<Rightarrow> string" where
  "ngram s n i = take n (drop i s)"

definition count_ngrams :: "string \<Rightarrow> string \<Rightarrow> nat \<Rightarrow> nat" where
  "count_ngrams s1 s2 n =
     (let imap = fold (\<lambda>i m. incr m (ngram s2 n i)) [0..<length s2 + 1 - n] Map.empty
      in fst (fold (\<lambda>i. ngram_hit (ngram s1 n i)) [0..<length s1 + 1 - n] (0, imap)))"

text \<open>The result as a fraction; \<open>None\<close> is a null pointer.\<close>

definition CalStringSim :: "string option \<Rightarrow> string option \<Rightarrow> nat \<Rightarrow> nat \<times> nat" where
  "CalStringSim s1 s2 n =
     (case (s1, s2) of
        (Some s1, Some s2) \<Rightarrow>
          if s1 = [] \<or> s2 = [] then (0, 1)
          else if length s1 < n \<and> length s1 \<le> length s2
          then ((if str_find s2 s1 0 = None then 0 else 1), length s2 - length s1 + 1)
          else if length s2 < n \<and> length s2 \<le> length s1
          then ((if str_find s1 s2 0 = None then 0 else 1), length s1 - length s2 + 1)
          else (2 * count_ngrams s1 s2 n, length s1 + length s2 - 2 * n + 2)
      | _ \<Rightarrow> (0, 1))"

section \<open>Substrings, character tests and decoding\<close>

partial_function (option) simple_loop :: "string \<Rightarrow> string \<Rightarrow> nat \<Rightarrow> string list \<Rightarrow> string list option" where
  "simple_loop str delims p0 tokens =
     (case str_find str delims p0 of
        None \<Rightarrow> Some (tokens @ [drop p0 str])
      | Some p1 \<Rightarrow> simple_loop str delims (p1 + length delims) (tokens @ [substr str p0 (p1 - p0)]))"

definition SimpleTokenize :: "string \<Rightarrow> string \<Rightarrow> string list option" where
  "SimpleTokenize str delims = simple_loop str delims 0 []"

definition RemoveSubstr :: "string \<Rightarrow> string \<Rightarrow> string \<Rightarrow> string option" where
  "RemoveSubstr songname sBegin sEnd =
     (case str_find songname sBegin 0 of
        None \<Rightarrow> Some songname
      | Some p0 \<Rightarrow>
          (case str_rfind songname sEnd of
             None \<Rightarrow> Some songname
           | Some p \<Rightarrow>
               (let p1 = p + length sEnd;
                    s = substr songname p0 (unat (word_of_nat p1 - word_of_nat p0 :: 64 word))
                in ReplaceAll songname s [])))"

definition isChineseChar :: "byte \<Rightarrow> byte \<Rightarrow> bool" where
  "isChineseChar c1 c2 \<longleftrightarrow> c1 \<ge> 0x80 \<and> c1 \<le> 0xFE \<and> c2 \<ge> 0x40 \<and> c2 \<le> 0xFE"

text \<open>A C string ends at the first null character.\<close>

definition c_str :: "string \<Rightarrow> string" where
  "c_str s = takeWhile (\<lambda>c. c \<noteq> CHR 0x00) s"

fun isall :: "string \<Rightarrow> (char \<Rightarrow> bool) \<Rightarrow> bool" where
  "isall [] func = True"
| "isall (c # str) func = (if c = CHR 0x00 then True else if \<not> func c then False else isall str func)"

definition isspace :: "char \<Rightarrow> bool" where
  "isspace c \<longleftrightarrow> c \<in> {CHR '' '', CHR 0x09, CHR 0x0A, CHR 0x0B, CHR 0x0C, CHR 0x0D}"

definition isallspace :: "string \<Rightarrow> bool" where
  "isallspace str = isall str isspace"

definition ExtractSubstr :: "string \<Rightarrow> string \<Rightarrow> string \<Rightarrow> string" where
  "ExtractSubstr src sBegin sEnd =
     (case str_find src sBegin 0 of
        None \<Rightarrow> []
      | Some p \<Rightarrow>
          (case str_find src sEnd (p + length sBegin) of
             None \<Rightarrow> []
           | Some q \<Rightarrow> substr src (p + length sBegin) (q - (p + length sBegin))))"

definition FromHex :: "nat \<Rightarrow> nat option" where
  "FromHex x =
     (if x \<ge> 65 \<and> x \<le> 90 then Some (x - 65 + 10)
      else if x \<ge> 97 \<and> x \<le> 122 then Some (x - 97 + 10)
      else if x \<ge> 48 \<and> x \<le> 57 then Some (x - 48)
      else None)"

text \<open>Reading at the end of a string yields the terminating null character.\<close>

definition str_at :: "string \<Rightarrow> nat" where
  "str_at s = (case s of [] \<Rightarrow> 0 | c # _ \<Rightarrow> of_char c)"

fun url_loop :: "string \<Rightarrow> string \<Rightarrow> string option" where
  "url_loop ret [] = Some ret"
| "url_loop ret (c # str) =
     (if c = CHR ''%'' then
        (if Suc (length str) < 2 then None
         else (case (FromHex (str_at str), FromHex (str_at (tl str))) of
                 (Some high, Some low) \<Rightarrow> url_loop (ret @ [char_of (high * 16 + low)]) (drop 2 str)
               | _ \<Rightarrow> None))
      else url_loop (ret @ [c]) str)"

definition UrlDecode :: "string \<Rightarrow> string option" where
  "UrlDecode str = url_loop [] str"

section \<open>Splitting at a delimiter, as a specification\<close>

fun join :: "string \<Rightarrow> string list \<Rightarrow> string" where
  "join d [] = []"
| "join d [x] = x"
| "join d (x # y # zs) = x @ d @ join d (y # zs)"

lemma match_idx_bounds: "match_idx d s = Some i \<Longrightarrow> i + length d \<le> length s \<and> take (length d) (drop i s) = d"
  using str_find_bounds [of s d 0 i] by (simp add: str_find_def)

function cut :: "string \<Rightarrow> string \<Rightarrow> string list" where
  "cut d s = (if d = [] then [s] else
     (case match_idx d s of None \<Rightarrow> [s] | Some i \<Rightarrow> take i s # cut d (drop (i + length d) s)))"
  by pat_completeness auto
termination
proof (relation "measure (length \<circ> snd)", simp)
  fix d s :: string and i
  assume "d \<noteq> []" "match_idx d s = Some i"
  then show "((d, drop (i + length d) s), d, s) \<in> measure (length \<circ> snd)"
    using match_idx_bounds [of d s i] by (cases d) auto
qed

declare cut.simps [simp del]

lemma cut_not_Nil [simp]: "cut d s \<noteq> []"
  by (subst cut.simps) (simp split: option.splits)

lemma join_Cons: "xs \<noteq> [] \<Longrightarrow> join d (x # xs) = x @ d @ join d xs"
  by (cases xs) simp_all

lemma join_cut: "d \<noteq> [] \<Longrightarrow> join d (cut d s) = s"
proof (induction d s rule: cut.induct)
  case (1 d s)
  show ?case
  proof (cases "match_idx d s")
    case None
    then show ?thesis using 1(2) by (simp add: cut.simps [of d s])
  next
    case (Some i)
    have "s = take i s @ drop i s" by simp
    also have "drop i s = take (length d) (drop i s) @ drop (i + length d) s"
      by (metis append_take_drop_id drop_drop add.commute)
    finally show ?thesis
      using Some 1 match_idx_bounds [OF Some] by (simp add: cut.simps [of d s] join_Cons)
  qed
qed

lemma match_idx_first:
  "match_idx d s = Some i \<Longrightarrow> d \<noteq> [] \<Longrightarrow> \<not> sublist d (take i s)"
  "match_idx d s = None \<Longrightarrow> \<not> sublist d s"
proof -
  show "match_idx d s = None \<Longrightarrow> \<not> sublist d s"
    by (induction s) (auto simp: sublist_Cons_right split: if_splits)
  show "match_idx d s = Some i \<Longrightarrow> d \<noteq> [] \<Longrightarrow> \<not> sublist d (take i s)"
  proof (induction s arbitrary: i)
    case (Cons x xs)
    then obtain j where "i = Suc j \<and> match_idx d xs = Some j \<and> \<not> prefix d (x # xs) \<or> i = 0"
      by (auto split: if_splits)
    then show ?case
    proof (elim disjE conjE)
      assume a: "i = Suc j" "match_idx d xs = Some j" "\<not> prefix d (x # xs)"
      have "\<not> prefix d (x # take j xs)"
        using a(3) prefix_order.trans [of d "x # take j xs" "x # xs"] take_is_prefix [of j xs] by auto
      then show ?thesis using Cons.IH [OF a(2) Cons.prems(2)] a(1) by (simp add: sublist_Cons_right)
    qed (use Cons.prems(2) in simp)
  qed (auto split: if_splits)
qed

lemma cut_pieces: "d \<noteq> [] \<Longrightarrow> t \<in> set (cut d s) \<Longrightarrow> \<not> sublist d t"
proof (induction d s rule: cut.induct)
  case (1 d s)
  show ?case
  proof (cases "match_idx d s")
    case None
    then show ?thesis using 1(2,3) match_idx_first(2) by (simp add: cut.simps [of d s])
  next
    case (Some i)
    then have "t = take i s \<or> t \<in> set (cut d (drop (i + length d) s))"
      using 1(2,3) by (simp add: cut.simps [of d s])
    then show ?thesis using 1(1) [OF 1(2) Some 1(2)] match_idx_first(1) [OF Some 1(2)] by blast
  qed
qed

section \<open>Trimming, tokens, prefixes and suffixes\<close>

lemma TrimLeft_eq: "TrimLeft t s = dropWhile (\<lambda>c. c \<in> set t) s"
  using first_idx_dropWhile [of s "\<lambda>c. c \<notin> set t"]
  by (simp add: TrimLeft_def find_first_not_of_def option.map_ident cong: option.case_cong)

lemma TrimRight_eq: "TrimRight t s = rev (dropWhile (\<lambda>c. c \<in> set t) (rev s))"
proof (cases "first_idx (\<lambda>c. c \<notin> set t) (rev s)")
  case None
  then show ?thesis
    using first_idx_dropWhile [of "rev s" "\<lambda>c. c \<notin> set t"] by (simp add: TrimRight_def find_last_not_of_def)
next
  case (Some i)
  then have i: "i < length s" by (simp add: first_idx_Some)
  have "rev (drop i (rev s)) = take (length s - i) s" by (simp add: rev_drop)
  then show ?thesis
    using Some i first_idx_dropWhile [of "rev s" "\<lambda>c. c \<notin> set t"]
    by (simp add: TrimRight_def find_last_not_of_def substr_def Suc_diff_Suc)
qed

lemma Trim_borders:
  assumes "Trim t s \<noteq> []"
  shows "hd (Trim t s) \<notin> set t" and "last (Trim t s) \<notin> set t"
proof -
  let ?l = "dropWhile (\<lambda>c. c \<in> set t) s"
  have T: "Trim t s = rev (dropWhile (\<lambda>c. c \<in> set t) (rev ?l))" by (simp add: Trim_def TrimLeft_eq TrimRight_eq)
  have "last (Trim t s) = hd (dropWhile (\<lambda>c. c \<in> set t) (rev ?l))" unfolding T by (simp add: last_rev)
  then show "last (Trim t s) \<notin> set t" using assms hd_dropWhile [of "\<lambda>c. c \<in> set t" "rev ?l"] T by simp
  obtain ys where "rev ?l = ys @ dropWhile (\<lambda>c. c \<in> set t) (rev ?l)" by (metis takeWhile_dropWhile_id)
  then have "?l = Trim t s @ rev ys" unfolding T by (metis rev_append rev_rev_ident)
  then have "hd (Trim t s) = hd ?l" "?l \<noteq> []" using assms by (metis hd_append2, simp)
  then show "hd (Trim t s) \<notin> set t" using hd_dropWhile [of "\<lambda>c. c \<in> set t" s] by simp
qed

lemma Trim_id:
  assumes "s = [] \<or> hd s \<notin> set t \<and> last s \<notin> set t"
  shows "Trim t s = s"
proof -
  have "dropWhile (\<lambda>c. c \<in> set t) s = s" "dropWhile (\<lambda>c. c \<in> set t) (rev s) = rev s"
    using assms by (auto simp: dropWhile_eq_self_iff hd_rev)
  then show ?thesis by (simp add: Trim_def TrimLeft_eq TrimRight_eq)
qed

lemma match_idx_single: "match_idx [c] s = first_idx ((=) c) s"
  by (induction s) auto

lemma StartsWith_prefix: "StartsWith s p = prefix p s"
  by (cases s) (auto simp: StartsWith_def str_find_def)

lemma EndsWith_suffix:
  assumes "length s < 2 ^ 63" and "length e < 2 ^ 63"
  shows "EndsWith s e = suffix e s"
proof (cases "length e \<le> length s")
  case True
  let ?p = "length s - length e"
  have "unat (word_of_nat (length s) - word_of_nat (length e) :: 64 word) = ?p"
    using True assms by (simp add: unat_of_nat flip: of_nat_diff)
  moreover have "match_idx e (drop ?p s) = (if drop ?p s = e then Some 0 else None)"
  proof (cases "match_idx e (drop ?p s)")
    case None
    then show ?thesis by (cases "drop ?p s") (auto split: if_splits)
  next
    case (Some i)
    then have "i = 0" "take (length e) (drop ?p s) = e" using match_idx_bounds [OF Some] True by auto
    then show ?thesis using Some True by simp
  qed
  ultimately show ?thesis using True by (auto simp: EndsWith_def str_find_def suffix_def) (metis append_take_drop_id)
next
  case False
  let ?d = "length e - length s"
  have "unat (word_of_nat (length s) - word_of_nat (length e) :: 64 word) = 2 ^ 64 - ?d"
    using assms False by (simp add: unat_sub_if' unat_of_nat)
  moreover have "2 ^ 64 - ?d > length s" using assms by simp
  ultimately show ?thesis using False by (auto simp: EndsWith_def str_find_def suffix_def)
qed

lemma ToLowerCase_idem: "ToLowerCase (ToLowerCase s) = ToLowerCase s"
  by (simp add: ToLowerCase_def comp_def)

text \<open>\<open>Tokenize\<close> yields the maximal runs of characters that are no delimiters.\<close>

function fields :: "string \<Rightarrow> string \<Rightarrow> string list" where
  "fields ds s = (case dropWhile (\<lambda>c. c \<in> set ds) s of
     [] \<Rightarrow> []
   | c # t \<Rightarrow> (c # takeWhile (\<lambda>c. c \<notin> set ds) t) # fields ds (dropWhile (\<lambda>c. c \<notin> set ds) t))"
  by pat_completeness auto
termination
proof (relation "measure (length \<circ> snd)", simp)
  fix ds s c t
  assume "dropWhile (\<lambda>c. c \<in> set ds) s = c # t"
  then have "length t < length s" using length_dropWhile_le [of "\<lambda>c. c \<in> set ds" s] by simp
  then show "((ds, dropWhile (\<lambda>c. c \<notin> set ds) t), ds, s) \<in> measure (length \<circ> snd)"
    using length_dropWhile_le [of "\<lambda>c. c \<notin> set ds" t] by simp
qed

declare fields.simps [simp del] tokenize_loop.simps [simp del]

lemma tokenize_loop_fields: "tokenize_loop str ds pos = fields ds (drop pos str)"
proof (induction str ds pos rule: tokenize_loop.induct)
  case (1 str ds pos)
  let ?s = "drop pos str"
  show ?case
  proof (cases "first_idx (\<lambda>c. c \<notin> set ds) ?s")
    case None
    have d: "dropWhile (\<lambda>c. c \<in> set ds) ?s = []"
      using first_idx_dropWhile [of ?s "\<lambda>c. c \<notin> set ds"] None by simp
    show ?thesis
      unfolding fields.simps [of ds ?s] d using None by (simp add: tokenize_loop.simps [of str] find_first_not_of_def)
  next
    case (Some i)
    let ?lp = "pos + i"
    let ?u = "drop ?lp str"
    have d: "dropWhile (\<lambda>c. c \<in> set ds) ?s = ?u"
      using first_idx_dropWhile [of ?s "\<lambda>c. c \<notin> set ds"] Some by (simp add: add.commute)
    have lp: "find_first_not_of str ds pos = Some ?lp" using Some by (simp add: find_first_not_of_def)
    have "?lp < length str" "str ! ?lp \<notin> set ds" using Some by (auto simp: first_idx_Some)
    then obtain c t where u: "?u = c # t" "c \<notin> set ds" using Cons_nth_drop_Suc [of ?lp str] by metis
    have tk: "(case first_idx (\<lambda>c. c \<in> set ds) ?u of Some k \<Rightarrow> take k ?u | None \<Rightarrow> ?u) = c # takeWhile (\<lambda>c. c \<notin> set ds) t"
      unfolding first_idx_takeWhile using u by simp
    have dr: "(case first_idx (\<lambda>c. c \<in> set ds) ?u of Some k \<Rightarrow> drop k ?u | None \<Rightarrow> []) = dropWhile (\<lambda>c. c \<notin> set ds) t"
      unfolding first_idx_dropWhile using u by simp
    have f: "fields ds ?s = (c # takeWhile (\<lambda>c. c \<notin> set ds) t) # fields ds (dropWhile (\<lambda>c. c \<notin> set ds) t)"
      using d u by (simp add: fields.simps [of ds ?s])
    show ?thesis
    proof (cases "first_idx (\<lambda>c. c \<in> set ds) ?u")
      case None
      have "fields ds [] = []" by (simp add: fields.simps)
      moreover have "substr str ?lp (length str - ?lp) = ?u" by (simp add: substr_def)
      ultimately show ?thesis
        using None tk dr f lp by (simp add: tokenize_loop.simps [of str ds pos] find_first_of_def del: first_idx.simps)
    next
      case (Some k)
      have "tokenize_loop str ds (?lp + k) = fields ds (drop (?lp + k) str)"
        using 1 [OF lp] Some by (simp add: find_first_of_def)
      then show ?thesis
        using Some tk dr f lp by (simp add: tokenize_loop.simps [of str ds pos] find_first_of_def substr_def add.commute)
    qed
  qed
qed

section \<open>Markup removal\<close>

definition no_tag :: "string \<Rightarrow> bool" where
  "no_tag s \<longleftrightarrow> (\<forall>i j. i < j \<longrightarrow> j < length s \<longrightarrow> \<not> (s ! i = CHR ''<'' \<and> s ! j = CHR ''>''))"

declare remove_tags_loop.simps [simp del]

lemma first_idx_append:
  "\<forall>x\<in>set xs. \<not> P x \<Longrightarrow> first_idx P (xs @ ys) = map_option ((+) (length xs)) (first_idx P ys)"
  by (induction xs; cases "first_idx P ys") auto

lemma first_idx_drop_None:
  assumes "first_idx ((=) c) (drop p s) = None" and "p \<le> j" and "j < length s"
  shows "s ! j \<noteq> c"
proof -
  have "drop p s ! (j - p) = s ! j" "j - p < length (drop p s)" using assms(2,3) by auto
  then have "s ! j \<in> set (drop p s)" using nth_mem [of "j - p" "drop p s"] by simp
  then show ?thesis using assms(1) first_idx_None [of "(=) c" "drop p s"] by blast
qed

lemma remove_tags_loop_no_tag:
  assumes "length s < 1024" and "pos = first_idx ((=) CHR ''<'') s"
  shows "no_tag (remove_tags_loop s pos)"
  using assms
proof (induction s pos rule: remove_tags_loop.induct)
  case (1 s pos)
  show ?case
  proof (cases pos)
    case None
    then have "\<forall>x\<in>set s. CHR ''<'' \<noteq> x" using 1(4) first_idx_None [of "(=) CHR ''<''" s] by simp
    then have "no_tag s" unfolding no_tag_def by (metis nth_mem order.strict_trans)
    then show ?thesis using None by (simp add: remove_tags_loop.simps [of s None])
  next
    case (Some p)
    have p: "p < length s" "\<forall>j<p. s ! j \<noteq> CHR ''<''" using 1(4) Some first_idx_Some [of "(=) CHR ''<''" s p] by auto
    show ?thesis
    proof (cases "str_find s ''>'' p")
      case None
      then have "first_idx ((=) CHR ''>'') (drop p s) = None"
        using p(1) by (simp add: str_find_def match_idx_single)
      note no_gt = first_idx_drop_None [OF this]
      have "no_tag s" unfolding no_tag_def
      proof (intro allI impI notI)
        fix i j
        assume "i < j" "j < length s" "s ! i = CHR ''<'' \<and> s ! j = CHR ''>''"
        then show False using p(2) no_gt [of j] by (cases "i < p") simp_all
      qed
      then show ?thesis using Some None by (simp add: remove_tags_loop.simps [of s "Some p"])
    next
      case (Some e)
      let ?t = "take p s @ drop (e + 1) s"
      have e: "p \<le> e" "e < length s" using str_find_bounds [OF Some] by auto
      have small: "e - p + 1 < 1024" using e 1(3) by linarith
      have "\<forall>x\<in>set (take p s). CHR ''<'' \<noteq> x" using p by (auto simp: in_set_conv_nth)
      then have "first_idx ((=) CHR ''<'') ?t = str_find ?t ''<'' p"
        using p by (simp add: first_idx_append str_find_def match_idx_single)
      then have "no_tag (remove_tags_loop ?t (str_find ?t ''<'' p))"
        using 1(1) [OF \<open>pos = Some p\<close> Some small] 1(3) e by simp
      then show ?thesis
        using Some \<open>pos = Some p\<close> small by (simp add: remove_tags_loop.simps [of s "Some p"] Let_def)
    qed
  qed
qed

lemma RemoveHtmlTags_no_tag: "length s < 1024 \<Longrightarrow> no_tag (RemoveHtmlTags s)"
  using remove_tags_loop_no_tag [of s] by (simp add: RemoveHtmlTags_def str_find_def match_idx_single)
    (cases "first_idx ((=) CHR ''<'') s"; simp)

section \<open>Decoding percent escapes\<close>

definition hex_digit :: "nat \<Rightarrow> char" where
  "hex_digit n = char_of (if n < 10 then n + 48 else n + 55)"

definition url_encode :: "string \<Rightarrow> string" where
  "url_encode s = concat (map (\<lambda>c. [CHR ''%'', hex_digit (of_char c div 16), hex_digit (of_char c mod 16)]) s)"

lemma FromHex_digit: "n < 16 \<Longrightarrow> FromHex (of_char (hex_digit n)) = Some n"
  by (auto simp: FromHex_def hex_digit_def)

lemma url_decode_encode: "UrlDecode (url_encode s) = Some s"
proof -
  have "url_loop r (url_encode s) = Some (r @ s)" for r
  proof (induction s arbitrary: r)
    case (Cons c s)
    have "of_char c div 16 < (16 :: nat)" "of_char c mod 16 < (16 :: nat)" using nat_of_char_less_256 [of c] by linarith simp
    then show ?case using Cons [of "r @ [c]"] by (simp add: url_encode_def str_at_def FromHex_digit)
  qed (simp add: url_encode_def)
  then show ?thesis by (simp add: UrlDecode_def)
qed

lemma url_decode_not_hex: "UrlDecode ''%zz'' = Some [char_of (595 :: nat)]"
  by (simp add: UrlDecode_def str_at_def FromHex_def)

lemma str_find_drop: "p \<le> length s \<Longrightarrow> str_find s d p = map_option ((+) p) (match_idx d (drop p s))"
  by (simp add: str_find_def)

lemma simple_loop_cut:
  assumes d: "d \<noteq> []"
  shows "p0 \<le> length str \<Longrightarrow> simple_loop str d p0 toks = Some (toks @ cut d (drop p0 str))"
proof (induction "length str - p0" arbitrary: p0 toks rule: less_induct)
  case less
  show ?case
  proof (cases "match_idx d (drop p0 str)")
    case None
    then show ?thesis
      using d less.prems by (simp add: simple_loop.simps [of str d p0] str_find_drop cut.simps [of d "drop p0 str"])
  next
    case (Some i)
    have b: "i + length d \<le> length str - p0" using match_idx_bounds [OF Some] by simp
    have "length d > 0" using d by simp
    then have "simple_loop str d (p0 + i + length d) (toks @ [take i (drop p0 str)])
        = Some ((toks @ [take i (drop p0 str)]) @ cut d (drop (p0 + i + length d) str))"
      using b less.prems by (intro less.hyps) linarith+
    then show ?thesis
      using Some d less.prems
      by (simp add: simple_loop.simps [of str d p0] str_find_drop cut.simps [of d "drop p0 str"] substr_def ac_simps)
  qed
qed

lemma SimpleTokenize_cut: "d \<noteq> [] \<Longrightarrow> SimpleTokenize str d = Some (cut d str)"
  using simple_loop_cut [of d 0 str "[]"] by (simp add: SimpleTokenize_def)

lemma replace_loop_cut:
  assumes d: "d \<noteq> []"
  shows "tpos \<le> length str \<Longrightarrow>
    \<exists>t' tmp'. replace_loop str d rep (str_find str d tpos) tpos tmp b = Some (t', tmp', b \<or> str_find str d tpos \<noteq> None)
      \<and> tmp' @ drop t' str = tmp @ join rep (cut d (drop tpos str))"
proof (induction "length str - tpos" arbitrary: tpos tmp b rule: less_induct)
  case less
  show ?case
  proof (cases "match_idx d (drop tpos str)")
    case None
    then show ?thesis
      using d less.prems by (simp add: replace_loop.simps [of str d rep None] str_find_drop cut.simps [of d "drop tpos str"])
  next
    case (Some i)
    let ?t = "tpos + i + length d"
    have b: "i + length d \<le> length str - tpos" using match_idx_bounds [OF Some] by simp
    have pos: "length d > 0" using d by simp
    let ?tmp = "tmp @ take i (drop tpos str) @ rep"
    have lt: "length str - ?t < length str - tpos" "?t \<le> length str" using b pos less.prems by linarith+
    obtain t' tmp' where ih: "replace_loop str d rep (str_find str d ?t) ?t ?tmp True = Some (t', tmp', True)"
        "tmp' @ drop t' str = ?tmp @ join rep (cut d (drop ?t str))"
      using less.hyps [OF lt, of ?tmp True] by auto
    have f: "str_find str d tpos = Some (tpos + i)" using Some less.prems by (simp add: str_find_drop)
    have "replace_loop str d rep (Some (tpos + i)) tpos tmp b = Some (t', tmp', True)"
      using ih(1) by (subst replace_loop.simps) (simp add: substr_def Let_def)
    moreover have "cut d (drop tpos str) = take i (drop tpos str) # cut d (drop ?t str)"
      using Some d by (simp add: cut.simps [of d "drop tpos str"] ac_simps)
    ultimately show ?thesis using ih(2) f by (simp add: join_Cons)
  qed
qed

lemma ReplaceAll_cut:
  assumes "d \<noteq> []"
  shows "ReplaceAll str d rep = Some (join rep (cut d str))"
proof -
  obtain t' tmp' where r: "replace_loop str d rep (str_find str d 0) 0 [] False = Some (t', tmp', str_find str d 0 \<noteq> None)"
      "tmp' @ drop t' str = join rep (cut d str)"
    using replace_loop_cut [OF assms, of 0 str rep "[]" False] by auto
  have "cut d str = [str]" if "str_find str d 0 = None"
    using that assms by (simp add: cut.simps [of d str] str_find_def)
  then show ?thesis using r by (auto simp: ReplaceAll_def)
qed

lemma split_loop_cut:
  assumes d: "d \<noteq> []"
  shows "split_loop str d i res = Some (res @ (if i < length str then
      (let ts = cut d (drop i str) in if last ts = [] then butlast ts else ts) else []))"
proof (induction "length str - i" arbitrary: i res rule: less_induct)
  case less
  show ?case
  proof (cases "i < length str")
    case True
    show ?thesis
    proof (cases "match_idx d (drop i str)")
      case None
      then show ?thesis
        using True d by (simp add: split_loop.simps [of str d i] str_find_drop cut.simps [of d "drop i str"] substr_def)
    next
      case (Some k)
      let ?i = "i + k + length d"
      have b: "k + length d \<le> length str - i" using match_idx_bounds [OF Some] by simp
      have pos: "length d > 0" using d by simp
      have f: "str_find str d i = Some (i + k)" "i + k < length str"
        using Some True by (simp add: str_find_drop) (use True b pos in linarith)
      have lt: "length str - ?i < length str - i" using b pos True by linarith
      have c: "cut d (drop i str) = take k (drop i str) # cut d (drop ?i str)"
        using Some d by (simp add: cut.simps [of d "drop i str"] ac_simps)
      have c0: "cut d [] = [[]]" using d by (simp add: cut.simps [of d "[]"])
      have "split_loop str d i res = split_loop str d ?i (res @ [take k (drop i str)])"
        using True f b pos by (subst split_loop.simps) (simp add: substr_def)
      then show ?thesis using True c c0 less.hyps [OF lt, of "res @ [take k (drop i str)]"] by (auto simp: Let_def)
    qed
  next
    case False
    then show ?thesis by (subst split_loop.simps) simp
  qed
qed

text \<open>With an empty delimiter the loops do not end.\<close>

lemma str_find_empty: "p \<le> length s \<Longrightarrow> str_find s [] p = Some p"
  by (cases "drop p s") (simp_all add: str_find_def)

lemma simple_loop_diverges:
  assumes "p0 \<le> length str"
  shows "simple_loop str [] p0 toks = None"
proof (rule ccontr)
  assume "simple_loop str [] p0 toks \<noteq> None"
  then obtain ts where ts: "simple_loop str [] p0 toks = Some ts" by auto
  have "\<not> ([] = ([] :: string) \<and> p0 \<le> length str)"
    by (rule simple_loop.raw_induct [where P = "\<lambda>str d p0 toks ts. \<not> (d = [] \<and> p0 \<le> length str)", OF _ ts])
      (auto simp: str_find_empty)
  with assms show False by simp
qed

lemma replace_loop_diverges:
  assumes "tpos \<le> length str"
  shows "replace_loop str [] rep (Some tpos) tpos tmp b = None"
proof (rule ccontr)
  assume "replace_loop str [] rep (Some tpos) tpos tmp b \<noteq> None"
  then obtain r where r: "replace_loop str [] rep (Some tpos) tpos tmp b = Some r" by auto
  have "\<not> ([] = ([] :: string) \<and> Some tpos = Some tpos \<and> tpos \<le> length str)"
    by (rule replace_loop.raw_induct [where P = "\<lambda>str d rep p tpos tmp b r. \<not> (d = [] \<and> p = Some tpos \<and> tpos \<le> length str)", OF _ r])
      (auto simp: str_find_empty Let_def)
  with assms show False by simp
qed

lemma split_loop_diverges:
  assumes "i < length str"
  shows "split_loop str [] i res = None"
proof (rule ccontr)
  assume "split_loop str [] i res \<noteq> None"
  then obtain ts where ts: "split_loop str [] i res = Some ts" by auto
  have "\<not> ([] = ([] :: string) \<and> i < length str)"
    by (rule split_loop.raw_induct [where P = "\<lambda>str d i res ts. \<not> (d = [] \<and> i < length str)", OF _ ts])
      (auto simp: str_find_empty)
  with assms show False by simp
qed


text \<open>\<open>RemoveSubstr\<close> hangs when the last end marker stands right before the first begin marker: the
  range to remove is empty, and \<open>ReplaceAll\<close> does not end for an empty string.\<close>

lemma RemoveSubstr_hangs: "RemoveSubstr ''a](b'' ''('' '']'' = None"
proof -
  have "str_find ''a](b'' ''('' 0 = Some 2" "str_rfind ''a](b'' '']'' = Some 1" by (simp_all add: str_find_def str_rfind_def)
  then show ?thesis
    using replace_loop_diverges [of 0 "''a](b''" "[]" "[]" False]
    by (simp add: RemoveSubstr_def ReplaceAll_def substr_def str_find_empty)
qed

section \<open>Similarity is the overlap of n-gram multisets\<close>

definition counts :: "string multiset \<Rightarrow> string \<Rightarrow> int option" where
  "counts M k = (if k \<in># M then Some (int (count M k)) else None)"

definition ngrams :: "nat \<Rightarrow> string \<Rightarrow> string multiset" where
  "ngrams n s = mset (map (ngram s n) [0..<length s + 1 - n])"

lemma incr_counts: "incr (counts M) k = counts (add_mset k M)"
  by (auto simp: incr_def counts_def fun_eq_iff not_in_iff)

lemma fold_incr: "fold (\<lambda>k m. incr m k) ks (counts M) = counts (mset ks + M)"
  by (induction ks arbitrary: M) (simp_all add: incr_counts)

lemma ngram_hit_counts:
  "ngram_hit k (c, counts M) = (if k \<in># M then (c + 1, counts (M - {#k#})) else (c, counts M))"
proof (cases "k \<in># M")
  case True
  have "(if int (count M k) - 1 = 0 then (counts M)(k := None) else (counts M)(k \<mapsto> int (count M k) - 1)) = counts (M - {#k#})"
  proof
    fix x
    show "(if int (count M k) - 1 = 0 then (counts M)(k := None) else (counts M)(k \<mapsto> int (count M k) - 1)) x = counts (M - {#k#}) x"
      using True count_greater_zero_iff [of M k] count_greater_zero_iff [of M x]
      by (cases "x = k") (auto simp: counts_def of_nat_diff in_diff_count not_in_iff simp del: count_greater_zero_iff)
  qed
  then show ?thesis using True by (simp add: ngram_hit_def counts_def)
next
  case False
  then show ?thesis by (simp add: ngram_hit_def counts_def)
qed

lemma fold_hits: "fst (fold ngram_hit ks (c, counts M)) = c + size (mset ks \<inter># M)"
proof (induction ks arbitrary: c M)
  case (Cons k ks)
  show ?case
  proof (cases "k \<in># M")
    case True
    then obtain N where "M = add_mset k N" by (meson multi_member_split)
    then show ?thesis using Cons.IH [of "c + 1" N] by (simp add: ngram_hit_counts)
  next
    case False
    then have "add_mset k (mset ks) \<inter># M = mset ks \<inter># M"
      by (auto simp: multiset_eq_iff not_in_iff)
    then show ?thesis using False Cons.IH [of c M] by (simp add: ngram_hit_counts)
  qed
qed simp

lemma count_ngrams_inter: "count_ngrams s1 s2 n = size (ngrams n s1 \<inter># ngrams n s2)"
proof -
  have "Map.empty = counts {#}" by (simp add: counts_def fun_eq_iff)
  then have "fold (\<lambda>i m. incr m (ngram s2 n i)) [0..<length s2 + 1 - n] Map.empty = counts (ngrams n s2)"
    using fold_incr [of "map (ngram s2 n) [0..<length s2 + 1 - n]" "{#}"] by (simp add: fold_map comp_def ngrams_def)
  then show ?thesis
    using fold_hits [of "map (ngram s1 n) [0..<length s1 + 1 - n]" 0 "ngrams n s2"]
    by (simp add: count_ngrams_def fold_map comp_def ngrams_def Let_def)
qed



section \<open>Decimal numbers\<close>

definition dec_digit :: "nat \<Rightarrow> char" where
  "dec_digit n = char_of (48 + n)"

fun dec_nat :: "nat \<Rightarrow> string" where
  "dec_nat n = (if n < 10 then [dec_digit n] else dec_nat (n div 10) @ [dec_digit (n mod 10)])"

declare dec_nat.simps [simp del]

text \<open>What \<open>%d\<close> prints.\<close>

definition dec_int :: "int \<Rightarrow> string" where
  "dec_int i = (if i < 0 then CHR ''-'' # dec_nat (nat (- i)) else dec_nat (nat i))"

definition ToString :: "int \<Rightarrow> string" where
  "ToString a = c_str (dec_int a)"

fun dec_value :: "nat \<Rightarrow> string \<Rightarrow> nat" where
  "dec_value n [] = n"
| "dec_value n (c # cs) = (if of_char c \<ge> (48 :: nat) \<and> of_char c \<le> (57 :: nat) then dec_value (10 * n + (of_char c - 48)) cs else n)"

text \<open>\<open>atol\<close>: blanks, a sign, digits, saturated at 64 bits.\<close>

definition atol :: "string \<Rightarrow> int" where
  "atol s =
     (let s = dropWhile isspace s;
          v = (case s of
                 [] \<Rightarrow> 0
               | c # cs \<Rightarrow> if c = CHR ''-'' then - int (dec_value 0 cs) else if c = CHR ''+'' then int (dec_value 0 cs)
                           else int (dec_value 0 s))
      in max (- (2 ^ 63)) (min (2 ^ 63 - 1) v))"

definition is_dec :: "char \<Rightarrow> bool" where
  "is_dec c \<longleftrightarrow> of_char c \<ge> (48 :: nat) \<and> of_char c \<le> (57 :: nat)"

lemma of_char_dec_digit [simp]: "n < 10 \<Longrightarrow> of_char (dec_digit n) = 48 + n"
  by (simp add: dec_digit_def)

lemma is_dec_digit: "n < 10 \<Longrightarrow> is_dec (dec_digit n)"
  by (simp add: is_dec_def)

lemma dec_value_snoc:
  "list_all is_dec cs \<Longrightarrow> n < 10 \<Longrightarrow> dec_value a (cs @ [dec_digit n]) = 10 * dec_value a cs + n"
  by (induction cs arbitrary: a) (auto simp: is_dec_def)

lemma dec_nat_digits: "list_all is_dec (dec_nat n)"
  by (induction n rule: dec_nat.induct) (subst dec_nat.simps, simp add: is_dec_digit)

lemma dec_nat_not_Nil [simp]: "dec_nat n \<noteq> []"
  by (subst dec_nat.simps) simp

lemma dec_value_dec_nat: "dec_value 0 (dec_nat n) = n"
proof (induction n rule: dec_nat.induct)
  case (1 n)
  show ?case
  proof (cases "n < 10")
    case True
    then show ?thesis by (simp add: dec_nat.simps [of n])
  next
    case False
    then show ?thesis using 1 dec_nat_digits [of "n div 10"] by (simp add: dec_nat.simps [of n] dec_value_snoc)
  qed
qed

lemma length_dec_nat: "n < 10 ^ k \<Longrightarrow> 0 < k \<Longrightarrow> length (dec_nat n) \<le> k"
proof (induction k arbitrary: n)
  case (Suc k)
  show ?case
  proof (cases "n < 10")
    case True
    then show ?thesis by (simp add: dec_nat.simps [of n])
  next
    case False
    then have "k > 0" using Suc.prems by (cases k) auto
    moreover have "n div 10 < 10 ^ k" using Suc.prems(1) by (simp add: div_less_iff_less_mult)
    ultimately show ?thesis using Suc.IH [of "n div 10"] False by (simp add: dec_nat.simps [of n])
  qed
qed simp

lemma is_dec_not_blank:
  assumes "is_dec c"
  shows "\<not> isspace c" and "c \<noteq> CHR ''-''" and "c \<noteq> CHR ''+''" and "c \<noteq> CHR 0x00" and "c \<noteq> CHR ''=''" and "c \<noteq> CHR ''#''"
    and "c \<noteq> CHR '' ''" and "c \<noteq> CHR 0x09" and "c \<noteq> CHR 0x0A" and "c \<noteq> CHR 0x0D"
  using assms by (auto simp: is_dec_def isspace_def)

lemma hd_dec_nat: "is_dec (hd (dec_nat n))"
  using dec_nat_digits [of n] by (cases "dec_nat n") simp_all

text \<open>Printing and reading an integer of 64 bits.\<close>

lemma atol_dec_int:
  assumes "- (2 ^ 63) \<le> i" and "i < 2 ^ 63"
  shows "atol (dec_int i) = i"
proof -
  obtain c cs where d: "dec_nat (nat i) = c # cs" by (cases "dec_nat (nat i)") simp_all
  then have "is_dec c" using hd_dec_nat [of "nat i"] by simp
  then have "atol (dec_nat (nat i)) = i" if "i \<ge> 0"
    using that d assms is_dec_not_blank [of c] dec_value_dec_nat [of "nat i"] by (simp add: atol_def Let_def)
  moreover have "atol (CHR ''-'' # dec_nat (nat (- i))) = i" if "i < 0"
    using that assms dec_value_dec_nat [of "nat (- i)"] by (simp add: atol_def Let_def isspace_def)
  ultimately show ?thesis by (simp add: dec_int_def)
qed

lemma ToString_dec: "ToString i = dec_int i"
  using dec_nat_digits is_dec_not_blank(4)
  by (auto simp: ToString_def c_str_def dec_int_def takeWhile_eq_all_conv list_all_iff)

end
