(* ===== verification/Config_File.thy ===== *)
theory Config_File
  imports Str_Ops
begin

text \<open>
  \<^verbatim>\<open>src/common/Config.cpp\<close> (and its copy in \<^verbatim>\<open>src/frame\<close>): a configuration of
  \<open>key = value\<close> lines in two alternating maps, reloaded by a checker thread when the file changes.
  The content and the modification time of the file, and the check a module supplies, are arguments.
\<close>

section \<open>State\<close>

record config =
  mConfFn :: string
  mIdx :: int
  mRecheckThread :: bool
  mConfRecheckKey :: string
  mKeepCheck :: bool
  mModifiedTime :: int
  mConfMap :: "int \<Rightarrow> string \<Rightarrow> string option"

definition new_Config :: config where
  "new_Config = \<lparr>mConfFn = [], mIdx = -1, mRecheckThread = False, mConfRecheckKey = [], mKeepCheck = False,
     mModifiedTime = 0, mConfMap = (\<lambda>_. Map.empty)\<rparr>"

section \<open>Reading a file\<close>

definition blanks :: string where
  "blanks = [CHR '' '', CHR 0x09, CHR 0x0A, CHR 0x0D]"

text \<open>\<open>erase\<close> with \<open>npos\<close> as its length erases everything, and \<open>npos + 1\<close> is 0.\<close>

definition erase_blanks :: "string \<Rightarrow> string" where
  "erase_blanks s =
     (let s1 = (case find_first_not_of s blanks 0 of Some p \<Rightarrow> drop p s | None \<Rightarrow> [])
      in (case find_last_not_of s1 blanks of Some p \<Rightarrow> take (p + 1) s1 | None \<Rightarrow> []))"

definition parse_line :: "string \<Rightarrow> (string \<times> string) option" where
  "parse_line line =
     (if length line = 0 then None
      else
        (let str_in = erase_blanks line
         in if length str_in = 0 \<or> str_in ! 0 = CHR ''#'' then None
            else (case str_find str_in ''='' 0 of
                    None \<Rightarrow> None
                  | Some pos \<Rightarrow>
                      if pos = 0 \<or> pos = length str_in - 1 then None
                      else Some (erase_blanks (substr str_in 0 pos), erase_blanks (drop (pos + 1) str_in)))))"

text \<open>The lines \<open>getline\<close> yields.\<close>

fun getlines :: "string \<Rightarrow> string \<Rightarrow> string list" where
  "getlines cur [] = (if cur = [] then [] else [cur])"
| "getlines cur (c # cs) = (if c = CHR 0x0A then cur # getlines [] cs else getlines (cur @ [c]) cs)"

definition read_lines :: "string list \<Rightarrow> (string \<Rightarrow> string option) \<Rightarrow> string \<Rightarrow> string option" where
  "read_lines ls m = fold (\<lambda>l m. case parse_line l of None \<Rightarrow> m | Some (key, value) \<Rightarrow> m(key \<mapsto> value)) ls m"

definition confCheck :: "int \<Rightarrow> config \<Rightarrow> bool" where
  "confCheck newIdx st = True"

definition cf_init :: "(int \<Rightarrow> config \<Rightarrow> bool) \<Rightarrow> string \<Rightarrow> (string \<times> int) option \<Rightarrow> config \<Rightarrow> bool \<times> config" where
  "cf_init check confFile file st =
     (let newIdx = (if mIdx st = 0 then 1 else 0);
          st = st\<lparr>mConfFn := confFile\<rparr>
      in case file of
           None \<Rightarrow> (False, st)
         | Some (content, st_mtime) \<Rightarrow>
             (let st = st\<lparr>mConfMap := (mConfMap st)(newIdx := read_lines (getlines [] content) Map.empty)\<rparr>
              in if check newIdx st then (True, st\<lparr>mIdx := newIdx, mModifiedTime := st_mtime\<rparr>) else (False, st)))"

section \<open>Lookups\<close>

definition getConfStr :: "string \<Rightarrow> config \<Rightarrow> string option" where
  "getConfStr key st = (if mIdx st = -1 then None else mConfMap st (mIdx st) key)"

definition getConfInt :: "string \<Rightarrow> config \<Rightarrow> int" where
  "getConfInt key st =
     (if mIdx st = -1 then -1 else (case mConfMap st (mIdx st) key of None \<Rightarrow> -1 | Some v \<Rightarrow> atol v))"

definition checkIsKeyExist :: "int \<Rightarrow> string \<Rightarrow> config \<Rightarrow> bool" where
  "checkIsKeyExist newIdx key st \<longleftrightarrow> mConfMap st newIdx key \<noteq> None"

definition checkIsInRange :: "int \<Rightarrow> string \<Rightarrow> int \<Rightarrow> int \<Rightarrow> config \<Rightarrow> bool" where
  "checkIsInRange newIdx key max_v min_v st =
     (case mConfMap st newIdx key of None \<Rightarrow> False | Some v \<Rightarrow> (let value = atol v in value \<le> max_v \<and> value \<ge> min_v))"

text \<open>\<open>None\<close> is an access outside the array of two maps.\<close>

definition setConfItem :: "string \<Rightarrow> string \<Rightarrow> config \<Rightarrow> config option" where
  "setConfItem key value st =
     (if mIdx st \<in> {0, 1} then Some (st\<lparr>mConfMap := (mConfMap st)(mIdx st := (mConfMap st (mIdx st))(key \<mapsto> value))\<rparr>) else None)"

definition setConfItem_int :: "string \<Rightarrow> int \<Rightarrow> config \<Rightarrow> config option" where
  "setConfItem_int key value st = setConfItem key (dec_int value) st"

section \<open>The checker thread\<close>

definition startRecheck :: "string \<Rightarrow> int \<Rightarrow> config \<Rightarrow> bool \<times> config" where
  "startRecheck confRecheckTimeKey create_result st =
     (if confRecheckTimeKey = [] then (False, st)
      else if mRecheckThread st then (False, st)
      else (let st = st\<lparr>mConfRecheckKey := confRecheckTimeKey, mKeepCheck := True\<rparr>
            in if create_result \<noteq> 0 then (False, st) else (True, st\<lparr>mRecheckThread := True\<rparr>)))"

definition cf_stop :: "config \<Rightarrow> config" where
  "cf_stop st = st\<lparr>mKeepCheck := False\<rparr>"

definition cf_join :: "config \<Rightarrow> config" where
  "cf_join st = st\<lparr>mRecheckThread := False\<rparr>"

text \<open>One turn of the inner loop of \<open>rechecking\<close>: \<open>None\<close> when the thread returns, otherwise the
  new state and the seconds slept.\<close>

definition rechecking_turn ::
    "(int \<Rightarrow> config \<Rightarrow> bool) \<Rightarrow> (string \<times> int) option \<Rightarrow> int \<Rightarrow> nat \<Rightarrow> config \<Rightarrow> (config \<times> nat) option" where
  "rechecking_turn check file st_mtime sleepSeconds st =
     (if \<not> mKeepCheck st then None
      else
        (let t = getConfInt (mConfRecheckKey st) st;
             recheckTime = (if t \<le> 0 then 60 else t)
         in if int sleepSeconds \<ge> recheckTime
            then Some (if st_mtime > mModifiedTime st then snd (cf_init check (mConfFn st) file st) else st, 0)
            else Some (st, sleepSeconds + 1)))"

lemma setConfItem_int_getConfInt:
  assumes "- (2 ^ 63) \<le> v" and "v < 2 ^ 63" and "setConfItem_int k v st = Some st'"
  shows "getConfInt k st' = v"
  using assms by (auto simp: setConfItem_int_def setConfItem_def getConfInt_def atol_dec_int split: if_splits)

section \<open>Events\<close>

datatype cf_event = Init string "(string \<times> int) option" | Turn "(string \<times> int) option" int nat
  | StartRecheck string int | Stop | Join

definition cf_exec :: "(int \<Rightarrow> config \<Rightarrow> bool) \<Rightarrow> cf_event \<Rightarrow> config \<Rightarrow> config" where
  "cf_exec check e st =
     (case e of
        Init fn file \<Rightarrow> snd (cf_init check fn file st)
      | Turn file mtime secs \<Rightarrow> (case rechecking_turn check file mtime secs st of None \<Rightarrow> st | Some (st', _) \<Rightarrow> st')
      | StartRecheck key r \<Rightarrow> snd (startRecheck key r st)
      | Stop \<Rightarrow> cf_stop st
      | Join \<Rightarrow> cf_join st)"

section \<open>Entries\<close>

definition trimmed :: "string \<Rightarrow> bool" where
  "trimmed s \<longleftrightarrow> s \<noteq> [] \<and> hd s \<notin> set blanks \<and> last s \<notin> set blanks"

definition entry_wf :: "string \<Rightarrow> string \<Rightarrow> bool" where
  "entry_wf k v \<longleftrightarrow> trimmed k \<and> trimmed v \<and> CHR ''='' \<notin> set k \<and> hd k \<noteq> CHR ''#''"

lemma erase_blanks_Trim: "erase_blanks s = Trim blanks s"
  by (simp add: erase_blanks_def Trim_def TrimLeft_def TrimRight_def substr_def Let_def split: option.split)

lemma erase_blanks_id: "trimmed s \<Longrightarrow> erase_blanks s = s"
  by (simp add: erase_blanks_Trim Trim_id trimmed_def)

lemma erase_blanks_trimmed: "erase_blanks s \<noteq> [] \<Longrightarrow> trimmed (erase_blanks s)"
  by (simp add: erase_blanks_Trim trimmed_def Trim_borders)

lemma Trim_Nil: "Trim t s = [] \<longleftrightarrow> set s \<subseteq> set t"
proof -
  have "dropWhile (\<lambda>c. c \<in> set t) (rev l) = [] \<longleftrightarrow> set l \<subseteq> set t" for l
    by (auto simp: dropWhile_eq_Nil_conv)
  moreover have "set (dropWhile (\<lambda>c. c \<in> set t) s) \<subseteq> set t \<longleftrightarrow> set s \<subseteq> set t"
    by (induction s) auto
  ultimately show ?thesis by (simp add: Trim_def TrimLeft_eq TrimRight_eq)
qed

lemma Trim_prefix_hd:
  assumes "hd s \<notin> set t" and "s \<noteq> []"
  shows "Trim t s \<noteq> []" and "hd (Trim t s) = hd s" and "set (Trim t s) \<subseteq> set s"
proof -
  have l: "dropWhile (\<lambda>c. c \<in> set t) s = s" using assms by (simp add: dropWhile_eq_self_iff)
  have "set s \<subseteq> set t \<Longrightarrow> False" using assms hd_in_set by blast
  then show ne: "Trim t s \<noteq> []" using Trim_Nil by blast
  obtain ys where "rev s = ys @ dropWhile (\<lambda>c. c \<in> set t) (rev s)" by (metis takeWhile_dropWhile_id)
  then have "s = Trim t s @ rev ys" unfolding Trim_def TrimLeft_eq TrimRight_eq l by (metis rev_append rev_rev_ident)
  then show "hd (Trim t s) = hd s" "set (Trim t s) \<subseteq> set s" using ne by (metis hd_append2, metis set_append Un_upper1)
qed

lemma parse_line_wf:
  assumes "parse_line l = Some (k, v)"
  shows "entry_wf k v"
proof -
  let ?s = "erase_blanks l"
  obtain pos where s: "?s \<noteq> []" "hd ?s \<noteq> CHR ''#''" and pos: "str_find ?s ''='' 0 = Some pos" "pos \<noteq> 0" "pos \<noteq> length ?s - 1"
    and k: "k = erase_blanks (take pos ?s)" and v: "v = erase_blanks (drop (pos + 1) ?s)"
    using assms by (auto simp: parse_line_def Let_def substr_def hd_conv_nth split: if_splits option.splits)
  have b: "pos < length ?s" "\<forall>j<pos. ?s ! j \<noteq> CHR ''=''"
    using pos(1) by (auto simp: str_find_def match_idx_single first_idx_Some)
  have "trimmed ?s" by (rule erase_blanks_trimmed [OF s(1)])
  then have hd: "hd (take pos ?s) \<notin> set blanks" "take pos ?s \<noteq> []" "hd (take pos ?s) = hd ?s"
    using pos(2) s(1) by (simp_all add: trimmed_def hd_take)
  have "CHR ''='' \<notin> set (take pos ?s)" using b by (auto simp: in_set_conv_nth)
  moreover have "drop (pos + 1) ?s \<noteq> []" "last (drop (pos + 1) ?s) \<notin> set blanks"
    using b(1) pos(3) \<open>trimmed ?s\<close> by (auto simp: trimmed_def)
  then have "\<not> set (drop (pos + 1) ?s) \<subseteq> set blanks" using last_in_set by blast
  ultimately show ?thesis
    using Trim_prefix_hd [OF hd(1,2)] hd(3) s(2) Trim_Nil [of blanks "drop (pos + 1) ?s"] erase_blanks_trimmed
    unfolding entry_wf_def k v by (auto simp: erase_blanks_Trim)
qed

definition conf_wf :: "config \<Rightarrow> bool" where
  "conf_wf st \<longleftrightarrow> mIdx st \<in> {-1, 0, 1} \<and> (\<forall>i k v. mConfMap st i k = Some v \<longrightarrow> entry_wf k v)"

lemma read_lines_wf:
  assumes "\<forall>k v. m k = Some v \<longrightarrow> entry_wf k v" and "read_lines ls m k = Some v"
  shows "entry_wf k v"
  using assms
proof (induction ls arbitrary: m)
  case (Cons l ls)
  show ?case
  proof (cases "parse_line l")
    case None
    then show ?thesis using Cons by (simp add: read_lines_def)
  next
    case (Some p)
    obtain k' v' where p: "p = (k', v')" by (cases p)
    have "\<forall>k v. (m(k' \<mapsto> v')) k = Some v \<longrightarrow> entry_wf k v"
      using Cons.prems(1) parse_line_wf [of l k' v'] Some p by simp
    moreover have "read_lines ls (m(k' \<mapsto> v')) k = Some v" using Cons.prems(2) Some p by (simp add: read_lines_def)
    ultimately show ?thesis by (rule Cons.IH)
  qed
qed (simp add: read_lines_def)

lemma cf_init_wf: "conf_wf st \<Longrightarrow> conf_wf (snd (cf_init check fn file st))"
  using read_lines_wf [of Map.empty]
  by (auto simp: conf_wf_def cf_init_def Let_def split: option.splits)

lemma cf_exec_wf: "conf_wf st \<Longrightarrow> conf_wf (cf_exec check e st)"
  using cf_init_wf [of st check]
  by (cases e) (auto simp: cf_exec_def rechecking_turn_def startRecheck_def cf_stop_def cf_join_def conf_wf_def Let_def)


definition print_entry :: "string \<times> string \<Rightarrow> string" where
  "print_entry = (\<lambda>(k, v). k @ ''='' @ v @ [CHR 0x0A])"

lemma getlines_line: "CHR 0x0A \<notin> set l \<Longrightarrow> getlines cur (l @ CHR 0x0A # rest) = (cur @ l) # getlines [] rest"
  by (induction l arbitrary: cur) auto

lemma parse_line_entry:
  assumes "entry_wf k v"
  shows "parse_line (k @ ''='' @ v) = Some (k, v)"
proof -
  let ?l = "k @ ''='' @ v"
  note w = assms [unfolded entry_wf_def trimmed_def]
  have "trimmed ?l" using w by (simp add: trimmed_def)
  then have e: "erase_blanks ?l = ?l" by (rule erase_blanks_id)
  have "\<forall>x\<in>set k. CHR ''='' \<noteq> x" using w by auto
  then have "first_idx ((=) CHR ''='') ?l = Some (length k)" by (subst first_idx_append) simp_all
  then have f: "str_find ?l ''='' 0 = Some (length k)" by (simp add: str_find_def match_idx_single)
  have "?l ! 0 \<noteq> CHR ''#''" using w by (cases k) auto
  moreover have "length k \<noteq> 0" "length k \<noteq> length ?l - 1" using w by auto
  ultimately show ?thesis
    using e f erase_blanks_id [of k] erase_blanks_id [of v] assms
    by (simp add: parse_line_def Let_def substr_def entry_wf_def)
qed

lemma read_printed:
  assumes "\<forall>(k, v) \<in> set kvs. entry_wf k v \<and> CHR 0x0A \<notin> set k \<and> CHR 0x0A \<notin> set v"
  shows "read_lines (getlines [] (concat (map print_entry kvs))) m = (\<lambda>k. case map_of (rev kvs) k of None \<Rightarrow> m k | v \<Rightarrow> v)"
  using assms
proof (induction kvs arbitrary: m)
  case (Cons kv kvs)
  obtain k v where kv: "kv = (k, v)" by (cases kv)
  have e: "entry_wf k v" "CHR 0x0A \<notin> set (k @ ''='' @ v)" using Cons.prems kv by auto
  have "getlines [] (print_entry kv @ concat (map print_entry kvs)) = (k @ ''='' @ v) # getlines [] (concat (map print_entry kvs))"
    using getlines_line [OF e(2), of "[]" "concat (map print_entry kvs)"] by (simp add: print_entry_def kv)
  then have "read_lines (getlines [] (concat (map print_entry (kv # kvs)))) m
      = read_lines (getlines [] (concat (map print_entry kvs))) (m(k \<mapsto> v))"
    using parse_line_entry [OF e(1)] by (simp add: read_lines_def)
  also have "\<dots> = (\<lambda>x. case map_of (rev kvs) x of None \<Rightarrow> (m(k \<mapsto> v)) x | v \<Rightarrow> v)"
    using Cons by simp
  finally show ?case by (auto simp: kv map_add_def fun_eq_iff split: option.splits)
qed (simp add: read_lines_def)



end
