(* ===== verification/Log_Stream.thy ===== *)
theory Log_Stream
  imports Str_Ops "HOL-Library.Signed_Division"
begin

text \<open>
  \<^verbatim>\<open>src/mynetlib/base/LogStream.h\<close> and \<^verbatim>\<open>LogStream.cc\<close>: integer conversion and the
  fixed buffer of a log line. A write outside the array is \<open>None\<close>; the initial, uninitialised
  content of a buffer is an argument, and so is the text \<open>snprintf\<close> produces for a floating point
  number or a format.
\<close>

section \<open>Integer conversion\<close>

definition digits :: string where
  "digits = ''9876543210123456789''"

definition digitsHex :: string where
  "digitsHex = ''0123456789ABCDEF''"

text \<open>The digits in the order the loops store them; \<open>sdiv\<close> and \<open>smod\<close> truncate as in C.\<close>

function convert_loop :: "int \<Rightarrow> string" where
  "convert_loop i = digits ! nat (9 + i smod 10) # (if i sdiv 10 \<noteq> 0 then convert_loop (i sdiv 10) else [])"
  by pat_completeness auto
termination
  by (relation "measure (\<lambda>i. nat \<bar>i\<bar>)") (auto simp: signed_divide_int_def abs_mult)

definition convert :: "int \<Rightarrow> string" where
  "convert value = rev (convert_loop value @ (if value < 0 then ''-'' else []))"

fun convertHex_loop :: "nat \<Rightarrow> string" where
  "convertHex_loop i = digitsHex ! (i mod 16) # (if i div 16 \<noteq> 0 then convertHex_loop (i div 16) else [])"

definition convertHex :: "nat \<Rightarrow> string" where
  "convertHex value = rev (convertHex_loop value)"

declare convert_loop.simps [simp del] convertHex_loop.simps [simp del]

section \<open>Fixed buffers\<close>

definition kSmallBuffer :: nat where "kSmallBuffer = 4000"
definition kMaxNumericSize :: nat where "kMaxNumericSize = 32"

record fixed_buffer =
  fb_data :: string
  fb_cur :: nat

definition new_FixedBuffer :: "string \<Rightarrow> fixed_buffer" where
  "new_FixedBuffer memory = \<lparr>fb_data = memory, fb_cur = 0\<rparr>"

definition fb_length :: "fixed_buffer \<Rightarrow> nat" where
  "fb_length b = fb_cur b"

definition avail :: "fixed_buffer \<Rightarrow> int" where
  "avail b = int (length (fb_data b)) - int (fb_cur b)"

text \<open>Storing characters at a position of the array.\<close>

definition fb_write :: "nat \<Rightarrow> string \<Rightarrow> fixed_buffer \<Rightarrow> fixed_buffer option" where
  "fb_write pos cs b =
     (if pos + length cs \<le> length (fb_data b)
      then Some (b\<lparr>fb_data := take pos (fb_data b) @ cs @ drop (pos + length cs) (fb_data b)\<rparr>) else None)"

definition fb_append :: "string \<Rightarrow> fixed_buffer \<Rightarrow> fixed_buffer option" where
  "fb_append buf b =
     (if avail b > int (length buf)
      then map_option (\<lambda>b. b\<lparr>fb_cur := fb_cur b + length buf\<rparr>) (fb_write (fb_cur b) buf b)
      else Some b)"

definition fb_add :: "nat \<Rightarrow> fixed_buffer \<Rightarrow> fixed_buffer" where
  "fb_add len b = b\<lparr>fb_cur := fb_cur b + len\<rparr>"

definition fb_reset :: "fixed_buffer \<Rightarrow> fixed_buffer" where
  "fb_reset b = b\<lparr>fb_cur := 0\<rparr>"

definition fb_bzero :: "fixed_buffer \<Rightarrow> fixed_buffer" where
  "fb_bzero b = b\<lparr>fb_data := replicate (length (fb_data b)) (CHR 0x00)\<rparr>"

definition debugString :: "fixed_buffer \<Rightarrow> fixed_buffer option" where
  "debugString b = fb_write (fb_cur b) [CHR 0x00] b"

definition fb_toString :: "fixed_buffer \<Rightarrow> string" where
  "fb_toString b = take (fb_cur b) (fb_data b)"

section \<open>Output operators\<close>

text \<open>\<open>convert\<close> stores the digits and a null character before the length is added.\<close>

definition formatInteger :: "int \<Rightarrow> fixed_buffer \<Rightarrow> fixed_buffer option" where
  "formatInteger v b =
     (if avail b \<ge> int kMaxNumericSize
      then map_option (fb_add (length (convert v))) (fb_write (fb_cur b) (convert v @ [CHR 0x00]) b)
      else Some b)"

definition put_pointer :: "nat \<Rightarrow> fixed_buffer \<Rightarrow> fixed_buffer option" where
  "put_pointer v b =
     (if avail b \<ge> int kMaxNumericSize
      then map_option (fb_add (length (convertHex v) + 2)) (fb_write (fb_cur b) (''0x'' @ convertHex v @ [CHR 0x00]) b)
      else Some b)"

text \<open>\<open>snprintf\<close> stores at most 31 characters and a null character and returns the full length.\<close>

definition put_double :: "string \<Rightarrow> fixed_buffer \<Rightarrow> fixed_buffer option" where
  "put_double printed b =
     (if avail b \<ge> int kMaxNumericSize
      then map_option (fb_add (length printed)) (fb_write (fb_cur b) (take (kMaxNumericSize - 1) printed @ [CHR 0x00]) b)
      else Some b)"

definition put_bool :: "bool \<Rightarrow> fixed_buffer \<Rightarrow> fixed_buffer option" where
  "put_bool v b = fb_append (if v then ''1'' else ''0'') b"

definition put_char :: "char \<Rightarrow> fixed_buffer \<Rightarrow> fixed_buffer option" where
  "put_char v b = fb_append [v] b"

definition put_cstr :: "string option \<Rightarrow> fixed_buffer \<Rightarrow> fixed_buffer option" where
  "put_cstr str b = (case str of Some s \<Rightarrow> fb_append (c_str s) b | None \<Rightarrow> fb_append ''(null)'' b)"

definition put_string :: "string \<Rightarrow> fixed_buffer \<Rightarrow> fixed_buffer option" where
  "put_string v b = fb_append v b"

text \<open>\<open>Fmt\<close> asserts that the printed text fits its 32 bytes.\<close>

definition put_Fmt :: "string \<Rightarrow> fixed_buffer \<Rightarrow> fixed_buffer option" where
  "put_Fmt printed b = (if length printed < 32 then fb_append printed b else None)"

datatype log_item = LBool bool | LInt int | LPointer nat | LDouble string | LChar char | LCStr "string option"
  | LString string | LFmt string

definition put_item :: "log_item \<Rightarrow> fixed_buffer \<Rightarrow> fixed_buffer option" where
  "put_item it b =
     (case it of LBool v \<Rightarrow> put_bool v b | LInt v \<Rightarrow> formatInteger v b | LPointer v \<Rightarrow> put_pointer v b
      | LDouble s \<Rightarrow> put_double s b | LChar c \<Rightarrow> put_char c b | LCStr s \<Rightarrow> put_cstr s b | LString s \<Rightarrow> put_string s b
      | LFmt s \<Rightarrow> put_Fmt s b)"

fun put_items :: "log_item list \<Rightarrow> fixed_buffer \<Rightarrow> fixed_buffer option" where
  "put_items [] b = Some b"
| "put_items (it # its) b = Option.bind (put_item it b) (put_items its)"

section \<open>Conversion is printing\<close>

lemma digits_nth: "d < 10 \<Longrightarrow> digits ! nat (9 + int d) = dec_digit d \<and> digits ! nat (9 - int d) = dec_digit d"
proof -
  assume "d < 10"
  then have "d \<in> {0, 1, 2, 3, 4, 5, 6, 7, 8, 9}" by auto
  then show ?thesis by (elim insertE) (simp_all add: digits_def dec_digit_def char_of_def bit_0)
qed

lemma convert_loop_step:
  "convert_loop (int n) = dec_digit (n mod 10) # (if n < 10 then [] else convert_loop (int (n div 10)))"
  "convert_loop (- int n) = dec_digit (n mod 10) # (if n < 10 then [] else convert_loop (- int (n div 10)))"
proof -
  have d: "int n smod 10 = int (n mod 10)" "- int n smod 10 = - int (n mod 10)"
      "int n sdiv 10 = int (n div 10)" "- int n sdiv 10 = - int (n div 10)"
    by (cases "n = 0"; simp add: signed_modulo_int_def signed_divide_int_def of_nat_mod of_nat_div)+
  have z: "n div 10 = 0 \<longleftrightarrow> n < 10" by auto
  have dig: "digits ! nat (9 + int (n mod 10)) = dec_digit (n mod 10)" "digits ! nat (9 + - int (n mod 10)) = dec_digit (n mod 10)"
    using digits_nth [of "n mod 10"] by simp_all
  show "convert_loop (int n) = dec_digit (n mod 10) # (if n < 10 then [] else convert_loop (int (n div 10)))"
    unfolding convert_loop.simps [of "int n"] d dig using z by auto
  show "convert_loop (- int n) = dec_digit (n mod 10) # (if n < 10 then [] else convert_loop (- int (n div 10)))"
    unfolding convert_loop.simps [of "- int n"] d dig using z by auto
qed

lemma convert_loop_nat: "convert_loop (int n) = rev (dec_nat n) \<and> convert_loop (- int n) = rev (dec_nat n)"
proof (induction n rule: dec_nat.induct)
  case (1 n)
  show ?case
  proof (cases "n < 10")
    case True
    then show ?thesis by (simp add: convert_loop_step [of n] dec_nat.simps [of n])
  next
    case False
    then show ?thesis
      using 1 [OF False] unfolding convert_loop_step [of n] dec_nat.simps [of n] by simp
  qed
qed

lemma convert_dec_int: "convert v = dec_int v"
proof (cases "v < 0")
  case True
  then have "v = - int (nat (- v))" by simp
  then have "convert_loop v = rev (dec_nat (nat (- v)))" using convert_loop_nat [of "nat (- v)"] by metis
  then show ?thesis using True by (simp add: convert_def dec_int_def)
next
  case False
  then have "convert_loop v = rev (dec_nat (nat v))" using convert_loop_nat [of "nat v"] by simp
  then show ?thesis using False by (simp add: convert_def dec_int_def)
qed

lemma length_convertHex: "n < 16 ^ k \<Longrightarrow> 0 < k \<Longrightarrow> length (convertHex n) \<le> k"
proof (induction k arbitrary: n)
  case (Suc k)
  have "n div 16 < 16 ^ k" using Suc.prems(1) by (simp add: div_less_iff_less_mult)
  then show ?case
    using Suc by (cases "n div 16 = 0"; cases k) (auto simp: convertHex_def convertHex_loop.simps [of n])
qed simp

text \<open>Reading hexadecimal digits back.\<close>

lemma digitsHex_nth:
  assumes "d < 16"
  shows "FromHex (of_char (digitsHex ! d)) = Some d"
proof -
  have "d \<in> {0, 1, 2, 3, 4, 5, 6, 7, 8, 9, 10, 11, 12, 13, 14, 15}" using assms by (simp only: insert_iff empty_iff) presburger
  then show ?thesis by (elim insertE) (simp_all add: digitsHex_def FromHex_def)
qed

lemma convertHex_value: "foldl (\<lambda>a c. 16 * a + the (FromHex (of_char c))) 0 (convertHex n) = n"
proof (induction n rule: convertHex_loop.induct)
  case (1 n)
  have "FromHex (of_char (digitsHex ! (n mod 16))) = Some (n mod 16)" by (rule digitsHex_nth) simp
  then show ?case using 1 by (auto simp: convertHex_def convertHex_loop.simps [of n])
qed

section \<open>No item writes outside the buffer\<close>

definition item_ok :: "log_item \<Rightarrow> bool" where
  "item_ok it = (case it of LInt v \<Rightarrow> - (2 ^ 63) \<le> v \<and> v < 2 ^ 64 | LPointer v \<Rightarrow> v < 2 ^ 64
     | LDouble s \<Rightarrow> length s < kMaxNumericSize | LFmt s \<Rightarrow> length s < 32 | _ \<Rightarrow> True)"

definition render :: "log_item \<Rightarrow> string" where
  "render it = (case it of LBool v \<Rightarrow> if v then ''1'' else ''0'' | LInt v \<Rightarrow> dec_int v | LPointer v \<Rightarrow> ''0x'' @ convertHex v
     | LDouble s \<Rightarrow> s | LChar c \<Rightarrow> [c] | LCStr s \<Rightarrow> (case s of Some s \<Rightarrow> c_str s | None \<Rightarrow> ''(null)'') | LString s \<Rightarrow> s | LFmt s \<Rightarrow> s)"

definition fb_wf :: "fixed_buffer \<Rightarrow> bool" where
  "fb_wf b \<longleftrightarrow> fb_cur b < length (fb_data b)"

definition kept_or_full :: "log_item \<Rightarrow> fixed_buffer \<Rightarrow> fixed_buffer \<Rightarrow> bool" where
  "kept_or_full it b b' \<longleftrightarrow> fb_wf b' \<and> length (fb_data b') = length (fb_data b)
     \<and> (fb_toString b' = fb_toString b @ render it \<and> fb_cur b' = fb_cur b + length (render it)
        \<or> b' = b \<and> avail b < int (length (render it)) + 32)"

lemma fb_write_advance:
  assumes "fb_cur b + length (cs @ cs') \<le> length (fb_data b)" and "fb_cur b + length cs < length (fb_data b)"
  shows "\<exists>b'. fb_write (fb_cur b) (cs @ cs') b = Some b' \<and> fb_wf (fb_add (length cs) b')
     \<and> length (fb_data (fb_add (length cs) b')) = length (fb_data b)
     \<and> fb_toString (fb_add (length cs) b') = fb_toString b @ cs \<and> fb_cur (fb_add (length cs) b') = fb_cur b + length cs"
  using assms by (simp add: fb_write_def fb_wf_def fb_add_def fb_toString_def)

lemma fb_append_item:
  assumes "fb_wf b" and "render it = cs"
  shows "\<exists>b'. fb_append cs b = Some b' \<and> kept_or_full it b b'"
proof (cases "avail b > int (length cs)")
  case True
  then have "fb_cur b + length cs < length (fb_data b)" by (simp add: avail_def)
  then show ?thesis
    using fb_write_advance [of b cs "[]"] True assms(2) by (auto simp: fb_append_def kept_or_full_def fb_add_def)
next
  case False
  then show ?thesis using assms by (simp add: fb_append_def kept_or_full_def)
qed

text \<open>The numeric operators need 32 free bytes.\<close>

lemma numeric_item:
  assumes "fb_wf b" and "render it = cs" and "length cs < kMaxNumericSize"
  shows "\<exists>b'. (if avail b \<ge> int kMaxNumericSize
      then map_option (fb_add (length cs)) (fb_write (fb_cur b) (cs @ [CHR 0x00]) b) else Some b) = Some b'
    \<and> kept_or_full it b b'"
proof (cases "avail b \<ge> int kMaxNumericSize")
  case True
  then have "fb_cur b + length (cs @ [CHR 0x00]) \<le> length (fb_data b)" "fb_cur b + length cs < length (fb_data b)"
    using assms(3) by (auto simp: avail_def)
  then show ?thesis using fb_write_advance [of b cs "[CHR 0x00]"] True assms(2) by (auto simp: kept_or_full_def)
next
  case False
  then show ?thesis using assms by (simp add: kept_or_full_def kMaxNumericSize_def)
qed

lemma length_dec_int: "- (2 ^ 63) \<le> v \<Longrightarrow> v < 2 ^ 64 \<Longrightarrow> length (dec_int v) < kMaxNumericSize"
proof -
  assume v: "- (2 ^ 63) \<le> v" "v < 2 ^ 64"
  have "nat \<bar>v\<bar> < 10 ^ 20" using v by auto
  then have "length (dec_nat (nat \<bar>v\<bar>)) \<le> 20" by (rule length_dec_nat) simp
  then show ?thesis by (auto simp: dec_int_def kMaxNumericSize_def)
qed

lemma put_item_ok:
  assumes wf: "fb_wf b" and ok: "item_ok it"
  shows "\<exists>b'. put_item it b = Some b' \<and> kept_or_full it b b'"
proof (cases it)
  case (LInt v)
  then have "length (dec_int v) < kMaxNumericSize" using ok by (intro length_dec_int) (simp_all add: item_ok_def)
  with numeric_item [OF wf, of it "dec_int v"] LInt show ?thesis
    by (simp add: put_item_def formatInteger_def convert_dec_int render_def split: if_splits)
next
  case (LPointer v)
  have "length (convertHex v) \<le> 16" using ok LPointer by (intro length_convertHex) (simp_all add: item_ok_def)
  with numeric_item [OF wf, of it "''0x'' @ convertHex v"] LPointer show ?thesis
    by (simp add: put_item_def put_pointer_def render_def kMaxNumericSize_def split: if_splits)
next
  case (LDouble s)
  with numeric_item [OF wf, of it s] ok show ?thesis
    by (simp add: put_item_def put_double_def render_def item_ok_def kMaxNumericSize_def split: if_splits)
next
  case (LFmt s)
  with fb_append_item [OF wf, of it s] ok show ?thesis by (simp add: put_item_def put_Fmt_def render_def item_ok_def)
qed (use fb_append_item [OF wf, of it "render it"] in \<open>auto simp: put_item_def put_bool_def put_char_def put_cstr_def
      put_string_def render_def split: option.splits if_splits\<close>)

lemma put_items_ok:
  assumes "fb_cur b < length (fb_data b)" and "list_all item_ok its"
  shows "\<exists>b' kept. put_items its b = Some b' \<and> fb_cur b' < length (fb_data b') \<and> length (fb_data b') = length (fb_data b)
     \<and> subseq kept its \<and> fb_toString b' = fb_toString b @ concat (map render kept)
     \<and> (int (length (concat (map render its))) + 32 \<le> avail b \<longrightarrow> kept = its)"
  using assms
proof (induction its arbitrary: b)
  case (Cons it its)
  then obtain b1 where b1: "put_item it b = Some b1" "kept_or_full it b b1"
    using put_item_ok [of b it] by (auto simp: fb_wf_def)
  have "fb_cur b1 < length (fb_data b1)" "list_all item_ok its"
    using b1(2) Cons.prems(2) by (simp_all add: kept_or_full_def fb_wf_def)
  from Cons.IH [OF this] obtain b' kept where ih: "put_items its b1 = Some b'" "fb_cur b' < length (fb_data b')" "length (fb_data b') = length (fb_data b1)"
      "subseq kept its" "fb_toString b' = fb_toString b1 @ concat (map render kept)"
      "int (length (concat (map render its))) + 32 \<le> avail b1 \<longrightarrow> kept = its"
    by blast
  from b1(2) have len: "length (fb_data b1) = length (fb_data b)" by (simp add: kept_or_full_def)
  show ?case
  proof (cases "fb_toString b1 = fb_toString b @ render it \<and> fb_cur b1 = fb_cur b + length (render it)")
    case True
    then show ?thesis
      using b1(1) ih len by (intro exI [of _ b'] exI [of _ "it # kept"]) (simp add: avail_def)
  next
    case False
    then have "b1 = b" "avail b < int (length (render it)) + 32" using b1(2) by (auto simp: kept_or_full_def)
    then show ?thesis
      using b1(1) ih by (intro exI [of _ b'] exI [of _ kept]) auto
  qed
qed auto

text \<open>(C11) Whatever is streamed into a log line, no operator writes outside the buffer, the terminating null
  character included; the line is the concatenation of the printed items, in order, except those that came
  when the buffer was too full, and nothing is dropped while 32 bytes stay free.\<close>

theorem log_stream_bounds:
  assumes "fb_cur b < length (fb_data b)" and "list_all item_ok its"
  shows "\<exists>b' kept. put_items its b = Some b' \<and> fb_cur b' < length (fb_data b') \<and> length (fb_data b') = length (fb_data b)
     \<and> subseq kept its \<and> fb_toString b' = fb_toString b @ concat (map render kept)
     \<and> (int (length (concat (map render its))) + 32 \<le> avail b \<longrightarrow> kept = its)"
  using put_items_ok [OF assms] .

theorem log_stream_bounds_witness:
  "\<exists>b'. put_items [LString ''x='', LInt (- 12), LPointer 255] (new_FixedBuffer (replicate kSmallBuffer (CHR 0x00))) = Some b'
     \<and> fb_toString b' = ''x=-120xFF''"
proof -
  let ?its = "[LString ''x='', LInt (- 12), LPointer 255]" and ?b = "new_FixedBuffer (replicate kSmallBuffer (CHR 0x00))"
  have r: "concat (map render ?its) = ''x=-120xFF''" by code_simp
  moreover have "list_all item_ok ?its" by (simp add: item_ok_def)
  moreover have "fb_toString ?b = []" "avail ?b = 4000" "fb_cur ?b < length (fb_data ?b)"
    by (simp_all add: fb_toString_def avail_def new_FixedBuffer_def kSmallBuffer_def)
  ultimately show ?thesis using log_stream_bounds [of ?b ?its] by (auto simp: r)
qed

end
