(* ===== verification/Base_Time.thy ===== *)
theory Base_Time
  imports Str_Ops Net_Endian "HOL-Library.Signed_Division"
begin

text \<open>
  \<^verbatim>\<open>src/mynetlib/base/Date.cc\<close>, \<^verbatim>\<open>TimeZone.cc\<close> and \<^verbatim>\<open>Timestamp.cc\<close>: Julian day
  numbers, conversion between seconds and broken-down time, zone files and zone lookup. Division is the
  truncating division of C (\<open>sdiv\<close>, \<open>smod\<close>); the theorems bound the years so that no \<open>int\<close> overflows.
\<close>

section \<open>Dates\<close>

record YearMonthDay =
  ymd_year :: int
  ymd_month :: int
  ymd_day :: int

definition getJulianDayNumber :: "int \<Rightarrow> int \<Rightarrow> int \<Rightarrow> int" where
  "getJulianDayNumber year month day =
     (let a = (14 - month) sdiv 12;
          y = year + 4800 - a;
          m = month + 12 * a - 3
      in day + (153 * m + 2) sdiv 5 + y * 365 + y sdiv 4 - y sdiv 100 + y sdiv 400 - 32045)"

definition getYearMonthDay :: "int \<Rightarrow> YearMonthDay" where
  "getYearMonthDay julianDayNumber =
     (let a = julianDayNumber + 32044;
          b = (4 * a + 3) sdiv 146097;
          c = a - (b * 146097) sdiv 4;
          d = (4 * c + 3) sdiv 1461;
          e = c - (1461 * d) sdiv 4;
          m = (5 * e + 2) sdiv 153
      in \<lparr>ymd_year = b * 100 + d - 4800 + m sdiv 10,
          ymd_month = m + 3 - 12 * (m sdiv 10),
          ymd_day = e - (153 * m + 2) sdiv 5 + 1\<rparr>)"

definition kJulianDayOf1970_01_01 :: int where
  "kJulianDayOf1970_01_01 = getJulianDayNumber 1970 1 1"

definition weekDay :: "int \<Rightarrow> int" where
  "weekDay julianDayNumber = (julianDayNumber + 1) smod 7"

definition date_valid :: "int \<Rightarrow> bool" where
  "date_valid julianDayNumber \<longleftrightarrow> julianDayNumber > 0"

text \<open>\<open>%nd\<close> and \<open>%0nd\<close>.\<close>

definition pad_space :: "nat \<Rightarrow> int \<Rightarrow> string" where
  "pad_space n i = (let s = dec_int i in replicate (n - length s) (CHR '' '') @ s)"

definition pad_zero :: "nat \<Rightarrow> int \<Rightarrow> string" where
  "pad_zero n i =
     (if i < 0 then (let s = dec_nat (nat (- i)) in CHR ''-'' # replicate (n - 1 - length s) (CHR ''0'') @ s)
      else (let s = dec_nat (nat i) in replicate (n - length s) (CHR ''0'') @ s))"

definition toIsoString :: "int \<Rightarrow> string" where
  "toIsoString julianDayNumber =
     (let ymd = getYearMonthDay julianDayNumber
      in take 31 (pad_space 4 (ymd_year ymd) @ ''-'' @ pad_zero 2 (ymd_month ymd) @ ''-'' @ pad_zero 2 (ymd_day ymd)))"

section \<open>Broken-down time\<close>

record tm =
  tm_sec :: int
  tm_min :: int
  tm_hour :: int
  tm_mday :: int
  tm_mon :: int
  tm_year :: int
  tm_wday :: int
  tm_yday :: int
  tm_isdst :: bool
  tm_gmtoff :: int

definition zero_tm :: tm where
  "zero_tm = \<lparr>tm_sec = 0, tm_min = 0, tm_hour = 0, tm_mday = 0, tm_mon = 0, tm_year = 0, tm_wday = 0, tm_yday = 0,
     tm_isdst = False, tm_gmtoff = 0\<rparr>"

definition kSecondsPerDay :: int where
  "kSecondsPerDay = 24 * 60 * 60"

definition fillHMS :: "int \<Rightarrow> tm \<Rightarrow> tm" where
  "fillHMS seconds utc = utc\<lparr>tm_sec := seconds mod 60, tm_min := (seconds div 60) mod 60, tm_hour := seconds div 60 div 60\<rparr>"

definition toUtcTime :: "int \<Rightarrow> bool \<Rightarrow> tm" where
  "toUtcTime secondsSinceEpoch yday =
     (let seconds = secondsSinceEpoch smod kSecondsPerDay;
          days = secondsSinceEpoch sdiv kSecondsPerDay;
          (seconds, days) = (if seconds < 0 then (seconds + kSecondsPerDay, days - 1) else (seconds, days));
          utc = fillHMS seconds zero_tm;
          jd = days + kJulianDayOf1970_01_01;
          ymd = getYearMonthDay jd;
          utc = utc\<lparr>tm_year := ymd_year ymd - 1900, tm_mon := ymd_month ymd - 1, tm_mday := ymd_day ymd, tm_wday := weekDay jd\<rparr>
      in if yday then utc\<lparr>tm_yday := jd - getJulianDayNumber (ymd_year ymd) 1 1\<rparr> else utc)"

definition fromUtcTime_fields :: "int \<Rightarrow> int \<Rightarrow> int \<Rightarrow> int \<Rightarrow> int \<Rightarrow> int \<Rightarrow> int" where
  "fromUtcTime_fields year month day hour minute seconds =
     (let secondsInDay = hour * 3600 + minute * 60 + seconds;
          days = getJulianDayNumber year month day - kJulianDayOf1970_01_01
      in days * kSecondsPerDay + secondsInDay)"

definition fromUtcTime :: "tm \<Rightarrow> int" where
  "fromUtcTime utc = fromUtcTime_fields (tm_year utc + 1900) (tm_mon utc + 1) (tm_mday utc) (tm_hour utc) (tm_min utc) (tm_sec utc)"

section \<open>The calendar\<close>

definition leap :: "int \<Rightarrow> bool" where
  "leap y \<longleftrightarrow> 4 dvd y \<and> (\<not> 100 dvd y \<or> 400 dvd y)"

definition days_in_month :: "int \<Rightarrow> int \<Rightarrow> int" where
  "days_in_month y m = (if m = 2 then if leap y then 29 else 28 else if m \<in> {4, 6, 9, 11} then 30 else 31)"

definition is_date :: "int \<Rightarrow> int \<Rightarrow> int \<Rightarrow> bool" where
  "is_date y m d \<longleftrightarrow> 1 \<le> m \<and> m \<le> 12 \<and> 1 \<le> d \<and> d \<le> days_in_month y m"

lemma sdiv_pos: "0 \<le> (a :: int) \<Longrightarrow> 0 < b \<Longrightarrow> a sdiv b = a div b"
  by (cases "a = 0") (simp_all add: signed_divide_int_def)

lemma smod_pos: "0 \<le> (a :: int) \<Longrightarrow> 0 < b \<Longrightarrow> a smod b = a mod b"
  by (cases "a = 0") (simp_all add: signed_modulo_int_def)

lemma div_bounds: "0 < (k :: int) \<Longrightarrow> k * (x div k) \<le> x \<and> x < k * (x div k) + k"
  using mult_div_mod_eq [of k x] pos_mod_bound [of k x] pos_mod_sign [of k x] by linarith

lemma div_unique_pos: "k * q \<le> x \<Longrightarrow> x < k * q + k \<Longrightarrow> x div k = (q :: int)"
  by (rule int_div_pos_eq [where r = "x - k * q"]) auto

lemma quarter_days: "(b * 146097) div 4 = 36524 * b + b div 4" "(1461 * d) div 4 = 365 * d + d div 4" for b d :: int
  using div_mult_self2 [of 4 b "36524 * b"] div_mult_self2 [of 4 d "365 * d"] by (simp_all add: algebra_simps)

text \<open>The parts of a day number, counted from the 1st of March of a year divisible by 400.\<close>

lemma century_days: "0 \<le> r \<Longrightarrow> r < 100 \<Longrightarrow> 
   (100 * C + r) * 365 + (100 * C + r) div 4 - (100 * C + r) div 100 + (100 * C + r) div 400
   = 36524 * C + C div 4 + 365 * r + r div 4" for C r :: int
proof -
  assume r: "0 \<le> r" "r < 100"
  have "(100 * C + r) div 4 = 25 * C + r div 4"
    using div_mult_self2 [of 4 r "25 * C"] by (simp add: algebra_simps)
  moreover have h: "(100 * C + r) div 100 = C" using r by (intro div_unique_pos) auto
  moreover have "(100 * C + r) div 400 = (100 * C + r) div 100 div 4"
    using zdiv_zmult2_eq [of 4 "100 * C + r" 100] by simp
  ultimately show ?thesis by simp
qed

lemma month_cases: "0 \<le> m \<Longrightarrow> m \<le> 11 \<Longrightarrow> m \<in> {0, 1, 2, 3, 4, 5, 6, 7, 8, 9, 10, 11}" for m :: int
  by (simp only: insert_iff empty_iff) arith

lemma month_shift: "0 \<le> m \<Longrightarrow> m \<le> 11 \<Longrightarrow> (14 - (m + 3 - 12 * (m div 10))) sdiv 12 = m div 10" for m :: int
  by (drule (1) month_cases, elim insertE) (simp_all add: sdiv_pos)

text \<open>The parts \<open>getYearMonthDay\<close> computes: century, year of the century, day of the year, month.\<close>

lemma getYearMonthDay_parts:
  assumes "-32044 \<le> j"
  obtains b d e m where "0 \<le> b" "0 \<le> d" "d < 100" "0 \<le> e" "e \<le> 365" "0 \<le> m" "m \<le> 11"
    "153 * m \<le> 5 * e + 2" "5 * e + 2 < 153 * m + 153"
    "e = 365 \<longrightarrow> d = 4 * (d div 4) + 3 \<and> (d = 99 \<longrightarrow> b = 4 * (b div 4) + 3)"
    "j + 32044 = 36524 * b + b div 4 + 365 * d + d div 4 + e"
    "getYearMonthDay j = \<lparr>ymd_year = b * 100 + d - 4800 + m div 10, ymd_month = m + 3 - 12 * (m div 10),
       ymd_day = e - (153 * m + 2) div 5 + 1\<rparr>"
proof -
  define a where "a = j + 32044"
  define b where "b = (4 * a + 3) div 146097"
  define c where "c = a - (b * 146097) div 4"
  define d where "d = (4 * c + 3) div 1461"
  define e where "e = c - (1461 * d) div 4"
  define m where "m = (5 * e + 2) div 153"
  have a: "0 \<le> a" using assms by (simp add: a_def)
  have b0: "0 \<le> b" using a by (simp add: b_def)
  have b: "146097 * b \<le> 4 * a + 3" "4 * a + 3 < 146097 * b + 146097"
    using div_bounds [of 146097 "4 * a + 3"] unfolding b_def by auto
  have qb: "4 * (b div 4) \<le> b" "b < 4 * (b div 4) + 4" using div_bounds [of 4 b] by simp_all
  have cd: "c = a - 36524 * b - b div 4" by (simp add: c_def quarter_days)
  have c: "0 \<le> c" "c \<le> 36524" using b qb cd by linarith+
  have d0: "0 \<le> d" using c by (simp add: d_def)
  have d: "1461 * d \<le> 4 * c + 3" "4 * c + 3 < 1461 * d + 1461"
    using div_bounds [of 1461 "4 * c + 3"] unfolding d_def by auto
  have qd: "4 * (d div 4) \<le> d" "d < 4 * (d div 4) + 4" using div_bounds [of 4 d] by simp_all
  have d100: "d < 100" using c d by linarith
  have ed: "e = c - 365 * d - d div 4" by (simp add: e_def quarter_days)
  have e: "0 \<le> e" "e \<le> 365" using d qd ed by linarith+
  have me: "153 * m \<le> 5 * e + 2" "5 * e + 2 < 153 * m + 153" using div_bounds [of 153 "5 * e + 2"] by (simp_all add: m_def)
  have m: "0 \<le> m" "m \<le> 11" using e me by linarith+
  have sd: "(4 * a + 3) sdiv 146097 = b" "(b * 146097) sdiv 4 = (b * 146097) div 4" "(4 * c + 3) sdiv 1461 = d"
      "(1461 * d) sdiv 4 = (1461 * d) div 4" "(5 * e + 2) sdiv 153 = m" "m sdiv 10 = m div 10" "(153 * m + 2) sdiv 5 = (153 * m + 2) div 5"
    using a b0 c(1) d0 e(1) m(1) by (simp_all add: sdiv_pos b_def d_def m_def)
  have ymd: "getYearMonthDay j = \<lparr>ymd_year = b * 100 + d - 4800 + m div 10, ymd_month = m + 3 - 12 * (m div 10),
      ymd_day = e - (153 * m + 2) div 5 + 1\<rparr>"
    unfolding getYearMonthDay_def Let_def a_def [symmetric] sd c_def [symmetric] e_def [symmetric] by (rule refl)
  have lp: "d = 4 * (d div 4) + 3 \<and> (d = 99 \<longrightarrow> b = 4 * (b div 4) + 3)" if "e = 365"
  proof (intro conjI impI)
    show "d = 4 * (d div 4) + 3" using that d(2) ed qd by linarith
    assume "d = 99"
    then have "d div 4 = 24" by simp
    with \<open>d = 99\<close> show "b = 4 * (b div 4) + 3" using that ed cd b(2) qb by linarith
  qed
  have jd: "j + 32044 = 36524 * b + b div 4 + 365 * d + d div 4 + e" using cd ed a_def by linarith
  show thesis by (rule that [OF b0 d0 d100 e m me impI [OF lp] jd ymd])
qed

lemma getYearMonthDay_inverse:
  assumes "-32044 \<le> j" and "getYearMonthDay j = \<lparr>ymd_year = y, ymd_month = mon, ymd_day = day\<rparr>"
  shows "getJulianDayNumber y mon day = j"
proof -
  obtain b d e m where p: "0 \<le> b" "0 \<le> d" "d < 100" "0 \<le> e" "e \<le> 365" "0 \<le> m" "m \<le> 11"
      "153 * m \<le> 5 * e + 2" "5 * e + 2 < 153 * m + 153"
    and lp: "e = 365 \<longrightarrow> d = 4 * (d div 4) + 3 \<and> (d = 99 \<longrightarrow> b = 4 * (b div 4) + 3)"
    and jd: "j + 32044 = 36524 * b + b div 4 + 365 * d + d div 4 + e"
    and ymd: "getYearMonthDay j = \<lparr>ymd_year = b * 100 + d - 4800 + m div 10, ymd_month = m + 3 - 12 * (m div 10),
       ymd_day = e - (153 * m + 2) div 5 + 1\<rparr>"
    by (rule getYearMonthDay_parts [OF assms(1)])
  have eqs: "y = b * 100 + d - 4800 + m div 10" "mon = m + 3 - 12 * (m div 10)" "day = e - (153 * m + 2) div 5 + 1"
    using ymd assms(2) by simp_all
  note mm = month_shift [OF p(6,7)]
  let ?y = "100 * b + d"
  have y: "0 \<le> ?y" using p(1,2) by simp
  have "j + 32044 = ?y * 365 + ?y div 4 - ?y div 100 + ?y div 400 + e" using century_days [OF p(2,3), of b] jd by simp
  moreover have "getJulianDayNumber y mon day = e + 1 + ?y * 365 + ?y div 4 - ?y div 100 + ?y div 400 - 32045"
    using y p(6) unfolding eqs getJulianDayNumber_def Let_def mm by (simp add: sdiv_pos algebra_simps)
  ultimately show ?thesis by simp
qed

text \<open>The day of the year, counted from the 1st of March.\<close>

definition march_month :: "int \<Rightarrow> int" where
  "march_month m = (if m \<le> 2 then m + 9 else m - 3)"

lemma march_day:
  assumes "is_date y m d"
  defines "mp \<equiv> march_month m" and "doy \<equiv> d - 1 + (153 * march_month m + 2) div 5"
  shows "0 \<le> mp \<and> mp \<le> 11 \<and> (14 - m) sdiv 12 = mp div 10 \<and> m + 12 * (mp div 10) - 3 = mp
     \<and> 0 \<le> doy \<and> 153 * mp \<le> 5 * doy + 2 \<and> 5 * doy + 2 < 153 * mp + 153
     \<and> doy \<le> 365 \<and> (doy = 365 \<longrightarrow> mp = 11 \<and> leap y)"
proof -
  have "m \<in> {1, 2, 3, 4, 5, 6, 7, 8, 9, 10, 11, 12}"
    using assms(1) unfolding is_date_def insert_iff empty_iff by arith
  then show ?thesis
    unfolding mp_def doy_def using assms(1)
    by (elim insertE) (simp_all add: march_month_def is_date_def days_in_month_def sdiv_pos split: if_splits)
qed

lemma leap_next_year:
  assumes "leap y" and "y + 4799 = 100 * C + r" and "0 \<le> r" and "r < 100"
  shows "r = 4 * (r div 4) + 3" and "r = 99 \<Longrightarrow> C = 4 * (C div 4) + 3"
proof -
  obtain k where k: "y = 4 * k" using assms(1) by (auto simp: leap_def)
  have "r = 4 * (k + 1199 - 25 * C) + 3" using assms(2) k by simp
  then show "r = 4 * (r div 4) + 3" by presburger
  assume "r = 99"
  then have y: "y = 100 * (C - 47)" using assms(2) by simp
  then have "100 dvd y" by simp
  then have "400 dvd y" using assms(1) by (simp add: leap_def)
  then obtain q where "y = 400 * q" by auto
  then have "C = 4 * (q + 11) + 3" using y by simp
  then show "C = 4 * (C div 4) + 3" by presburger
qed

lemma getJulianDayNumber_parts:
  assumes "is_date y m d" and "-4799 \<le> y"
  obtains C r doy mp where "0 \<le> C" "0 \<le> r" "r < 100" "0 \<le> doy" "doy \<le> 365" "0 \<le> mp" "mp \<le> 11"
    "153 * mp \<le> 5 * doy + 2" "5 * doy + 2 < 153 * mp + 153"
    "doy = 365 \<longrightarrow> r = 4 * (r div 4) + 3 \<and> (r = 99 \<longrightarrow> C = 4 * (C div 4) + 3)"
    "getJulianDayNumber y m d + 32044 = 36524 * C + C div 4 + 365 * r + r div 4 + doy"
    "y = 100 * C + r - 4800 + mp div 10" "m = mp + 3 - 12 * (mp div 10)" "d = doy - (153 * mp + 2) div 5 + 1"
proof -
  define mp where "mp = march_month m"
  define doy where "doy = d - 1 + (153 * mp + 2) div 5"
  define y' where "y' = y + 4800 - mp div 10"
  define C where "C = y' div 100"
  define r where "r = y' - 100 * C"
  note md = march_day [OF assms(1), folded mp_def, folded doy_def]
  have mp: "0 \<le> mp" "mp \<le> 11" using md by blast+
  then have "mp div 10 \<le> 1" using div_bounds [of 10 mp] by linarith
  then have y: "0 \<le> y'" using assms(2) by (simp add: y'_def)
  have Cr: "y' = 100 * C + r" "0 \<le> r" "r < 100" using div_bounds [of 100 y'] by (auto simp: C_def r_def)
  have C: "0 \<le> C" using y by (simp add: C_def)
  have ms: "(14 - m) sdiv 12 = mp div 10" "m + 12 * (mp div 10) - 3 = mp" using md by blast+
  have sd: "(153 * mp + 2) sdiv 5 = (153 * mp + 2) div 5" "y' sdiv 4 = y' div 4" "y' sdiv 100 = y' div 100" "y' sdiv 400 = y' div 400"
    using y mp by (simp_all add: sdiv_pos)
  have "getJulianDayNumber y m d = d + (153 * mp + 2) div 5 + y' * 365 + y' div 4 - y' div 100 + y' div 400 - 32045"
    unfolding getJulianDayNumber_def Let_def ms y'_def [symmetric] sd by (rule refl)
  also have "\<dots> = doy + 1 + (36524 * C + C div 4 + 365 * r + r div 4) - 32045"
    using century_days [OF Cr(2,3), of C] by (simp add: Cr(1) doy_def)
  finally have jd: "getJulianDayNumber y m d + 32044 = 36524 * C + C div 4 + 365 * r + r div 4 + doy" by simp
  have lp: "r = 4 * (r div 4) + 3 \<and> (r = 99 \<longrightarrow> C = 4 * (C div 4) + 3)" if "doy = 365"
  proof -
    have "leap y" "mp = 11" using md that by blast+
    then show ?thesis using leap_next_year [of y C r] Cr by (simp add: y'_def)
  qed
  have doy: "0 \<le> doy" "doy \<le> 365" "153 * mp \<le> 5 * doy + 2" "5 * doy + 2 < 153 * mp + 153" using md by blast+
  have ymd: "y = 100 * C + r - 4800 + mp div 10" "m = mp + 3 - 12 * (mp div 10)" "d = doy - (153 * mp + 2) div 5 + 1"
    using Cr(1) ms(2) unfolding y'_def doy_def by linarith+
  show thesis by (rule that [OF C Cr(2,3) doy(1,2) mp doy(3,4) impI [OF lp] jd ymd])
qed

lemma century_bound:
  assumes "4 * (q1 :: int) \<le> C" "C < 4 * q1 + 4" "4 * q2 \<le> r" "r < 4 * q2 + 4" "r < 100" "doy \<le> 365"
    "doy = 365 \<longrightarrow> r = 4 * q2 + 3 \<and> (r = 99 \<longrightarrow> C = 4 * q1 + 3)"
  shows "4 * q1 + 1460 * r + 4 * q2 + 4 * doy + 3 < C + 146097"
proof (cases "doy = 365")
  case True
  then have r: "r = 4 * q2 + 3" "r = 99 \<Longrightarrow> C = 4 * q1 + 3" using assms(7) by blast+
  show ?thesis
  proof (cases "r = 99")
    case True
    then show ?thesis using r(1) r(2) [OF True] \<open>doy = 365\<close> by simp
  next
    case False
    then have "r \<le> 98" using assms(5) by simp
    then show ?thesis using assms(1,3) \<open>doy = 365\<close> by linarith
  qed
next
  case False
  then have "doy \<le> 364" using assms(6) by simp
  moreover have "q2 \<le> 24" using assms(3,5) by simp
  ultimately show ?thesis using assms(1,5) by linarith
qed

lemma getJulianDayNumber_inverse:
  assumes "is_date y m d" and "-4799 \<le> y"
  shows "getYearMonthDay (getJulianDayNumber y m d) = \<lparr>ymd_year = y, ymd_month = m, ymd_day = d\<rparr>"
proof -
  obtain C r doy mp where p: "0 \<le> C" "0 \<le> r" "r < 100" "0 \<le> doy" "doy \<le> 365" "0 \<le> mp" "mp \<le> 11"
    "153 * mp \<le> 5 * doy + 2" "5 * doy + 2 < 153 * mp + 153"
    "doy = 365 \<longrightarrow> r = 4 * (r div 4) + 3 \<and> (r = 99 \<longrightarrow> C = 4 * (C div 4) + 3)"
    and a: "getJulianDayNumber y m d + 32044 = 36524 * C + C div 4 + 365 * r + r div 4 + doy" (is "_ = ?a")
    and ymd: "y = 100 * C + r - 4800 + mp div 10" "m = mp + 3 - 12 * (mp div 10)" "d = doy - (153 * mp + 2) div 5 + 1"
    using getJulianDayNumber_parts [OF assms] by blast
  have q: "4 * (C div 4) \<le> C" "C < 4 * (C div 4) + 4" "4 * (r div 4) \<le> r" "r < 4 * (r div 4) + 4"
    using div_bounds [of 4 C] div_bounds [of 4 r] by simp_all
  have k0: "C \<le> 4 * (C div 4) + 3" "r \<le> 4 * (r div 4) + 3" "0 \<le> r div 4" using q p(2) by simp_all
  have k2: "4 * (r div 4) + 4 * doy + 3 < r + 1461"
    using p(5,10) q(3) by (cases "doy = 365") linarith+
  have k1: "4 * (C div 4) + 1460 * r + 4 * (r div 4) + 4 * doy + 3 < C + 146097"
    by (rule century_bound [OF q p(3,5,10)])
  have "(4 * ?a + 3) div 146097 = C"
  proof (rule div_unique_pos)
    show "146097 * C \<le> 4 * ?a + 3" unfolding distrib_left using k0 p(2,4) by linarith
    show "4 * ?a + 3 < 146097 * C + 146097" unfolding distrib_left using k1 by linarith
  qed
  moreover have "?a - (C * 146097) div 4 = 365 * r + r div 4 + doy" (is "_ = ?c") by (simp add: quarter_days)
  moreover have "(4 * ?c + 3) div 1461 = r"
  proof (rule div_unique_pos)
    show "1461 * r \<le> 4 * ?c + 3" unfolding distrib_left using k0 p(4) by linarith
    show "4 * ?c + 3 < 1461 * r + 1461" unfolding distrib_left using k2 by linarith
  qed
  moreover have "?c - (1461 * r) div 4 = doy" by (simp add: quarter_days)
  moreover have "(5 * doy + 2) div 153 = mp" using p by (intro div_unique_pos) auto
  moreover have n: "0 \<le> r div 4" "0 \<le> C div 4" using p(1,2) by simp_all
  moreover have "0 \<le> 4 * ?a + 3" "0 \<le> 4 * ?c + 3" unfolding distrib_left using p(1,2,4) n by linarith+
  moreover have "0 \<le> C * 146097" "0 \<le> 1461 * r" "0 \<le> 5 * doy + 2" "0 \<le> 153 * mp + 2" using p(1,2,4,6) by linarith+
  ultimately have sd: "(4 * ?a + 3) sdiv 146097 = C" "?a - (C * 146097) sdiv 4 = ?c" "(4 * ?c + 3) sdiv 1461 = r"
      "?c - (1461 * r) sdiv 4 = doy" "(5 * doy + 2) sdiv 153 = mp" "mp sdiv 10 = mp div 10" "(153 * mp + 2) sdiv 5 = (153 * mp + 2) div 5"
    using p(6) by (simp_all only: sdiv_pos zero_less_numeral)
  show ?thesis
    unfolding getYearMonthDay_def Let_def a sd using ymd by simp
qed

lemma leap_february:
  assumes "d = 4 * (d div 4) + 3 \<and> (d = 99 \<longrightarrow> b = 4 * (b div 4) + 3)" and "0 \<le> d" and "d < 100"
  shows "leap (b * 100 + d - 4800 + 1)"
proof -
  have "b * 100 + d - 4800 + 1 = 4 * (25 * b + d div 4 - 1199)" using assms(1) by simp
  then have 4: "4 dvd b * 100 + d - 4800 + 1" by (rule dvdI)
  show ?thesis
  proof (cases "d = 99")
    case True
    then have "b * 100 + d - 4800 + 1 = 400 * (b div 4 - 11)" using assms(1) by simp
    then have "400 dvd b * 100 + d - 4800 + 1" by (rule dvdI)
    then show ?thesis using 4 unfolding leap_def by blast
  next
    case False
    have "\<not> 100 dvd (d + 1)" using assms(2,3) False by (auto dest: zdvd_imp_le)
    moreover have "b * 100 + d - 4800 + 1 = 100 * (b - 48) + (d + 1)" by simp
    ultimately have "\<not> 100 dvd b * 100 + d - 4800 + 1" by (metis dvd_add_right_iff dvd_triv_left)
    then show ?thesis using 4 unfolding leap_def by blast
  qed
qed

lemma getYearMonthDay_is_date:
  assumes "-32044 \<le> j" and "getYearMonthDay j = \<lparr>ymd_year = y, ymd_month = mon, ymd_day = day\<rparr>"
  shows "is_date y mon day"
proof -
  obtain b d e m where p: "0 \<le> b" "0 \<le> d" "d < 100" "0 \<le> e" "e \<le> 365" "0 \<le> m" "m \<le> 11"
      "153 * m \<le> 5 * e + 2" "5 * e + 2 < 153 * m + 153"
    and lp: "e = 365 \<longrightarrow> d = 4 * (d div 4) + 3 \<and> (d = 99 \<longrightarrow> b = 4 * (b div 4) + 3)"
    and jd: "j + 32044 = 36524 * b + b div 4 + 365 * d + d div 4 + e"
    and ymd: "getYearMonthDay j = \<lparr>ymd_year = b * 100 + d - 4800 + m div 10, ymd_month = m + 3 - 12 * (m div 10),
       ymd_day = e - (153 * m + 2) div 5 + 1\<rparr>"
    by (rule getYearMonthDay_parts [OF assms(1)])
  have eqs: "y = b * 100 + d - 4800 + m div 10" "mon = m + 3 - 12 * (m div 10)" "day = e - (153 * m + 2) div 5 + 1"
    using ymd assms(2) by simp_all
  have "e = 365 \<Longrightarrow> leap (b * 100 + d - 4800 + 1)" using leap_february [OF _ p(2,3)] lp by blast
  then have lp': "leap (b * 100 + d - 4800 + 1) \<or> e \<le> 364" using p(5) by linarith
  from month_cases [OF p(6,7)] show ?thesis
    unfolding eqs using p(4,5,8,9) lp'
    by (elim insertE) (auto simp: is_date_def days_in_month_def)
qed

lemma kJulianDayOf1970: "kJulianDayOf1970_01_01 = 2440588"
  by (simp add: kJulianDayOf1970_01_01_def getJulianDayNumber_def sdiv_pos)

lemma utc_split:
  fixes t :: int
  defines "s \<equiv> t smod kSecondsPerDay" and "n \<equiv> t sdiv kSecondsPerDay"
  shows "(if s < 0 then (s + kSecondsPerDay, n - 1) else (s, n)) = (t mod 86400, t div 86400)"
proof (cases "0 \<le> t")
  case True
  then show ?thesis by (simp add: s_def n_def kSecondsPerDay_def sdiv_pos smod_pos)
next
  case False
  have eq: "n * 86400 + s = t" unfolding s_def n_def kSecondsPerDay_def by (simp add: sdiv_mult_smod_eq)
  have r: "-86400 < s" "s \<le> 0" using False by (simp_all add: s_def kSecondsPerDay_def signed_modulo_int_def)
  show ?thesis
  proof (cases "s < 0")
    case True
    then have "t div 86400 = n - 1" using eq r by (intro div_unique_pos) auto
    then show ?thesis using True eq div_bounds [of 86400 t] mult_div_mod_eq [of 86400 t] by (simp add: kSecondsPerDay_def)
  next
    case False
    then have "t div 86400 = n" using eq r by (intro div_unique_pos) auto
    then show ?thesis using False eq r mult_div_mod_eq [of 86400 t] by (simp add: kSecondsPerDay_def)
  qed
qed

lemma toUtcTime_parts:
  fixes t :: int
  defines "n \<equiv> t div 86400" and "s \<equiv> t mod 86400"
  defines "ymd \<equiv> getYearMonthDay (n + 2440588)"
  shows "tm_sec (toUtcTime t yd) = s mod 60" "tm_min (toUtcTime t yd) = s div 60 mod 60" "tm_hour (toUtcTime t yd) = s div 60 div 60"
    "tm_year (toUtcTime t yd) = ymd_year ymd - 1900" "tm_mon (toUtcTime t yd) = ymd_month ymd - 1" "tm_mday (toUtcTime t yd) = ymd_day ymd"
  unfolding toUtcTime_def Let_def utc_split kJulianDayOf1970 prod.case
  by (simp_all add: fillHMS_def s_def ymd_def n_def)



section \<open>Time zones\<close>

record transition =
  gmttime :: int
  localtime :: int
  localtimeIdx :: nat

record local_time =
  gmtOffset :: int
  isDst :: bool
  arrbIdx :: nat

record zone_data =
  transitions :: "transition list"
  localtimes :: "local_time list"
  tz_abbreviation :: "byte list"

definition trans_less :: "bool \<Rightarrow> transition \<Rightarrow> transition \<Rightarrow> bool" where
  "trans_less compareGmt lhs rhs \<longleftrightarrow> (if compareGmt then gmttime lhs < gmttime rhs else localtime lhs < localtime rhs)"

definition trans_equal :: "bool \<Rightarrow> transition \<Rightarrow> transition \<Rightarrow> bool" where
  "trans_equal compareGmt lhs rhs \<longleftrightarrow> (if compareGmt then gmttime lhs = gmttime rhs else localtime lhs = localtime rhs)"

text \<open>\<open>std::lower_bound\<close>: binary search in the range of \<open>len\<close> elements from \<open>first\<close>.\<close>

function lower_bound :: "('a \<Rightarrow> bool) \<Rightarrow> 'a list \<Rightarrow> nat \<Rightarrow> nat \<Rightarrow> nat" where
  "lower_bound lt xs first len =
     (if len = 0 then first
      else
        (let half = len div 2; middle = first + half
         in if lt (xs ! middle) then lower_bound lt xs (middle + 1) (len - half - 1)
            else lower_bound lt xs first half))"
  by pat_completeness auto
termination
  by (relation "measure (\<lambda>(_, _, _, len). len)") auto

declare lower_bound.simps [simp del]

text \<open>An element of a vector; an index outside it, or the front of an empty vector, is an invalid access.\<close>

definition vec_at :: "'a list \<Rightarrow> nat \<Rightarrow> 'a res" where
  "vec_at xs i = (if i < length xs then Inr (xs ! i) else Inl UseAfterFree)"

definition findLocaltime :: "zone_data \<Rightarrow> transition \<Rightarrow> bool \<Rightarrow> local_time res" where
  "findLocaltime data sentry compareGmt =
     (let ts = transitions data in
      if ts = [] \<or> trans_less compareGmt sentry (hd ts) then vec_at (localtimes data) 0
      else
        (let transI = lower_bound (\<lambda>t. trans_less compareGmt t sentry) ts 0 (length ts)
         in if transI \<noteq> length ts then
              (if \<not> trans_equal compareGmt sentry (ts ! transI)
               then assert_res (transI \<noteq> 0) (vec_at (localtimes data) (localtimeIdx (ts ! (transI - 1))))
               else vec_at (localtimes data) (localtimeIdx (ts ! transI)))
            else vec_at (localtimes data) (localtimeIdx (last ts))))"

text \<open>\<open>gmtime_r\<close> and \<open>timegm\<close> of the C library convert between seconds and UTC as \<open>toUtcTime\<close> and
  \<open>fromUtcTime\<close> do.\<close>

definition toLocalTime :: "zone_data option \<Rightarrow> int \<Rightarrow> tm res" where
  "toLocalTime data seconds =
     (case data of
        None \<Rightarrow> Inl AssertFailed
      | Some data \<Rightarrow>
          bind_res (findLocaltime data \<lparr>gmttime = seconds, localtime = 0, localtimeIdx = 0\<rparr> True) (\<lambda>local.
            Inr ((toUtcTime (seconds + gmtOffset local) True)\<lparr>tm_isdst := isDst local, tm_gmtoff := gmtOffset local\<rparr>)))"

definition fromLocalTime :: "zone_data option \<Rightarrow> tm \<Rightarrow> int res" where
  "fromLocalTime data localTm =
     (case data of
        None \<Rightarrow> Inl AssertFailed
      | Some d \<Rightarrow>
          (let seconds = fromUtcTime localTm in
           bind_res (findLocaltime d \<lparr>gmttime = 0, localtime = seconds, localtimeIdx = 0\<rparr> False) (\<lambda>local.
             if tm_isdst localTm then
               bind_res (toLocalTime data (seconds - gmtOffset local)) (\<lambda>tryTm.
                 let seconds = (if \<not> tm_isdst tryTm \<and> tm_hour tryTm = tm_hour localTm \<and> tm_min tryTm = tm_min localTm
                                then seconds - 3600 else seconds)
                 in Inr (seconds - gmtOffset local))
             else Inr (seconds - gmtOffset local))))"

definition fixed_zone :: "int \<Rightarrow> byte list \<Rightarrow> zone_data" where
  "fixed_zone eastOfUtc name = \<lparr>transitions = [], localtimes = [\<lparr>gmtOffset = eastOfUtc, isDst = False, arrbIdx = 0\<rparr>], tz_abbreviation = name\<rparr>"

section \<open>Zone files\<close>

text \<open>Readers of a file's remaining bytes; too few bytes throw \<open>logic_error\<close>.\<close>

definition readBytes :: "nat \<Rightarrow> byte list \<Rightarrow> (byte list \<times> byte list) res" where
  "readBytes n bs = (if n \<le> length bs then Inr (take n bs, drop n bs) else Inl LogicError)"

definition tz_readInt32 :: "byte list \<Rightarrow> (int \<times> byte list) res" where
  "tz_readInt32 bs = bind_res (readBytes 4 bs) (\<lambda>(x, bs). Inr (sint (networkToHost32 (word_of_mem x)), bs))"

definition readUInt8 :: "byte list \<Rightarrow> (nat \<times> byte list) res" where
  "readUInt8 bs = bind_res (readBytes 1 bs) (\<lambda>(x, bs). Inr (unat (hd x), bs))"

fun read_many :: "nat \<Rightarrow> (byte list \<Rightarrow> ('a \<times> byte list) res) \<Rightarrow> byte list \<Rightarrow> ('a list \<times> byte list) res" where
  "read_many 0 rd bs = Inr ([], bs)"
| "read_many (Suc n) rd bs = bind_res (rd bs) (\<lambda>(x, bs). bind_res (read_many n rd bs) (\<lambda>(xs, bs). Inr (x # xs, bs)))"

text \<open>The loops that fill the zone's vectors keep what was pushed before an exception.\<close>

fun read_types :: "nat \<Rightarrow> byte list \<Rightarrow> local_time list \<times> byte list res" where
  "read_types 0 bs = ([], Inr bs)"
| "read_types (Suc n) bs =
     (case bind_res (tz_readInt32 bs) (\<lambda>(gmtoff, bs). bind_res (readUInt8 bs) (\<lambda>(isdst, bs). bind_res (readUInt8 bs) (\<lambda>(abbrind, bs).
             Inr (\<lparr>gmtOffset = gmtoff, isDst = (isdst \<noteq> 0), arrbIdx = abbrind\<rparr>, bs)))) of
        Inl e \<Rightarrow> ([], Inl e)
      | Inr (l, bs) \<Rightarrow> (let (ls, r) = read_types n bs in (l # ls, r)))"

fun make_transitions :: "local_time list \<Rightarrow> int list \<Rightarrow> nat list \<Rightarrow> transition list res" where
  "make_transitions ls (t # trs) (i # idxs) =
     bind_res (vec_at ls i) (\<lambda>l. bind_res (make_transitions ls trs idxs) (\<lambda>ts.
       Inr (\<lparr>gmttime = t, localtime = t + gmtOffset l, localtimeIdx = i\<rparr> # ts)))"
| "make_transitions ls _ _ = Inr []"

definition read_header :: "byte list \<Rightarrow> ((int \<times> int \<times> int) \<times> byte list) res" where
  "read_header bs =
     bind_res (readBytes 4 bs) (\<lambda>(head, bs).
       if head \<noteq> [0x54, 0x5A, 0x69, 0x66] then Inl LogicError
       else bind_res (readBytes 1 bs) (\<lambda>(version, bs). bind_res (readBytes 15 bs) (\<lambda>(_, bs).
         bind_res (read_many 6 tz_readInt32 bs) (\<lambda>(counts, bs). Inr ((counts ! 3, counts ! 4, counts ! 5), bs)))))"

definition read_tables :: "int \<Rightarrow> byte list \<Rightarrow> ((int list \<times> nat list) \<times> byte list) res" where
  "read_tables timecnt bs =
     (if timecnt < 0 then Inl LogicError
      else bind_res (read_many (nat timecnt) tz_readInt32 bs) (\<lambda>(trs, bs).
        bind_res (read_many (nat timecnt) readUInt8 bs) (\<lambda>(locals, bs). Inr ((trs, locals), bs))))"

definition new_zone :: zone_data where
  "new_zone = \<lparr>transitions = [], localtimes = [], tz_abbreviation = []\<rparr>"

text \<open>\<open>Inl\<close> is an access outside a vector (or an array of negative length); every other failure is
  caught, and the data read so far stays.\<close>

definition readTimeZoneFile :: "byte list option \<Rightarrow> zone_data res" where
  "readTimeZoneFile zonefile =
     (case zonefile of
        None \<Rightarrow> Inr new_zone
      | Some bs \<Rightarrow>
          (case bind_res (read_header bs) (\<lambda>((timecnt, typecnt, charcnt), bs).
                  bind_res (read_tables timecnt bs) (\<lambda>((trs, locals), bs). Inr (typecnt, charcnt, trs, locals, bs))) of
             Inl e \<Rightarrow> Inr new_zone
           | Inr (typecnt, charcnt, trs, locals, bs) \<Rightarrow>
               (let (ls, r) = read_types (nat typecnt) bs
                in case r of
                     Inl e \<Rightarrow> Inr (new_zone\<lparr>localtimes := ls\<rparr>)
                   | Inr bs \<Rightarrow>
                       bind_res (make_transitions ls trs locals) (\<lambda>ts.
                         if charcnt < 0 then Inl UseAfterFree
                         else (case readBytes (nat charcnt) bs of
                                 Inl e \<Rightarrow> Inr \<lparr>transitions = ts, localtimes = ls, tz_abbreviation = []\<rparr>
                               | Inr (abbr, _) \<Rightarrow> Inr \<lparr>transitions = ts, localtimes = ls, tz_abbreviation = abbr\<rparr>)))))"

definition new_TimeZone :: "byte list option \<Rightarrow> zone_data option res" where
  "new_TimeZone zonefile = bind_res (readTimeZoneFile zonefile) (\<lambda>d. Inr (Some d))"

text \<open>A zone whose file cannot be read counts as valid and has no local time at all.\<close>

lemma unreadable_zone_crashes:
  "new_TimeZone None = Inr (Some new_zone) \<and> toLocalTime (Some new_zone) t = Inl UseAfterFree"
  by (simp add: new_TimeZone_def readTimeZoneFile_def toLocalTime_def findLocaltime_def new_zone_def vec_at_def)

section \<open>Lookup is the last transition\<close>

lemma lower_bound_spec:
  assumes "first + len \<le> length xs" and "\<forall>i j. i \<le> j \<longrightarrow> j < length xs \<longrightarrow> lt (xs ! j) \<longrightarrow> lt (xs ! i)"
    and "\<forall>i<first. lt (xs ! i)" and "\<forall>i. first + len \<le> i \<longrightarrow> i < length xs \<longrightarrow> \<not> lt (xs ! i)"
  shows "lower_bound lt xs first len \<le> length xs \<and> (\<forall>i < lower_bound lt xs first len. lt (xs ! i))
     \<and> (\<forall>i. lower_bound lt xs first len \<le> i \<longrightarrow> i < length xs \<longrightarrow> \<not> lt (xs ! i))"
  using assms
proof (induction lt xs first len rule: lower_bound.induct)
  case (1 lt xs first len)
  show ?case
  proof (cases "len = 0")
    case True
    then show ?thesis using 1(3,5,6) by (simp add: lower_bound.simps [of lt xs first 0])
  next
    case False
    let ?half = "len div 2"
    let ?mid = "first + ?half"
    have mid: "?mid < length xs" using False 1(3) by linarith
    show ?thesis
    proof (cases "lt (xs ! ?mid)")
      case True
      have eq: "lower_bound lt xs first len = lower_bound lt xs (?mid + 1) (len - ?half - 1)"
        using True False by (subst lower_bound.simps) (simp add: Let_def)
      have below: "\<forall>i<?mid + 1. lt (xs ! i)" using True mid 1(4) by (metis less_Suc_eq_le Suc_eq_plus1)
      have range: "?mid + 1 + (len - ?half - 1) = first + len" using False by simp
      show ?thesis unfolding eq
        by (rule 1(1) [OF False refl refl True]) (use 1(3,4,6) below range in \<open>simp_all only:\<close>)
    next
      case nlt: False
      have eq: "lower_bound lt xs first len = lower_bound lt xs first ?half"
        using nlt False by (subst lower_bound.simps) (simp add: Let_def)
      have above: "\<forall>i. ?mid \<le> i \<longrightarrow> i < length xs \<longrightarrow> \<not> lt (xs ! i)" using nlt 1(4) by blast
      show ?thesis unfolding eq
        by (rule 1(2) [OF False refl refl nlt]) (use 1(4,5) above mid in \<open>simp_all only: less_imp_le\<close>)
    qed
  qed
qed

lemma filter_take:
  assumes "n \<le> length xs" and "\<forall>i<n. P (xs ! i)" and "\<forall>i. n \<le> i \<longrightarrow> i < length xs \<longrightarrow> \<not> P (xs ! i)"
  shows "filter P xs = take n xs"
proof -
  have "filter P (take n xs) = take n xs" using assms(1,2) by (auto simp: filter_id_conv in_set_conv_nth)
  moreover have "filter P (drop n xs) = []" using assms(1,3) by (auto simp: filter_empty_conv in_set_conv_nth)
  ultimately show ?thesis by (metis append_take_drop_id filter_append append_Nil2)
qed

definition zone_index :: "transition list \<Rightarrow> int \<Rightarrow> nat" where
  "zone_index ts t = (case filter (\<lambda>x. gmttime x \<le> t) ts of [] \<Rightarrow> 0 | x # xs \<Rightarrow> localtimeIdx (last (x # xs)))"

lemma zone_index_take:
  assumes "0 < n" and "n \<le> length ts" and "\<forall>i<n. gmttime (ts ! i) \<le> t" and "\<forall>i. n \<le> i \<longrightarrow> i < length ts \<longrightarrow> t < gmttime (ts ! i)"
  shows "zone_index ts t = localtimeIdx (ts ! (n - 1))"
proof -
  have "filter (\<lambda>x. gmttime x \<le> t) ts = take n ts" using assms by (intro filter_take) (auto simp: not_le)
  moreover have "take n ts \<noteq> []" using assms(1,2) by auto
  moreover from this have "last (take n ts) = ts ! (n - 1)" using assms(1,2) by (simp add: last_conv_nth min_def)
  ultimately show ?thesis by (cases "take n ts") (simp_all add: zone_index_def)
qed



section \<open>Time stamps\<close>

definition micros_per_second :: int where
  "micros_per_second = 1000 * 1000"

definition Timestamp_toString :: "int \<Rightarrow> string" where
  "Timestamp_toString us =
     (let seconds = us sdiv micros_per_second;
          microseconds = us smod micros_per_second
      in take 30 (dec_int seconds @ ''.'' @ pad_zero 6 microseconds))"

definition format_tm :: "tm \<Rightarrow> string" where
  "format_tm t =
     pad_space 4 (tm_year t + 1900) @ pad_zero 2 (tm_mon t + 1) @ pad_zero 2 (tm_mday t) @ '' ''
     @ pad_zero 2 (tm_hour t) @ '':'' @ pad_zero 2 (tm_min t) @ '':'' @ pad_zero 2 (tm_sec t)"

definition toFormattedString :: "int \<Rightarrow> bool \<Rightarrow> string" where
  "toFormattedString us showMicroseconds =
     (let tm_time = toUtcTime (us sdiv micros_per_second) True
      in take 31 (if showMicroseconds
                  then format_tm tm_time @ ''.'' @ pad_zero 6 (us smod micros_per_second)
                  else format_tm tm_time))"

definition Timestamp_now :: "int \<Rightarrow> int \<Rightarrow> int" where
  "Timestamp_now tv_sec tv_usec = tv_sec * micros_per_second + tv_usec"

lemma length_pad_zero: "0 \<le> i \<Longrightarrow> i < 10 ^ n \<Longrightarrow> 0 < n \<Longrightarrow> length (pad_zero n i) = n"
  using length_dec_nat [of "nat i" n] by (simp add: pad_zero_def Let_def nat_less_iff)

lemma length_pad_space: "0 \<le> i \<Longrightarrow> i < 10 ^ n \<Longrightarrow> 0 < n \<Longrightarrow> length (pad_space n i) = n"
  using length_dec_nat [of "nat i" n] by (simp add: pad_space_def dec_int_def Let_def nat_less_iff)

text \<open>Between the years 0 and 9999 a formatted time has 17 characters, as the logger asserts.\<close>

lemma length_format_tm:
  assumes "0 \<le> tm_year t + 1900" "tm_year t + 1900 < 10000" "tm_sec t \<in> {0..<60}" "tm_min t \<in> {0..<60}" "tm_hour t \<in> {0..<24}"
    and d: "is_date (tm_year t + 1900) (tm_mon t + 1) (tm_mday t)"
  shows "length (format_tm t) = 17"
proof -
  have "0 \<le> tm_mon t + 1" "tm_mon t + 1 < 10 ^ 2" "0 \<le> tm_mday t" "tm_mday t < 10 ^ 2"
    using d by (auto simp: is_date_def days_in_month_def split: if_splits)
  then show ?thesis using assms(1-5) by (simp add: format_tm_def length_pad_space length_pad_zero)
qed

end
