(* ===== verification/Logger.thy ===== *)
theory Logger
  imports Log_Stream Base_Time
begin

text \<open>
  \<^verbatim>\<open>src/mynetlib/base/Logging.h\<close> and \<^verbatim>\<open>Logging.cc\<close>: how one log line is put together on the
  stream of \<open>Log_Stream\<close>, with the time text a thread keeps for the current second. The clock, the thread
  id text and the text of \<open>strerror\<close> are arguments; \<open>None\<close> is a failed assertion or an invalid
  access.
\<close>

section \<open>Levels and source files\<close>

datatype LogLevel = TRACE | DEBUG | INFO | WARN | ERROR | FATAL

fun level_rank :: "LogLevel \<Rightarrow> nat" where
  "level_rank TRACE = 0" | "level_rank DEBUG = 1" | "level_rank INFO = 2" | "level_rank WARN = 3" | "level_rank ERROR = 4"
| "level_rank FATAL = 5"

fun LogLevelName :: "LogLevel \<Rightarrow> string" where
  "LogLevelName TRACE = ''TRACE ''" | "LogLevelName DEBUG = ''DEBUG ''" | "LogLevelName INFO = ''INFO  ''"
| "LogLevelName WARN = ''WARN  ''" | "LogLevelName ERROR = ''ERROR ''" | "LogLevelName FATAL = ''FATAL ''"

definition initLogLevel :: "bool \<Rightarrow> bool \<Rightarrow> LogLevel" where
  "initLogLevel env_trace env_debug = (if env_trace then TRACE else if env_debug then DEBUG else INFO)"

text \<open>The macros \<open>LOG_TRACE\<close>, \<open>LOG_DEBUG\<close> and \<open>LOG_INFO\<close> compare with the level in force; the others always log.\<close>

definition log_enabled :: "LogLevel \<Rightarrow> LogLevel \<Rightarrow> bool" where
  "log_enabled g_logLevel level \<longleftrightarrow> level_rank level \<ge> 3 \<or> level_rank g_logLevel \<le> level_rank level"

definition SourceFile :: "string \<Rightarrow> string" where
  "SourceFile filename = (case str_rfind filename ''/'' of Some slash \<Rightarrow> drop (slash + 1) filename | None \<Rightarrow> filename)"

section \<open>A line\<close>

record log_thread =
  t_time :: string
  t_lastSecond :: int

text \<open>A string of known length, which the constructor of \<open>T\<close> asserts.\<close>

definition T_item :: "string \<Rightarrow> nat \<Rightarrow> log_item option" where
  "T_item str len = (if length (c_str str) = len then Some (LString str) else None)"

definition local_tm :: "zone_data option \<Rightarrow> int \<Rightarrow> tm option" where
  "local_tm tz seconds =
     (if tz \<noteq> None then (case toLocalTime tz seconds of Inl e \<Rightarrow> None | Inr t \<Rightarrow> Some t) else Some (toUtcTime seconds True))"

definition refresh_time :: "zone_data option \<Rightarrow> int \<Rightarrow> log_thread \<Rightarrow> log_thread option" where
  "refresh_time tz seconds st =
     (if seconds \<noteq> t_lastSecond st
      then Option.bind (local_tm tz seconds) (\<lambda>t.
        if length (format_tm t) = 17 then Some \<lparr>t_time = format_tm t, t_lastSecond = seconds\<rparr> else None)
      else Some st)"

definition formatTime :: "zone_data option \<Rightarrow> int \<Rightarrow> log_thread \<Rightarrow> (log_item list \<times> log_thread) option" where
  "formatTime tz us st =
     Option.bind (refresh_time tz (us sdiv micros_per_second) st) (\<lambda>st.
       let fmt = ''.'' @ pad_zero 6 (us smod micros_per_second) @ (if tz \<noteq> None then '' '' else ''Z '')
       in if length fmt \<noteq> (if tz \<noteq> None then 8 else 9) then None
          else Option.bind (T_item (t_time st) 17) (\<lambda>i1. Option.bind (T_item fmt (if tz \<noteq> None then 8 else 9)) (\<lambda>i2. Some ([i1, i2], st))))"

definition errno_items :: "string \<Rightarrow> int \<Rightarrow> log_item list" where
  "errno_items strerror savedErrno =
     (if savedErrno \<noteq> 0 then [LCStr (Some strerror), LCStr (Some '' (errno=''), LInt savedErrno, LCStr (Some '') '')] else [])"

definition Impl_items :: "LogLevel \<Rightarrow> int \<Rightarrow> string \<Rightarrow> string \<Rightarrow> nat \<Rightarrow> zone_data option \<Rightarrow> int \<Rightarrow> log_thread \<Rightarrow> (log_item list \<times> log_thread) option" where
  "Impl_items level savedErrno strerror tidString tidStringLength tz us st =
     Option.bind (formatTime tz us st) (\<lambda>(its, st).
       Option.bind (T_item tidString tidStringLength) (\<lambda>i1. Option.bind (T_item (LogLevelName level) 6) (\<lambda>i2.
         Some (its @ [i1, i2] @ errno_items strerror savedErrno, st))))"

definition finish_items :: "string \<Rightarrow> int \<Rightarrow> log_item list" where
  "finish_items basename line = [LCStr (Some '' - ''), LString basename, LChar (CHR '':''), LInt line, LChar (CHR 0x0A)]"

text \<open>\<open>LOG_TRACE\<close> and \<open>LOG_DEBUG\<close> pass the name of the function.\<close>

definition func_items :: "string option \<Rightarrow> log_item list" where
  "func_items func = (case func of None \<Rightarrow> [] | Some f \<Rightarrow> [LCStr (Some f), LChar (CHR '' '')])"

text \<open>A whole statement: construction, the streamed items, and the destructor, whose output is the text and whether
  the process aborts.\<close>

record log_site =
  site_file :: string
  site_line :: int
  site_level :: LogLevel
  site_func :: "string option"
  site_errno :: int

definition log_statement ::
    "log_site \<Rightarrow> string \<Rightarrow> string \<times> nat \<Rightarrow> zone_data option \<Rightarrow> int \<Rightarrow> string \<Rightarrow> log_item list \<Rightarrow> log_thread
     \<Rightarrow> ((string \<times> bool) \<times> log_thread) option" where
  "log_statement site strerror tid tz us memory its st =
     Option.bind (Impl_items (site_level site) (site_errno site) strerror (fst tid) (snd tid) tz us st) (\<lambda>(head, st).
       Option.bind (put_items (head @ func_items (site_func site) @ its @ finish_items (SourceFile (site_file site)) (site_line site))
            (new_FixedBuffer memory)) (\<lambda>b.
         Some ((fb_toString b, site_level site = FATAL), st)))"

section \<open>The line's text\<close>

lemma SourceFile_no_slash: "CHR ''/'' \<notin> set (SourceFile f)"
proof -
  have r: "rfind_upto f ''/'' i = None \<Longrightarrow> \<forall>j\<le>i. \<not> prefix ''/'' (drop j f)"
       "rfind_upto f ''/'' i = Some p \<Longrightarrow> \<forall>j. p < j \<longrightarrow> j \<le> i \<longrightarrow> \<not> prefix ''/'' (drop j f)" for i p
    by (induction i) (auto split: if_splits simp: le_Suc_eq)
  have char: "prefix ''/'' (drop j f) \<longleftrightarrow> f ! j = CHR ''/''" if "j < length f" for j
    using that by (simp add: Cons_nth_drop_Suc [symmetric] eq_commute)
  show ?thesis
  proof (cases "str_rfind f ''/''")
    case None
    then have "f = [] \<or> (\<forall>j<length f. f ! j \<noteq> CHR ''/'')"
      using r(1) [of "length f - 1"] char by (auto simp: str_rfind_def split: if_splits)
    then show ?thesis using None by (auto simp: SourceFile_def in_set_conv_nth)
  next
    case (Some p)
    then have "\<forall>j. p < j \<longrightarrow> j < length f \<longrightarrow> f ! j \<noteq> CHR ''/''"
      using r(2) [of "length f - 1" p] char by (auto simp: str_rfind_def split: if_splits)
    then show ?thesis using Some by (auto simp: SourceFile_def in_set_conv_nth)
  qed
qed

definition thread_ok :: "log_thread \<Rightarrow> bool" where
  "thread_ok st \<longleftrightarrow> t_time st = format_tm (toUtcTime (t_lastSecond st) True) \<and> length (c_str (t_time st)) = 17"

lemma c_str_id: "CHR 0x00 \<notin> set s \<Longrightarrow> c_str s = s"
  by (auto simp: c_str_def takeWhile_eq_all_conv)

lemma dec_nat_no_null: "CHR 0x00 \<notin> set (dec_nat n)"
  using dec_nat_digits [of n] is_dec_not_blank(4) by (auto simp: list_all_iff)

lemma pads_no_null: "CHR 0x00 \<notin> set (pad_zero n i)" "CHR 0x00 \<notin> set (pad_space n i)"
  using dec_nat_no_null by (auto simp: pad_zero_def pad_space_def dec_int_def Let_def)

lemma format_tm_no_null: "CHR 0x00 \<notin> set (format_tm t)"
  using pads_no_null by (simp add: format_tm_def)

lemma toUtcTime_format_length:
  assumes "0 \<le> s" "s div 86400 \<le> 400000000" "tm_year (toUtcTime s True) + 1900 < 10000"
  shows "length (format_tm (toUtcTime s True)) = 17"
proof -
  have n: "0 \<le> s div 86400" using assms(1) by simp
  have j: "-32044 \<le> s div 86400 + 2440588" using n by linarith
  obtain b d e m where "0 \<le> b" "0 \<le> d" "d < 100" "0 \<le> e" "e \<le> 365" "0 \<le> m" "m \<le> 11"
      "153 * m \<le> 5 * e + 2" "5 * e + 2 < 153 * m + 153"
      "e = 365 \<longrightarrow> d = 4 * (d div 4) + 3 \<and> (d = 99 \<longrightarrow> b = 4 * (b div 4) + 3)"
    and jd: "s div 86400 + 2440588 + 32044 = 36524 * b + b div 4 + 365 * d + d div 4 + e"
    and ymd: "getYearMonthDay (s div 86400 + 2440588) = \<lparr>ymd_year = b * 100 + d - 4800 + m div 10, ymd_month = m + 3 - 12 * (m div 10),
       ymd_day = e - (153 * m + 2) div 5 + 1\<rparr>"
    by (rule getYearMonthDay_parts [OF j])
  have "b \<ge> 48"
  proof (rule ccontr)
    assume "\<not> b \<ge> 48"
    then have "b \<le> 47" "b div 4 \<le> 11" by auto
    moreover have "d div 4 \<le> 24" using \<open>d < 100\<close> by simp
    ultimately show False using jd n \<open>d < 100\<close> \<open>e \<le> 365\<close> by linarith
  qed
  then have y: "0 \<le> tm_year (toUtcTime s True) + 1900"
    using \<open>0 \<le> d\<close> \<open>0 \<le> m\<close> by (simp add: toUtcTime_parts ymd)
  have date: "is_date (tm_year (toUtcTime s True) + 1900) (tm_mon (toUtcTime s True) + 1) (tm_mday (toUtcTime s True))"
  proof -
    obtain y1 m1 d1 where y1: "getYearMonthDay (s div 86400 + 2440588) = \<lparr>ymd_year = y1, ymd_month = m1, ymd_day = d1\<rparr>"
      by (cases "getYearMonthDay (s div 86400 + 2440588)") auto
    from getYearMonthDay_is_date [OF j y1] show ?thesis by (simp add: toUtcTime_parts y1)
  qed
  have "s mod 86400 div 60 div 60 < 24" "0 \<le> s mod 86400 div 60 div 60" by auto
  then show ?thesis
    using y assms(3) date by (intro length_format_tm) (simp_all add: toUtcTime_parts)
qed

lemma micros_split:
  assumes "0 \<le> us"
  shows "length (pad_zero 6 (us smod micros_per_second)) = 6" and "us sdiv micros_per_second = us div 1000000"
  using assms by (auto simp: micros_per_second_def smod_pos sdiv_pos intro!: length_pad_zero)

definition utc_text :: "int \<Rightarrow> string" where
  "utc_text us = format_tm (toUtcTime (us sdiv micros_per_second) True) @ ''.'' @ pad_zero 6 (us smod micros_per_second) @ ''Z ''"

lemma formatTime_utc:
  assumes "0 \<le> us" "us div 1000000 div 86400 \<le> 400000000" "tm_year (toUtcTime (us div 1000000) True) + 1900 < 10000"
    and "thread_ok st \<or> t_lastSecond st \<noteq> us div 1000000"
  shows "\<exists>its st'. formatTime None us st = Some (its, st') \<and> concat (map render its) = utc_text us \<and> list_all item_ok its
     \<and> length (utc_text us) = 26 \<and> thread_ok st'"
proof -
  let ?s = "us div 1000000" and ?u = "pad_zero 6 (us smod micros_per_second)"
  have s: "us sdiv micros_per_second = ?s" and u: "length ?u = 6" using micros_split [OF assms(1)] by simp_all
  have "0 \<le> ?s" using assms(1) by simp
  then have len: "length (format_tm (toUtcTime ?s True)) = 17" by (rule toUtcTime_format_length [OF _ assms(2,3)])
  let ?st = "if ?s \<noteq> t_lastSecond st then \<lparr>t_time = format_tm (toUtcTime ?s True), t_lastSecond = ?s\<rparr> else st"
  have "refresh_time None ?s st = Some ?st" using len by (simp add: refresh_time_def local_tm_def)
  moreover have "t_time ?st = format_tm (toUtcTime ?s True)" using assms(4) by (auto simp: thread_ok_def)
  moreover have "thread_ok ?st" using assms(4) len by (auto simp: thread_ok_def c_str_id format_tm_no_null)
  moreover have "c_str (''.'' @ ?u @ ''Z '') = ''.'' @ ?u @ ''Z ''" by (rule c_str_id) (simp add: pads_no_null)
  ultimately show ?thesis
    using len u by (simp add: formatTime_def s T_item_def utc_text_def render_def item_ok_def c_str_id format_tm_no_null Let_def)
qed

definition body_items :: "log_site \<Rightarrow> string \<Rightarrow> log_item list \<Rightarrow> log_item list" where
  "body_items site err its =
     errno_items err (site_errno site) @ func_items (site_func site) @ its @ finish_items (SourceFile (site_file site)) (site_line site)"

text \<open>A log statement, in UTC and with room in its buffer, prints the time, the thread, the level, the error, the message
  and the place, in this order, and leaves the thread's time text as the text of its last second.\<close>

lemma log_statement_text:
  assumes "0 \<le> us" "us div 1000000 div 86400 \<le> 400000000" "tm_year (toUtcTime (us div 1000000) True) + 1900 < 10000"
    and "thread_ok st \<or> t_lastSecond st \<noteq> us div 1000000"
    and "length (c_str (fst tid)) = snd tid" and "list_all item_ok its"
    and "- (2 ^ 63) \<le> site_line site" "site_line site < 2 ^ 63" "- (2 ^ 63) \<le> site_errno site" "site_errno site < 2 ^ 63"
    and fits: "26 + length (fst tid) + 6 + length (concat (map render (body_items site err its))) + 32 \<le> length memory"
  shows "\<exists>st'. log_statement site err tid None us memory its st
     = Some ((utc_text us @ fst tid @ LogLevelName (site_level site) @ concat (map render (body_items site err its)), site_level site = FATAL), st') \<and> thread_ok st'"
proof -
  obtain head st' where h: "formatTime None us st = Some (head, st')" "concat (map render head) = utc_text us" "list_all item_ok head"
      "length (utc_text us) = 26" "thread_ok st'"
    using formatTime_utc [OF assms(1-4)] by blast
  have lv: "length (LogLevelName (site_level site)) = 6" "c_str (LogLevelName (site_level site)) = LogLevelName (site_level site)"
    by (cases "site_level site"; simp add: c_str_def)+
  let ?its = "head @ [LString (fst tid), LString (LogLevelName (site_level site))] @ body_items site err its"
  have impl: "Impl_items (site_level site) (site_errno site) err (fst tid) (snd tid) None us st
      = Some (head @ [LString (fst tid), LString (LogLevelName (site_level site))] @ errno_items err (site_errno site), st')"
    using h(1) lv assms(5) by (simp add: Impl_items_def T_item_def)
  have r: "concat (map render ?its) = utc_text us @ fst tid @ LogLevelName (site_level site) @ concat (map render (body_items site err its))"
    using h(2) by (simp add: render_def)
  have ok: "list_all item_ok ?its"
    using h(3) assms(6-10) by (auto simp: body_items_def errno_items_def func_items_def finish_items_def item_ok_def split: option.splits)
  let ?b = "new_FixedBuffer memory"
  have b: "fb_cur ?b < length (fb_data ?b)" "fb_toString ?b = []" "avail ?b = int (length memory)"
    using fits by (auto simp: new_FixedBuffer_def fb_toString_def avail_def)
  have "int (length (concat (map render ?its))) + 32 \<le> avail ?b"
    unfolding r b(3) using fits h(4) lv(1) by simp
  then obtain b' where "put_items ?its ?b = Some b'" "fb_toString b' = concat (map render ?its)"
    using put_items_ok [OF b(1) ok] b(2) by auto
  then show ?thesis using impl h(5) unfolding log_statement_def r by (simp add: body_items_def)
qed

end
