(* ===== verification/Thread_Sync.thy ===== *)
theory Thread_Sync
  imports Str_Ops
begin

text \<open>
  \<^verbatim>\<open>src/mynetlib/base/\<close>: \<open>Thread\<close>, \<open>CountDownLatch\<close>, \<open>BlockingQueue\<close>, \<open>BoundedBlockingQueue\<close> and
  \<open>ThreadPool\<close>. A stretch of code between taking a mutex (or returning from \<open>wait\<close>) and releasing it (or
  waiting) is one step; the scheduler's choices, spurious wake-ups included, are the events of a run.
\<close>

section \<open>Threads\<close>

record thread =
  started :: bool
  joined :: bool
  thread_name :: string

definition setDefaultName :: "int \<Rightarrow> string \<Rightarrow> string" where
  "setDefaultName num n = (if n = [] then take 31 (''Thread'' @ dec_int num) else n)"

definition new_Thread :: "int \<Rightarrow> string \<Rightarrow> thread" where
  "new_Thread num n = \<lparr>started = False, joined = False, thread_name = setDefaultName num n\<rparr>"

definition thread_start :: "bool \<Rightarrow> thread \<Rightarrow> thread res" where
  "thread_start created t = assert_res (\<not> started t) (if created then Inr (t\<lparr>started := True\<rparr>) else Inl Fatal)"

definition thread_join :: "thread \<Rightarrow> thread res" where
  "thread_join t = assert_res (started t) (assert_res (\<not> joined t) (Inr (t\<lparr>joined := True\<rparr>)))"

datatype outcome = Returned | ThrewException | ThrewStdException | ThrewOther

text \<open>The name \<open>t_threadName\<close> while the function runs, and after it.\<close>

definition running_name :: "thread \<Rightarrow> string" where
  "running_name t = (if thread_name t = [] then ''muduoThread'' else thread_name t)"

definition runInThread :: "outcome \<Rightarrow> string res" where
  "runInThread r = (case r of Returned \<Rightarrow> Inr ''finished'' | ThrewException \<Rightarrow> Inl Fatal | ThrewStdException \<Rightarrow> Inl Fatal | ThrewOther \<Rightarrow> Inl Fatal)"

section \<open>Condition variables\<close>

text \<open>\<open>notify\<close> moves one waiting thread, chosen by the scheduler, to the threads that take the mutex again.\<close>

definition remove_nth :: "nat \<Rightarrow> 'a list \<Rightarrow> 'a list" where
  "remove_nth i xs = take i xs @ drop (Suc i) xs"

definition cond_notify :: "nat \<Rightarrow> 'a list \<times> 'a list \<Rightarrow> 'a list \<times> 'a list" where
  "cond_notify k w =
     (let (waiting, ready) = w
      in if waiting = [] then (waiting, ready)
         else (let i = k mod length waiting in (remove_nth i waiting, ready @ [waiting ! i])))"

definition cond_notifyAll :: "'a list \<times> 'a list \<Rightarrow> 'a list \<times> 'a list" where
  "cond_notifyAll w = ([], snd w @ fst w)"

lemma length_remove_nth [simp]: "i < length xs \<Longrightarrow> length (remove_nth i xs) = length xs - 1"
  by (simp add: remove_nth_def)

lemma Suc_length_remove_nth: "i < length xs \<Longrightarrow> Suc (length (remove_nth i xs)) = length xs"
  by simp

lemma length_cond_notify:
  "length (fst (cond_notify k w)) = length (fst w) - 1"
  "length (snd (cond_notify k w)) = length (snd w) + (if fst w = [] then 0 else 1)"
  by (auto simp: cond_notify_def Let_def split: prod.splits)

text \<open>
  What every use of a condition variable must keep: while a thread waits, there are at least as many
  threads on their way back as there are items for them. No wake-up is then lost.
\<close>

locale wakeups =
  fixes step :: "'e \<Rightarrow> 's \<Rightarrow> 's res" and waiting ready items :: "'s \<Rightarrow> nat"
  assumes keeps: "step e s = Inr s' \<Longrightarrow> waiting s = 0 \<or> items s \<le> ready s \<Longrightarrow> waiting s' = 0 \<or> items s' \<le> ready s'"
begin

lemma wakeups_kept:
  assumes "waiting s = 0" and "fold_res step es s = Inr t"
  shows "waiting t = 0 \<or> items t \<le> ready t"
  by (rule fold_res_inv [where P = "\<lambda>s. waiting s = 0 \<or> items s \<le> ready s", OF _ assms(2)])
     (use assms(1) keeps in auto)

end

section \<open>Count down latches\<close>

record latch =
  count :: int
  latch_waiting :: "nat list"
  latch_ready :: "nat list"

definition new_CountDownLatch :: "int \<Rightarrow> latch" where
  "new_CountDownLatch c = \<lparr>count = c, latch_waiting = [], latch_ready = []\<rparr>"

definition latch_wait :: "nat \<Rightarrow> latch \<Rightarrow> latch" where
  "latch_wait t l = (if count l > 0 then l\<lparr>latch_waiting := latch_waiting l @ [t]\<rparr> else l)"

definition countDown :: "latch \<Rightarrow> latch" where
  "countDown l =
     (let l = l\<lparr>count := count l - 1\<rparr>
      in if count l = 0
         then (let (w, r) = cond_notifyAll (latch_waiting l, latch_ready l) in l\<lparr>latch_waiting := w, latch_ready := r\<rparr>)
         else l)"

datatype latch_event = LatchWait nat | LatchCountDown | LatchResume nat | LatchSpurious nat

definition latch_exec :: "latch_event \<Rightarrow> latch \<Rightarrow> latch res" where
  "latch_exec e l = Inr (case e of
       LatchWait t \<Rightarrow> latch_wait t l
     | LatchCountDown \<Rightarrow> countDown l
     | LatchResume i \<Rightarrow> if i < length (latch_ready l) then latch_wait (latch_ready l ! i) (l\<lparr>latch_ready := remove_nth i (latch_ready l)\<rparr>) else l
     | LatchSpurious i \<Rightarrow> if i < length (latch_waiting l) then l\<lparr>latch_ready := latch_ready l @ [latch_waiting l ! i], latch_waiting := remove_nth i (latch_waiting l)\<rparr> else l)"

text \<open>Nobody waits at a latch that is down.\<close>

lemma latch_no_waiter:
  assumes "fold_res latch_exec es (new_CountDownLatch c) = Inr l"
  shows "latch_waiting l = [] \<or> count l > 0"
  by (rule fold_res_inv [where P = "\<lambda>l. latch_waiting l = [] \<or> count l > 0", OF _ assms])
     (auto simp: new_CountDownLatch_def latch_exec_def latch_wait_def countDown_def cond_notifyAll_def Let_def
       split: latch_event.splits if_splits)

section \<open>The unbounded blocking queue\<close>

record 'a blocking_queue =
  bq_queue :: "'a list"
  bq_waiting :: "nat list"
  bq_ready :: "nat list"
  bq_puts :: "'a list"
  bq_taken :: "(nat \<times> 'a) list"

definition new_BlockingQueue :: "'a blocking_queue" where
  "new_BlockingQueue = \<lparr>bq_queue = [], bq_waiting = [], bq_ready = [], bq_puts = [], bq_taken = []\<rparr>"

definition bq_put :: "nat \<Rightarrow> 'a \<Rightarrow> 'a blocking_queue \<Rightarrow> 'a blocking_queue" where
  "bq_put k x q =
     (let (w, r) = cond_notify k (bq_waiting q, bq_ready q)
      in q\<lparr>bq_queue := bq_queue q @ [x], bq_waiting := w, bq_ready := r, bq_puts := bq_puts q @ [x]\<rparr>)"

definition bq_take :: "nat \<Rightarrow> 'a blocking_queue \<Rightarrow> 'a blocking_queue" where
  "bq_take t q =
     (case bq_queue q of
        [] \<Rightarrow> q\<lparr>bq_waiting := bq_waiting q @ [t]\<rparr>
      | x # xs \<Rightarrow> q\<lparr>bq_queue := xs, bq_taken := bq_taken q @ [(t, x)]\<rparr>)"

datatype 'a bq_event = BqPut nat 'a | BqTake nat | BqResume nat | BqSpurious nat

definition bq_exec :: "'a bq_event \<Rightarrow> 'a blocking_queue \<Rightarrow> 'a blocking_queue res" where
  "bq_exec e q = Inr (case e of
       BqPut k x \<Rightarrow> bq_put k x q
     | BqTake t \<Rightarrow> bq_take t q
     | BqResume i \<Rightarrow> if i < length (bq_ready q) then bq_take (bq_ready q ! i) (q\<lparr>bq_ready := remove_nth i (bq_ready q)\<rparr>) else q
     | BqSpurious i \<Rightarrow> if i < length (bq_waiting q) then q\<lparr>bq_ready := bq_ready q @ [bq_waiting q ! i], bq_waiting := remove_nth i (bq_waiting q)\<rparr> else q)"

definition bq_size :: "'a blocking_queue \<Rightarrow> nat" where
  "bq_size q = length (bq_queue q)"

lemma bq_put_sizes:
  "bq_queue (bq_put k x q) = bq_queue q @ [x]"
  "length (bq_waiting (bq_put k x q)) = length (bq_waiting q) - 1"
  "length (bq_ready (bq_put k x q)) = length (bq_ready q) + (if bq_waiting q = [] then 0 else 1)"
  using length_cond_notify [of k "(bq_waiting q, bq_ready q)"] by (simp_all add: bq_put_def case_prod_beta)

lemma bq_keeps:
  assumes "bq_exec e q = Inr q'" and "length (bq_waiting q) = 0 \<or> length (bq_queue q) \<le> length (bq_ready q)"
  shows "length (bq_waiting q') = 0 \<or> length (bq_queue q') \<le> length (bq_ready q')"
proof (cases e)
  case (BqPut k x)
  then show ?thesis using assms bq_put_sizes [of k x q] by (auto simp: bq_exec_def)
qed (use assms in \<open>auto simp: bq_exec_def bq_take_def split: list.splits if_splits\<close>)

interpretation bq: wakeups bq_exec "\<lambda>q. length (bq_waiting q)" "\<lambda>q. length (bq_ready q)" "\<lambda>q. length (bq_queue q)"
  by unfold_locales (rule bq_keeps)

lemma bq_fifo:
  assumes "fold_res bq_exec es new_BlockingQueue = Inr q"
  shows "map snd (bq_taken q) @ bq_queue q = bq_puts q"
  by (rule fold_res_inv [where P = "\<lambda>q. map snd (bq_taken q) @ bq_queue q = bq_puts q", OF _ assms])
     (auto simp: new_BlockingQueue_def bq_exec_def bq_put_def bq_take_def split: bq_event.splits if_splits list.splits prod.splits)

section \<open>The bounded blocking queue\<close>

text \<open>\<open>boost::circular_buffer\<close> is used through \<open>full\<close>, \<open>empty\<close>, \<open>push_back\<close>, \<open>front\<close> and \<open>pop_front\<close> below its capacity.\<close>

record 'a bounded_queue =
  capacity :: nat
  bb_queue :: "'a list"
  notEmpty_waiting :: "nat list"
  notEmpty_ready :: "nat list"
  notFull_waiting :: "'a list"
  notFull_ready :: "'a list"
  bb_puts :: "'a list"
  bb_taken :: "(nat \<times> 'a) list"

definition new_BoundedBlockingQueue :: "nat \<Rightarrow> 'a bounded_queue" where
  "new_BoundedBlockingQueue maxSize =
     \<lparr>capacity = maxSize, bb_queue = [], notEmpty_waiting = [], notEmpty_ready = [], notFull_waiting = [], notFull_ready = [],
      bb_puts = [], bb_taken = []\<rparr>"

definition bb_full :: "'a bounded_queue \<Rightarrow> bool" where
  "bb_full q \<longleftrightarrow> length (bb_queue q) = capacity q"

definition bb_empty :: "'a bounded_queue \<Rightarrow> bool" where
  "bb_empty q \<longleftrightarrow> bb_queue q = []"

definition bb_put :: "nat \<Rightarrow> 'a \<Rightarrow> 'a bounded_queue \<Rightarrow> 'a bounded_queue res" where
  "bb_put k x q =
     (if bb_full q then Inr (q\<lparr>notFull_waiting := notFull_waiting q @ [x]\<rparr>)
      else assert_res (\<not> bb_full q)
        (let (w, r) = cond_notify k (notEmpty_waiting q, notEmpty_ready q)
         in Inr (q\<lparr>bb_queue := bb_queue q @ [x], notEmpty_waiting := w, notEmpty_ready := r, bb_puts := bb_puts q @ [x]\<rparr>)))"

definition bb_take :: "nat \<Rightarrow> nat \<Rightarrow> 'a bounded_queue \<Rightarrow> 'a bounded_queue res" where
  "bb_take k t q =
     (if bb_empty q then Inr (q\<lparr>notEmpty_waiting := notEmpty_waiting q @ [t]\<rparr>)
      else assert_res (\<not> bb_empty q)
        (let (w, r) = cond_notify k (notFull_waiting q, notFull_ready q)
         in Inr (q\<lparr>bb_queue := tl (bb_queue q), notFull_waiting := w, notFull_ready := r, bb_taken := bb_taken q @ [(t, hd (bb_queue q))]\<rparr>)))"

datatype 'a bb_event = BbPut nat 'a | BbTake nat nat | BbPutResume nat nat | BbTakeResume nat nat | BbPutSpurious nat | BbTakeSpurious nat

definition bb_exec :: "'a bb_event \<Rightarrow> 'a bounded_queue \<Rightarrow> 'a bounded_queue res" where
  "bb_exec e q = (case e of
       BbPut k x \<Rightarrow> bb_put k x q
     | BbTake k t \<Rightarrow> bb_take k t q
     | BbPutResume k i \<Rightarrow> if i < length (notFull_ready q) then bb_put k (notFull_ready q ! i) (q\<lparr>notFull_ready := remove_nth i (notFull_ready q)\<rparr>) else Inr q
     | BbTakeResume k i \<Rightarrow> if i < length (notEmpty_ready q) then bb_take k (notEmpty_ready q ! i) (q\<lparr>notEmpty_ready := remove_nth i (notEmpty_ready q)\<rparr>) else Inr q
     | BbPutSpurious i \<Rightarrow> if i < length (notFull_waiting q) then Inr (q\<lparr>notFull_ready := notFull_ready q @ [notFull_waiting q ! i], notFull_waiting := remove_nth i (notFull_waiting q)\<rparr>) else Inr q
     | BbTakeSpurious i \<Rightarrow> if i < length (notEmpty_waiting q) then Inr (q\<lparr>notEmpty_ready := notEmpty_ready q @ [notEmpty_waiting q ! i], notEmpty_waiting := remove_nth i (notEmpty_waiting q)\<rparr>) else Inr q)"

lemma bb_put_total: "\<exists>q'. bb_put k x q = Inr q'"
  by (simp add: bb_put_def case_prod_beta)

lemma bb_take_total: "\<exists>q'. bb_take k t q = Inr q'"
  by (simp add: bb_take_def case_prod_beta)

definition takers_served :: "'a bounded_queue \<Rightarrow> bool" where
  "takers_served q \<longleftrightarrow> length (notEmpty_waiting q) = 0 \<or> length (bb_queue q) \<le> length (notEmpty_ready q)"

definition putters_served :: "'a bounded_queue \<Rightarrow> bool" where
  "putters_served q \<longleftrightarrow> length (notFull_waiting q) = 0 \<or> capacity q - length (bb_queue q) \<le> length (notFull_ready q)"

text \<open>A woken thread leaves the ready list before it runs, hence the additional one in the hypotheses.\<close>

lemma bb_put_keeps:
  assumes "bb_put k x q = Inr q'"
  shows "takers_served q \<Longrightarrow> takers_served q'"
    and "length (notFull_waiting q) = 0 \<or> capacity q - length (bb_queue q) \<le> Suc (length (notFull_ready q)) \<Longrightarrow> putters_served q'"
  using assms length_cond_notify [of k "(notEmpty_waiting q, notEmpty_ready q)"]
  by (auto simp: bb_put_def takers_served_def putters_served_def bb_full_def case_prod_beta split: if_splits)

lemma bb_take_keeps:
  assumes "bb_take k t q = Inr q'"
  shows "putters_served q \<Longrightarrow> putters_served q'"
    and "length (notEmpty_waiting q) = 0 \<or> length (bb_queue q) \<le> Suc (length (notEmpty_ready q)) \<Longrightarrow> takers_served q'"
  using assms length_cond_notify [of k "(notFull_waiting q, notFull_ready q)"]
  by (auto simp: bb_take_def takers_served_def putters_served_def bb_empty_def case_prod_beta split: if_splits)

lemma bb_exec_takers: "bb_exec e q = Inr q' \<Longrightarrow> takers_served q \<Longrightarrow> takers_served q'"
proof (cases e)
  case (BbTakeResume k i)
  assume "bb_exec e q = Inr q'" "takers_served q"
  then show ?thesis
    using bb_take_keeps(2) [of k "notEmpty_ready q ! i" "q\<lparr>notEmpty_ready := remove_nth i (notEmpty_ready q)\<rparr>" q'] BbTakeResume
    by (auto simp: bb_exec_def takers_served_def Suc_length_remove_nth simp del: length_remove_nth split: if_splits)
next
  case (BbPutResume k i)
  assume "bb_exec e q = Inr q'" "takers_served q"
  then show ?thesis
    using bb_put_keeps(1) [of k "notFull_ready q ! i" "q\<lparr>notFull_ready := remove_nth i (notFull_ready q)\<rparr>" q'] BbPutResume
    by (auto simp: bb_exec_def takers_served_def split: if_splits)
next
  case (BbTake k t)
  assume "bb_exec e q = Inr q'" "takers_served q"
  then show ?thesis using bb_take_keeps(2) [of k t q q'] BbTake by (simp add: bb_exec_def takers_served_def) linarith
qed (auto simp: bb_exec_def takers_served_def dest: bb_put_keeps(1) split: if_splits)

lemma bb_exec_putters: "bb_exec e q = Inr q' \<Longrightarrow> putters_served q \<Longrightarrow> putters_served q'"
proof (cases e)
  case (BbPutResume k i)
  assume "bb_exec e q = Inr q'" "putters_served q"
  then show ?thesis
    using bb_put_keeps(2) [of k "notFull_ready q ! i" "q\<lparr>notFull_ready := remove_nth i (notFull_ready q)\<rparr>" q'] BbPutResume
    by (auto simp: bb_exec_def putters_served_def Suc_length_remove_nth simp del: length_remove_nth split: if_splits)
next
  case (BbTakeResume k i)
  assume "bb_exec e q = Inr q'" "putters_served q"
  then show ?thesis
    using bb_take_keeps(1) [of k "notEmpty_ready q ! i" "q\<lparr>notEmpty_ready := remove_nth i (notEmpty_ready q)\<rparr>" q'] BbTakeResume
    by (auto simp: bb_exec_def putters_served_def split: if_splits)
next
  case (BbPut k x)
  assume "bb_exec e q = Inr q'" "putters_served q"
  then show ?thesis using bb_put_keeps(2) [of k x q q'] BbPut by (simp add: bb_exec_def putters_served_def) linarith
qed (auto simp: bb_exec_def putters_served_def dest: bb_take_keeps(1) split: if_splits)

interpretation bb_takers: wakeups bb_exec "\<lambda>q. length (notEmpty_waiting q)" "\<lambda>q. length (notEmpty_ready q)" "\<lambda>q. length (bb_queue q)"
  by unfold_locales (use bb_exec_takers in \<open>unfold takers_served_def\<close>)

interpretation bb_putters: wakeups bb_exec "\<lambda>q. length (notFull_waiting q)" "\<lambda>q. length (notFull_ready q)" "\<lambda>q. capacity q - length (bb_queue q)"
  by unfold_locales (use bb_exec_putters in \<open>unfold putters_served_def\<close>)

definition bb_wf :: "'a bounded_queue \<Rightarrow> bool" where
  "bb_wf q \<longleftrightarrow> map snd (bb_taken q) @ bb_queue q = bb_puts q \<and> length (bb_queue q) \<le> capacity q"

lemma bb_exec_wf: "bb_exec e q = Inr q' \<Longrightarrow> bb_wf q \<Longrightarrow> bb_wf q'"
  by (auto simp: bb_exec_def bb_wf_def bb_put_def bb_take_def bb_full_def bb_empty_def case_prod_beta neq_Nil_conv
      split: bb_event.splits if_splits)

lemma bb_run:
  assumes "fold_res bb_exec es (new_BoundedBlockingQueue n) = Inr q"
  shows "bb_wf q" and "takers_served q" and "putters_served q"
proof -
  show "bb_wf q"
    by (rule fold_res_inv [where P = bb_wf, OF _ assms]) (use bb_exec_wf in \<open>auto simp: new_BoundedBlockingQueue_def bb_wf_def\<close>)
  show "takers_served q"
    unfolding takers_served_def by (rule bb_takers.wakeups_kept [OF _ assms]) (simp add: new_BoundedBlockingQueue_def)
  show "putters_served q"
    unfolding putters_served_def by (rule bb_putters.wakeups_kept [OF _ assms]) (simp add: new_BoundedBlockingQueue_def)
qed

section \<open>Thread pools\<close>

text \<open>
  Where a worker is: about to call the init callback, at the test of \<open>running_\<close>, about to take the mutex in
  \<open>take\<close>, waiting for \<open>notEmpty_\<close>, inside a task, or returned.
\<close>

datatype worker = NotInit | LoopHead | InTake | Blocked | Running nat | Done

record thread_pool =
  tp_name :: string
  threads :: "thread list"
  workers :: "worker list"
  tp_queue :: "nat list"
  maxQueueSize :: nat
  tp_running :: bool
  run_waiting :: "nat list"
  run_ready :: "nat list"
  tp_accepted :: "nat list"
  tp_taken :: "nat list"
  tp_inline :: "nat list"

definition new_ThreadPool :: "string \<Rightarrow> thread_pool" where
  "new_ThreadPool n = \<lparr>tp_name = n, threads = [], workers = [], tp_queue = [], maxQueueSize = 0, tp_running = False,
     run_waiting = [], run_ready = [], tp_accepted = [], tp_taken = [], tp_inline = []\<rparr>"

definition setMaxQueueSize :: "int \<Rightarrow> thread_pool \<Rightarrow> thread_pool" where
  "setMaxQueueSize maxSize p = p\<lparr>maxQueueSize := nat (maxSize mod 2 ^ 64)\<rparr>"

definition isFull :: "thread_pool \<Rightarrow> bool" where
  "isFull p \<longleftrightarrow> maxQueueSize p > 0 \<and> length (tp_queue p) \<ge> maxQueueSize p"

text \<open>\<open>created i\<close> tells whether \<open>pthread_create\<close> succeeds for the \<open>i\<close>-th thread, \<open>num\<close> is \<open>numCreated_\<close>.\<close>

definition pool_spawn :: "int \<Rightarrow> (nat \<Rightarrow> bool) \<Rightarrow> nat \<Rightarrow> thread_pool \<Rightarrow> thread_pool res" where
  "pool_spawn num created i p =
     bind_res (thread_start (created i) (new_Thread (num + int i + 1) (tp_name p @ dec_int (int i + 1))))
       (\<lambda>t. Inr (p\<lparr>threads := threads p @ [t], workers := workers p @ [NotInit]\<rparr>))"

definition pool_start :: "int \<Rightarrow> (nat \<Rightarrow> bool) \<Rightarrow> nat \<Rightarrow> thread_pool \<Rightarrow> thread_pool res" where
  "pool_start num created numThreads p =
     assert_res (threads p = []) (fold_res (pool_spawn num created) [0..<numThreads] (p\<lparr>tp_running := True\<rparr>))"

text \<open>\<open>notEmpty_.notify()\<close> and \<open>notEmpty_.notifyAll()\<close>.\<close>

definition blocked_workers :: "worker list \<Rightarrow> nat list" where
  "blocked_workers ws = filter (\<lambda>i. ws ! i = Blocked) [0..<length ws]"

definition notEmpty_notify :: "nat \<Rightarrow> worker list \<Rightarrow> worker list" where
  "notEmpty_notify k ws = (let b = blocked_workers ws in if b = [] then ws else ws[b ! (k mod length b) := InTake])"

definition notEmpty_notifyAll :: "worker list \<Rightarrow> worker list" where
  "notEmpty_notifyAll ws = map (\<lambda>w. if w = Blocked then InTake else w) ws"

definition run_section :: "nat \<Rightarrow> nat \<Rightarrow> thread_pool \<Rightarrow> thread_pool res" where
  "run_section k task p =
     (if isFull p then Inr (p\<lparr>run_waiting := run_waiting p @ [task]\<rparr>)
      else assert_res (\<not> isFull p)
        (Inr (p\<lparr>tp_queue := tp_queue p @ [task], workers := notEmpty_notify k (workers p), tp_accepted := tp_accepted p @ [task]\<rparr>)))"

definition pool_run :: "nat \<Rightarrow> nat \<Rightarrow> thread_pool \<Rightarrow> thread_pool res" where
  "pool_run k task p =
     (if threads p = [] then Inr (p\<lparr>tp_inline := tp_inline p @ [task]\<rparr>) else run_section k task p)"

definition pool_take :: "nat \<Rightarrow> nat \<Rightarrow> thread_pool \<Rightarrow> thread_pool" where
  "pool_take k w p =
     (if tp_queue p = [] \<and> tp_running p then p\<lparr>workers := (workers p)[w := Blocked]\<rparr>
      else case tp_queue p of
        [] \<Rightarrow> p\<lparr>workers := (workers p)[w := LoopHead]\<rparr>
      | task # rest \<Rightarrow>
          (let p = p\<lparr>tp_queue := rest, workers := (workers p)[w := Running task], tp_taken := tp_taken p @ [task]\<rparr>
           in if maxQueueSize p > 0
              then (let (wt, r) = cond_notify k (run_waiting p, run_ready p) in p\<lparr>run_waiting := wt, run_ready := r\<rparr>)
              else p))"

definition pool_worker :: "nat \<Rightarrow> nat \<Rightarrow> outcome \<Rightarrow> thread_pool \<Rightarrow> thread_pool res" where
  "pool_worker k w r p =
     (case workers p ! w of
        NotInit \<Rightarrow> bind_res (runInThread r) (\<lambda>_. Inr (p\<lparr>workers := (workers p)[w := LoopHead]\<rparr>))
      | LoopHead \<Rightarrow> Inr (p\<lparr>workers := (workers p)[w := if tp_running p then InTake else Done]\<rparr>)
      | InTake \<Rightarrow> Inr (pool_take k w p)
      | Running task \<Rightarrow> bind_res (runInThread r) (\<lambda>_. Inr (p\<lparr>workers := (workers p)[w := LoopHead]\<rparr>))
      | _ \<Rightarrow> Inr p)"

definition pool_stop :: "thread_pool \<Rightarrow> thread_pool" where
  "pool_stop p = p\<lparr>tp_running := False, workers := notEmpty_notifyAll (workers p)\<rparr>"

definition pool_join :: "nat \<Rightarrow> thread_pool \<Rightarrow> thread_pool res" where
  "pool_join i p = bind_res (thread_join (threads p ! i)) (\<lambda>t. Inr (p\<lparr>threads := (threads p)[i := t]\<rparr>))"

datatype pool_event = PRun nat nat | PRunResume nat nat | PRunSpurious nat | PWorker nat nat outcome | PWorkerSpurious nat
  | PStop | PJoin nat

definition pool_exec :: "pool_event \<Rightarrow> thread_pool \<Rightarrow> thread_pool res" where
  "pool_exec e p = (case e of
       PRun k task \<Rightarrow> pool_run k task p
     | PRunResume k i \<Rightarrow> if i < length (run_ready p) then run_section k (run_ready p ! i) (p\<lparr>run_ready := remove_nth i (run_ready p)\<rparr>) else Inr p
     | PRunSpurious i \<Rightarrow> if i < length (run_waiting p) then Inr (p\<lparr>run_ready := run_ready p @ [run_waiting p ! i], run_waiting := remove_nth i (run_waiting p)\<rparr>) else Inr p
     | PWorker k w r \<Rightarrow> if w < length (workers p) then pool_worker k w r p else Inr p
     | PWorkerSpurious w \<Rightarrow> if w < length (workers p) \<and> workers p ! w = Blocked then Inr (p\<lparr>workers := (workers p)[w := InTake]\<rparr>) else Inr p
     | PStop \<Rightarrow> Inr (pool_stop p)
     | PJoin i \<Rightarrow> if i < length (threads p) \<and> workers p ! i = Done then pool_join i p else Inr p)"

lemma count_list_update:
  assumes "i < length xs"
  shows "count_list (xs[i := b]) a + (if xs ! i = a then 1 else 0) = count_list xs a + (if b = a then 1 else 0)"
proof -
  have "count_list xs a = count_list (take i xs @ xs ! i # drop (Suc i) xs) a" using assms by (simp flip: id_take_nth_drop)
  then show ?thesis using assms by (simp add: upd_conv_take_nth_drop)
qed

lemma notEmpty_notify_count:
  "count_list (notEmpty_notify k ws) Blocked = count_list ws Blocked - 1"
  "count_list (notEmpty_notify k ws) InTake = count_list ws InTake + (if count_list ws Blocked = 0 then 0 else 1)"
proof -
  let ?b = "blocked_workers ws"
  let ?i = "?b ! (k mod length ?b)"
  have b: "set ?b = {i. i < length ws \<and> ws ! i = Blocked}" by (auto simp: blocked_workers_def)
  have "?b = [] \<longleftrightarrow> Blocked \<notin> set ws"
    using b by (auto simp: in_set_conv_nth simp flip: set_empty)
  then have none: "?b = [] \<longleftrightarrow> count_list ws Blocked = 0" by (simp add: count_list_0_iff)
  have "?i \<in> set ?b" if "?b \<noteq> []" using that by (intro nth_mem) simp
  then have i: "?i < length ws \<and> ws ! ?i = Blocked" if "?b \<noteq> []" using that b by blast
  show "count_list (notEmpty_notify k ws) Blocked = count_list ws Blocked - 1"
    using none i count_list_update [of ?i ws InTake Blocked] by (cases "?b = []") (simp_all add: notEmpty_notify_def Let_def)
  show "count_list (notEmpty_notify k ws) InTake = count_list ws InTake + (if count_list ws Blocked = 0 then 0 else 1)"
    using none i count_list_update [of ?i ws InTake InTake] by (cases "?b = []") (simp_all add: notEmpty_notify_def Let_def)
qed

lemma notEmpty_notifyAll_none [simp]: "count_list (notEmpty_notifyAll ws) Blocked = 0"
  by (auto simp: count_list_0_iff notEmpty_notifyAll_def)

lemma length_notEmpty_notifyAll [simp]: "length (notEmpty_notifyAll ws) = length ws"
  by (simp add: notEmpty_notifyAll_def)

lemma length_notEmpty_notify [simp]: "length (notEmpty_notify k ws) = length ws"
  by (simp add: notEmpty_notify_def Let_def)

text \<open>Workers are never left waiting beside a task, nor at all after \<open>stop\<close>.\<close>

definition workers_served :: "thread_pool \<Rightarrow> bool" where
  "workers_served p \<longleftrightarrow> count_list (workers p) Blocked = 0 \<or> length (tp_queue p) \<le> count_list (workers p) InTake"

definition callers_served :: "thread_pool \<Rightarrow> bool" where
  "callers_served p \<longleftrightarrow> length (run_waiting p) = 0 \<or> maxQueueSize p - length (tp_queue p) \<le> length (run_ready p)"

definition pool_wf :: "thread_pool \<Rightarrow> bool" where
  "pool_wf p \<longleftrightarrow> tp_taken p @ tp_queue p = tp_accepted p \<and> (maxQueueSize p > 0 \<longrightarrow> length (tp_queue p) \<le> maxQueueSize p)
     \<and> (\<not> tp_running p \<longrightarrow> count_list (workers p) Blocked = 0) \<and> (maxQueueSize p = 0 \<longrightarrow> run_waiting p = [])
     \<and> length (threads p) = length (workers p)"

lemma callers_served_workers [simp]: "callers_served (p\<lparr>workers := ws\<rparr>) = callers_served p"
  by (simp add: callers_served_def)

lemma run_section_served:
  assumes "run_section k task p = Inr p'"
  shows "workers_served p \<Longrightarrow> workers_served p'"
    and "length (run_waiting p) = 0 \<or> maxQueueSize p - length (tp_queue p) \<le> Suc (length (run_ready p)) \<Longrightarrow> callers_served p'"
    and "pool_wf p \<Longrightarrow> pool_wf p'"
  using assms
  by (auto simp: run_section_def workers_served_def callers_served_def pool_wf_def isFull_def notEmpty_notify_count split: if_splits)

lemma pool_take_served:
  assumes "w < length (workers p)" and "workers p ! w = InTake"
  shows "workers_served p \<Longrightarrow> workers_served (pool_take k w p)"
    and "callers_served p \<Longrightarrow> pool_wf p \<Longrightarrow> callers_served (pool_take k w p)"
    and "pool_wf p \<Longrightarrow> pool_wf (pool_take k w p)"
proof -
  note c = count_list_update [OF assms(1), of _ InTake] count_list_update [OF assms(1), of _ Blocked]
  show "workers_served p \<Longrightarrow> workers_served (pool_take k w p)"
    using assms c [of Blocked] c [of LoopHead] c [of "Running (hd (tp_queue p))"]
    by (auto simp: pool_take_def workers_served_def Let_def case_prod_beta split: list.splits)
  show "callers_served p \<Longrightarrow> pool_wf p \<Longrightarrow> callers_served (pool_take k w p)"
    using length_cond_notify [of k "(run_waiting p, run_ready p)"]
    by (auto simp: pool_take_def callers_served_def pool_wf_def Let_def case_prod_beta split: list.splits)
  show "pool_wf p \<Longrightarrow> pool_wf (pool_take k w p)"
    using assms c [of Blocked] c [of LoopHead] c [of "Running (hd (tp_queue p))"]
    by (auto simp: pool_take_def pool_wf_def Let_def case_prod_beta split: list.splits)
qed

lemma worker_update_served:
  assumes "w < length (workers p)" and "workers p ! w \<noteq> InTake" and "workers p ! w \<noteq> Blocked" and "v \<noteq> Blocked"
  shows "workers_served p \<Longrightarrow> workers_served (p\<lparr>workers := (workers p)[w := v]\<rparr>)"
    and "pool_wf p \<Longrightarrow> pool_wf (p\<lparr>workers := (workers p)[w := v]\<rparr>)"
  using assms count_list_update [OF assms(1), of v InTake] count_list_update [OF assms(1), of v Blocked]
  by (auto simp: workers_served_def pool_wf_def split: if_splits)

lemma pool_worker_served:
  assumes "pool_worker k w r p = Inr p'" and "w < length (workers p)"
  shows "workers_served p \<Longrightarrow> workers_served p'" and "pool_wf p \<Longrightarrow> pool_wf p'"
    and "callers_served p \<Longrightarrow> pool_wf p \<Longrightarrow> callers_served p'"
proof -
  note parts = worker_update_served [OF assms(2)] pool_take_served [OF assms(2)]
  show "workers_served p \<Longrightarrow> workers_served p'" "pool_wf p \<Longrightarrow> pool_wf p'" "callers_served p \<Longrightarrow> pool_wf p \<Longrightarrow> callers_served p'"
    using assms(1) parts
    by (auto simp: pool_worker_def res_simps split: worker.splits)
qed

lemma pool_exec_workers:
  assumes "pool_exec e p = Inr p'" and "workers_served p"
  shows "workers_served p'"
proof (cases e)
  case (PRunResume k i)
  have "workers_served (p\<lparr>run_ready := remove_nth i (run_ready p)\<rparr>)" using assms(2) by (simp add: workers_served_def)
  then show ?thesis using assms PRunResume by (auto simp: pool_exec_def dest: run_section_served(1) split: if_splits)
next
  case (PWorkerSpurious w)
  then show ?thesis
    using assms count_list_update [of w "workers p" InTake InTake] count_list_update [of w "workers p" InTake Blocked]
    by (auto simp: pool_exec_def workers_served_def split: if_splits)
next
  case (PRun k task)
  then show ?thesis using assms
    by (auto simp: pool_exec_def pool_run_def dest: run_section_served(1) split: if_splits) (simp add: workers_served_def)
next
  case (PWorker k w r)
  then show ?thesis using assms by (auto simp: pool_exec_def dest: pool_worker_served(1) split: if_splits)
qed (use assms in \<open>auto simp: pool_exec_def pool_stop_def pool_join_def res_simps workers_served_def split: if_splits\<close>)

lemma pool_exec_wf:
  assumes "pool_exec e p = Inr p'" and "pool_wf p"
  shows "pool_wf p'"
proof (cases e)
  case (PRunResume k i)
  have "pool_wf (p\<lparr>run_ready := remove_nth i (run_ready p)\<rparr>)" using assms(2) by (simp add: pool_wf_def)
  then show ?thesis using assms PRunResume by (auto simp: pool_exec_def dest: run_section_served(3) split: if_splits)
next
  case (PWorkerSpurious w)
  then show ?thesis
    using assms count_list_update [of w "workers p" InTake Blocked] by (auto simp: pool_exec_def pool_wf_def split: if_splits)
next
  case (PRun k task)
  then show ?thesis using assms
    by (auto simp: pool_exec_def pool_run_def dest: run_section_served(3) split: if_splits) (simp add: pool_wf_def)
next
  case (PWorker k w r)
  then show ?thesis using assms by (auto simp: pool_exec_def dest: pool_worker_served(2) split: if_splits)
qed (use assms in \<open>auto simp: pool_exec_def pool_stop_def pool_join_def res_simps pool_wf_def split: if_splits\<close>)

lemma pool_exec_callers:
  assumes "pool_exec e p = Inr p'" and "callers_served p" and "pool_wf p"
  shows "callers_served p'"
proof (cases e)
  case (PRunResume k i)
  then show ?thesis
    using assms run_section_served(2) [of k "run_ready p ! i" "p\<lparr>run_ready := remove_nth i (run_ready p)\<rparr>" p']
    by (auto simp: pool_exec_def callers_served_def Suc_length_remove_nth simp del: length_remove_nth split: if_splits)
next
  case (PRun k task)
  then show ?thesis using assms run_section_served(2) [of k task p p']
    by (auto simp: pool_exec_def pool_run_def callers_served_def split: if_splits)
next
  case (PWorker k w r)
  then show ?thesis using assms by (auto simp: pool_exec_def dest: pool_worker_served(3) split: if_splits)
qed (use assms in \<open>auto simp: pool_exec_def pool_stop_def pool_join_def res_simps callers_served_def split: if_splits\<close>)

interpretation pool_workers: wakeups pool_exec "\<lambda>p. count_list (workers p) Blocked" "\<lambda>p. count_list (workers p) InTake"
    "\<lambda>p. length (tp_queue p)"
  by unfold_locales (use pool_exec_workers in \<open>unfold workers_served_def\<close>)

lemma pool_spawned:
  assumes "fold_res (pool_spawn num created) is p = Inr q" and "pool_wf p" "set (workers p) \<subseteq> {NotInit}" "run_waiting p = []"
  shows "pool_wf q \<and> set (workers q) \<subseteq> {NotInit} \<and> run_waiting q = []"
  by (rule fold_res_inv [where P = "\<lambda>q. pool_wf q \<and> set (workers q) \<subseteq> {NotInit} \<and> run_waiting q = []", OF _ assms(1)])
     (use assms in \<open>auto simp: pool_spawn_def res_simps pool_wf_def count_list_0_iff\<close>)

lemma pool_started:
  assumes "pool_start num created n (setMaxQueueSize m (new_ThreadPool name)) = Inr p"
  shows "pool_wf p" and "set (workers p) \<subseteq> {NotInit}" and "run_waiting p = []"
  using pool_spawned [of num created "[0..<n]" "(setMaxQueueSize m (new_ThreadPool name))\<lparr>tp_running := True\<rparr>" p] assms
  by (auto simp: pool_start_def res_simps setMaxQueueSize_def new_ThreadPool_def pool_wf_def)

lemma pool_run_ok:
  assumes "fold_res pool_exec es p = Inr q" and "pool_wf p" and "callers_served p"
  shows "pool_wf q \<and> callers_served q"
  by (rule fold_res_inv [where P = "\<lambda>q. pool_wf q \<and> callers_served q", OF _ assms(1)])
     (use assms pool_exec_wf pool_exec_callers in auto)

text \<open>A stopped worker whose task returns comes to an end, so that \<open>join\<close> does.\<close>

lemma stopped_worker_ends:
  assumes "\<not> tp_running p" and "w < length (workers p)" and "workers p ! w \<noteq> Blocked"
  shows "\<exists>q. fold_res pool_exec (replicate 3 (PWorker k w Returned)) p = Inr q \<and> workers q ! w = Done"
  using assms
  by (cases "workers p ! w"; cases "tp_queue p")
     (auto simp: pool_exec_def pool_worker_def runInThread_def pool_take_def Let_def case_prod_beta numeral_3_eq_3)

lemmas pool_eval = pool_exec_def pool_start_def pool_spawn_def pool_run_def run_section_def pool_worker_def pool_take_def
  pool_stop_def pool_join_def isFull_def setMaxQueueSize_def new_ThreadPool_def notEmpty_notify_def notEmpty_notifyAll_def
  blocked_workers_def cond_notify_def cond_notifyAll_def remove_nth_def thread_start_def thread_join_def new_Thread_def
  setDefaultName_def runInThread_def

text \<open>
  \<open>stop\<close> wakes no caller of \<open>run\<close>: with a queue of one task and one worker in its first task, a third caller
  waits for \<open>notFull_\<close>; after \<open>stop\<close> the worker returns, nobody is left to notify the caller, and the
  second task never runs.
\<close>

lemma stop_strands_caller:
  "\<exists>p q. pool_start 0 (\<lambda>_. True) 1 (setMaxQueueSize 1 (new_ThreadPool ''pool'')) = Inr p
     \<and> fold_res pool_exec [PWorker 0 0 Returned, PRun 0 1, PWorker 0 0 Returned, PWorker 0 0 Returned, PRun 0 2, PRun 0 3, PStop,
         PWorker 0 0 Returned, PWorker 0 0 Returned, PJoin 0] p = Inr q
     \<and> workers q = [Done] \<and> joined (threads q ! 0) \<and> run_waiting q = [3] \<and> run_ready q = [] \<and> tp_queue q = [2]"
  by (simp add: pool_eval Let_def upt_rec [of 0] numeral_2_eq_2)

text \<open>
  (C99) However callers, workers, spurious wake-ups and \<open>stop\<close> interleave, a thread pool hands out the accepted
  tasks in order and each once, holds at most \<open>maxQueueSize_\<close> of them, and loses no wake-up: a worker waits
  beside a queued task, or a caller of \<open>run\<close> beside a free place, only while another one is on its way; no worker
  waits after \<open>stop\<close>.
\<close>

theorem thread_pool_no_lost_wakeup:
  assumes "pool_start num created n (setMaxQueueSize m (new_ThreadPool name)) = Inr p" and "fold_res pool_exec es p = Inr q"
  shows "tp_taken q @ tp_queue q = tp_accepted q
    \<and> (maxQueueSize q > 0 \<longrightarrow> length (tp_queue q) \<le> maxQueueSize q)
    \<and> (Blocked \<in> set (workers q) \<longrightarrow> tp_running q \<and> length (tp_queue q) \<le> count_list (workers q) InTake)
    \<and> (run_waiting q \<noteq> [] \<longrightarrow> maxQueueSize q - length (tp_queue q) \<le> length (run_ready q))"
proof -
  note st = pool_started [OF assms(1)]
  have ok: "pool_wf q \<and> callers_served q" using pool_run_ok [OF assms(2)] st by (simp add: callers_served_def)
  have "count_list (workers p) Blocked = 0" using st(2) by (auto simp: count_list_0_iff)
  from pool_workers.wakeups_kept [OF this assms(2)] ok show ?thesis
    by (auto simp: pool_wf_def callers_served_def count_list_0_iff)
qed

theorem thread_pool_no_lost_wakeup_witness:
  "\<exists>p q. pool_start 0 (\<lambda>_. True) 1 (setMaxQueueSize 1 (new_ThreadPool ''pool'')) = Inr p
     \<and> fold_res pool_exec [PWorker 0 0 Returned, PRun 0 1, PWorker 0 0 Returned, PWorker 0 0 Returned, PRun 0 2, PRun 0 3] p = Inr q
     \<and> run_waiting q = [3] \<and> tp_taken q @ tp_queue q = tp_accepted q \<and> length (tp_queue q) \<le> 1"
proof -
  obtain p q where pq: "pool_start 0 (\<lambda>_. True) 1 (setMaxQueueSize 1 (new_ThreadPool ''pool'')) = Inr p"
    "fold_res pool_exec [PWorker 0 0 Returned, PRun 0 1, PWorker 0 0 Returned, PWorker 0 0 Returned, PRun 0 2, PRun 0 3] p = Inr q"
    "run_waiting q = [3]" "maxQueueSize q = 1"
    by (simp add: pool_eval Let_def upt_rec [of 0])
  from thread_pool_no_lost_wakeup [OF pq(1,2)] pq show ?thesis by (intro exI [of _ p] exI [of _ q]) simp
qed

end
