(* ===== verification/Async_Log.thy ===== *)
theory Async_Log
  imports Log_Stream Thread_Sync Base_Time
begin

text \<open>
  \<^verbatim>\<open>src/mynetlib/base/FileUtil.cc\<close> (\<open>AppendFile\<close>, \<open>ReadSmallFile\<close>), \<^verbatim>\<open>LogFile.cc\<close> and
  \<^verbatim>\<open>AsyncLogging.cc\<close>: files that are appended to, rolled log files, and the double buffered logging
  thread. The clock, the answers of \<open>fwrite\<close>, \<open>read\<close> and \<open>pread\<close>, the memory of fresh buffers and the
  interleaving of front end and logging thread are arguments.
\<close>

section \<open>Appending to a file\<close>

record append_file =
  af_name :: string
  af_content :: string
  writtenBytes :: nat
  flushed :: nat

definition new_AppendFile :: "(string \<Rightarrow> bool) \<Rightarrow> string \<Rightarrow> append_file res" where
  "new_AppendFile opens filename =
     assert_res (opens filename) (Inr \<lparr>af_name = filename, af_content = [], writtenBytes = 0, flushed = 0\<rparr>)"

text \<open>\<open>fw k n\<close> is how many of \<open>n\<close> bytes the \<open>k\<close>-th \<open>fwrite\<close> of a call takes; it never takes more than it was given.\<close>

function append_loop :: "(nat \<Rightarrow> nat \<Rightarrow> nat) \<Rightarrow> nat \<Rightarrow> string \<Rightarrow> string" where
  "append_loop fw k rest =
     (if rest = [] then []
      else (let x = min (fw k (length rest)) (length rest)
            in if x = 0 then [] else take x rest @ append_loop fw (Suc k) (drop x rest)))"
  by pat_completeness auto
termination
  by (relation "measure (\<lambda>(_, _, rest). length rest)") auto

declare append_loop.simps [simp del]

definition af_append :: "(nat \<Rightarrow> nat \<Rightarrow> nat) \<Rightarrow> string \<Rightarrow> append_file \<Rightarrow> append_file" where
  "af_append fw logline f =
     (let n = min (fw 0 (length logline)) (length logline)
      in f\<lparr>af_content := af_content f @ take n logline @ append_loop fw 1 (drop n logline), writtenBytes := writtenBytes f + length logline\<rparr>)"

text \<open>\<open>flushed\<close> counts the bytes known to have left the buffer of the C library.\<close>

definition af_flush :: "append_file \<Rightarrow> append_file" where
  "af_flush f = f\<lparr>flushed := length (af_content f)\<rparr>"

lemma append_loop_all: "\<forall>k n. 0 < n \<longrightarrow> 0 < fw k n \<Longrightarrow> append_loop fw k rest = rest"
proof (induction fw k rest rule: append_loop.induct)
  case (1 fw k rest)
  show ?case
  proof (cases "rest = []")
    case True
    then show ?thesis by (simp add: append_loop.simps [of fw k "[]"])
  next
    case False
    let ?x = "min (fw k (length rest)) (length rest)"
    have x: "?x \<noteq> 0" using False 1(2) by simp
    then have "append_loop fw (Suc k) (drop ?x rest) = drop ?x rest" using 1 False by simp
    then show ?thesis using False x by (subst append_loop.simps) (simp add: Let_def)
  qed
qed

lemma af_append_all: "\<forall>k n. 0 < n \<longrightarrow> 0 < fw k n \<Longrightarrow> af_content (af_append fw s f) = af_content f @ s"
  by (simp add: af_append_def append_loop_all Let_def)

section \<open>Reading a small file\<close>

record stat_result =
  st_regular :: bool
  st_directory :: bool
  st_size :: int

definition EISDIR :: int where "EISDIR = 21"

text \<open>\<open>rd k n\<close> is the answer of the \<open>k\<close>-th \<open>read\<close> for \<open>n\<close> bytes: an error number or at most \<open>n\<close> bytes.\<close>

definition buf_size :: nat where "buf_size = 64 * 1024"

function read_loop :: "(nat \<Rightarrow> nat \<Rightarrow> int + string) \<Rightarrow> nat \<Rightarrow> nat \<Rightarrow> int \<Rightarrow> string \<Rightarrow> int \<times> string" where
  "read_loop rd k maxSize err content =
     (if length content < maxSize then
        (let toRead = min (maxSize - length content) buf_size
         in case rd k toRead of
              Inl e \<Rightarrow> (e, content)
            | Inr bs \<Rightarrow> if bs = [] then (err, content) else read_loop rd (Suc k) maxSize err (content @ take toRead bs))
      else (err, content))"
  by pat_completeness auto
termination
  by (relation "measure (\<lambda>(_, _, maxSize, _, content). maxSize - length content)") (auto simp: buf_size_def min_def simp flip: length_greater_0_conv)

declare read_loop.simps [simp del]

definition readToString :: "int + unit \<Rightarrow> (int + stat_result) option \<Rightarrow> (nat \<Rightarrow> nat \<Rightarrow> int + string) \<Rightarrow> nat \<Rightarrow> int \<times> string option \<times> int option" where
  "readToString opened fstat rd maxSize =
     (case opened of
        Inl err \<Rightarrow> (err, None, None)
      | Inr _ \<Rightarrow>
          (let (err, size) = (case fstat of
                 None \<Rightarrow> (0, None)
               | Some (Inl e) \<Rightarrow> (e, None)
               | Some (Inr st) \<Rightarrow> if st_regular st then (0, Some (st_size st)) else if st_directory st then (EISDIR, None) else (0, None));
               (err, content) = read_loop rd 0 maxSize err []
           in (err, Some content, size)))"

definition readToBuffer :: "int + unit \<Rightarrow> int + string \<Rightarrow> int \<times> string option" where
  "readToBuffer opened pread =
     (case opened of
        Inl err \<Rightarrow> (err, None)
      | Inr _ \<Rightarrow> (case pread of Inl e \<Rightarrow> (e, None) | Inr bs \<Rightarrow> (0, Some (take (buf_size - 1) bs))))"

text \<open>\<open>readToString\<close> never returns more than asked for.\<close>

lemma read_loop_bound: "length content \<le> maxSize \<Longrightarrow> length (snd (read_loop rd k maxSize err content)) \<le> maxSize"
proof (induction rd k maxSize err content rule: read_loop.induct)
  case (1 rd k maxSize err content)
  then show ?case
    by (subst read_loop.simps) (auto simp: Let_def split: sum.splits)
qed

section \<open>Rolled log files\<close>

definition kRollPerSeconds :: int where "kRollPerSeconds = 60 * 60 * 24"

record log_file =
  rollSize :: nat
  flushInterval :: int
  checkEveryN :: int
  lf_count :: int
  startOfPeriod :: int
  lastRoll :: int
  lastFlush :: int
  lf_file :: append_file
  closed :: "append_file list"

definition getLogFileName :: "string \<Rightarrow> string \<Rightarrow> int \<Rightarrow> int \<Rightarrow> string" where
  "getLogFileName basename hostname pid now =
     (let t = toUtcTime now True;
          timebuf = ''.'' @ dec_int (tm_year t + 1900) @ pad_zero 2 (tm_mon t + 1) @ pad_zero 2 (tm_mday t) @ ''-''
            @ pad_zero 2 (tm_hour t) @ pad_zero 2 (tm_min t) @ pad_zero 2 (tm_sec t) @ ''.''
      in basename @ timebuf @ hostname @ ''.'' @ dec_int pid @ ''.log'')"

text \<open>
  What a call sees of its surroundings: the file name of a second, whether \<open>fopen\<close> succeeds, the clock read by
  \<open>append_unlocked\<close>, the clock read when the file is rolled, and the answers of \<open>fwrite\<close>.
\<close>

record log_env =
  fname :: "int \<Rightarrow> string"
  opens :: "string \<Rightarrow> bool"
  now1 :: int
  now2 :: int
  fwrites :: "nat \<Rightarrow> nat \<Rightarrow> nat"

definition rollFile :: "log_env \<Rightarrow> log_file \<Rightarrow> (bool \<times> log_file) res" where
  "rollFile env l =
     (let now = now2 env; start = now div kRollPerSeconds * kRollPerSeconds
      in if now > lastRoll l
         then bind_res (new_AppendFile (opens env) (fname env now)) (\<lambda>f.
                Inr (True, l\<lparr>lastRoll := now, lastFlush := now, startOfPeriod := start, closed := closed l @ [af_flush (lf_file l)], lf_file := f\<rparr>))
         else Inr (False, l))"

definition append_unlocked :: "log_env \<Rightarrow> string \<Rightarrow> log_file \<Rightarrow> log_file res" where
  "append_unlocked env logline l =
     (let l = l\<lparr>lf_file := af_append (fwrites env) logline (lf_file l)\<rparr>
      in if writtenBytes (lf_file l) > rollSize l then map_sum id snd (rollFile env l)
         else
           (let l = l\<lparr>lf_count := lf_count l + 1\<rparr>
            in if lf_count l \<ge> checkEveryN l
               then
                 (let l = l\<lparr>lf_count := 0\<rparr>;
                      now = now1 env;
                      thisPeriod = now div kRollPerSeconds * kRollPerSeconds
                  in if thisPeriod \<noteq> startOfPeriod l then map_sum id snd (rollFile env l)
                     else if now - lastFlush l > flushInterval l then Inr (l\<lparr>lastFlush := now, lf_file := af_flush (lf_file l)\<rparr>) else Inr l)
               else Inr l))"

definition lf_flush :: "log_file \<Rightarrow> log_file" where
  "lf_flush l = l\<lparr>lf_file := af_flush (lf_file l)\<rparr>"

text \<open>A clock at or before 1970 leaves \<open>file_\<close> null, and the first \<open>append\<close> dereferences it.\<close>

definition new_LogFile :: "log_env \<Rightarrow> string \<Rightarrow> nat \<Rightarrow> int \<Rightarrow> int \<Rightarrow> log_file res" where
  "new_LogFile env basename roll flush every =
     assert_res (CHR ''/'' \<notin> set basename)
       (let now = now2 env
        in if now > 0
           then bind_res (new_AppendFile (opens env) (fname env now)) (\<lambda>f.
             Inr \<lparr>rollSize = roll, flushInterval = flush, checkEveryN = every, lf_count = 0,
               startOfPeriod = now div kRollPerSeconds * kRollPerSeconds, lastRoll = now, lastFlush = now, lf_file = f, closed = []\<rparr>)
           else Inl UseAfterFree)"

definition all_content :: "log_file \<Rightarrow> string" where
  "all_content l = concat (map af_content (closed l)) @ af_content (lf_file l)"

definition all_flushed :: "log_file \<Rightarrow> bool" where
  "all_flushed l \<longleftrightarrow> (\<forall>f \<in> set (lf_file l # closed l). flushed f = length (af_content f))"

definition closed_flushed :: "log_file \<Rightarrow> bool" where
  "closed_flushed l \<longleftrightarrow> (\<forall>f \<in> set (closed l). flushed f = length (af_content f))"

lemma af_flush_content [simp]: "af_content (af_flush f) = af_content f" "flushed (af_flush f) = length (af_content f)"
  by (simp_all add: af_flush_def)

lemma lf_flush_all [simp]: "all_content (lf_flush l) = all_content l" "closed_flushed l \<Longrightarrow> all_flushed (lf_flush l)"
    "closed_flushed (lf_flush l) = closed_flushed l"
  by (simp_all add: lf_flush_def all_content_def all_flushed_def closed_flushed_def)

definition env_ok :: "log_env \<Rightarrow> bool" where
  "env_ok env \<longleftrightarrow> (\<forall>f. opens env f) \<and> (\<forall>k n. 0 < n \<longrightarrow> 0 < fwrites env k n)"

definition appended :: "log_file \<Rightarrow> string \<Rightarrow> log_file \<Rightarrow> bool" where
  "appended l s l' \<longleftrightarrow> all_content l' = all_content l @ s \<and> (closed_flushed l \<longrightarrow> closed_flushed l')"

lemma rollFile_appended:
  assumes "env_ok env"
  shows "\<exists>l'. map_sum id snd (rollFile env l) = Inr l' \<and> (\<forall>l0 s. appended l0 s l \<longrightarrow> appended l0 s l')"
  using assms by (auto simp: rollFile_def new_AppendFile_def env_ok_def appended_def all_content_def closed_flushed_def Let_def)

lemma append_unlocked_appended:
  assumes "env_ok env"
  shows "\<exists>l'. append_unlocked env s l = Inr l' \<and> appended l s l'"
proof -
  let ?l = "l\<lparr>lf_file := af_append (fwrites env) s (lf_file l)\<rparr>"
  have fw: "\<forall>k n. 0 < n \<longrightarrow> 0 < fwrites env k n" using assms by (simp add: env_ok_def)
  have a: "appended l s ?l" "appended l s (?l\<lparr>lf_count := c\<rparr>)"
     "appended l s (?l\<lparr>lf_count := c, lastFlush := d, lf_file := af_flush (lf_file ?l)\<rparr>)" for c d
    using af_append_all [OF fw, of s "lf_file l"] by (simp_all add: appended_def all_content_def closed_flushed_def)
  with rollFile_appended [OF assms] have r: "\<exists>l'. map_sum id snd (rollFile env ?l) = Inr l' \<and> appended l s l'"
    "\<exists>l'. map_sum id snd (rollFile env (?l\<lparr>lf_count := c\<rparr>)) = Inr l' \<and> appended l s l'" for c
    by blast+
  show ?thesis using r a by (simp add: append_unlocked_def Let_def)
qed

section \<open>The asynchronous logger\<close>

definition kLargeBuffer :: nat where "kLargeBuffer = 4000 * 1000"

text \<open>
  Where the logging thread is: not started, at the test of \<open>running_\<close>, waiting for \<open>cond_\<close>, with the buffers
  swapped out, or returned. The history lists what happened to every swapped out buffer.
\<close>

datatype logging_pc = NotStarted | AtTop | WaitingCond | Swapped | Exited
datatype chunk = Written string | Dropped string | Notice string

record async_logging =
  al_running :: bool
  al_thread :: thread
  currentBuffer :: "fixed_buffer option"
  nextBuffer :: "fixed_buffer option"
  buffers :: "fixed_buffer list"
  al_pc :: logging_pc
  newBuffer1 :: "fixed_buffer option"
  newBuffer2 :: "fixed_buffer option"
  buffersToWrite :: "fixed_buffer list"
  al_output :: "log_file option"
  history :: "chunk list"

definition new_AsyncLogging :: "int \<Rightarrow> string \<Rightarrow> string \<Rightarrow> async_logging" where
  "new_AsyncLogging num mem1 mem2 =
     \<lparr>al_running = False, al_thread = new_Thread num ''Logging'', currentBuffer = Some (fb_bzero (new_FixedBuffer mem1)),
      nextBuffer = Some (fb_bzero (new_FixedBuffer mem2)), buffers = [], al_pc = NotStarted, newBuffer1 = None, newBuffer2 = None,
      buffersToWrite = [], al_output = None, history = []\<rparr>"

text \<open>\<open>al_append mem\<close>: \<open>mem\<close> is the memory of a buffer allocated for the line.\<close>

definition al_append_to :: "string \<Rightarrow> async_logging \<Rightarrow> async_logging res" where
  "al_append_to logline a =
     (case currentBuffer a of
        None \<Rightarrow> Inl UseAfterFree
      | Some b \<Rightarrow> (case fb_append logline b of None \<Rightarrow> Inl UseAfterFree | Some b' \<Rightarrow> Inr (a\<lparr>currentBuffer := Some b'\<rparr>)))"

definition al_append :: "string \<Rightarrow> string \<Rightarrow> async_logging \<Rightarrow> async_logging res" where
  "al_append mem logline a =
     (case currentBuffer a of
        None \<Rightarrow> Inl UseAfterFree
      | Some b \<Rightarrow>
          if avail b > int (length logline) then al_append_to logline a
          else
            (let a = a\<lparr>buffers := buffers a @ [b]\<rparr>;
                 a = (case nextBuffer a of
                        Some n \<Rightarrow> a\<lparr>currentBuffer := Some n, nextBuffer := None\<rparr>
                      | None \<Rightarrow> a\<lparr>currentBuffer := Some (new_FixedBuffer mem)\<rparr>)
             in al_append_to logline a))"

definition al_start :: "bool \<Rightarrow> log_file res \<Rightarrow> string \<Rightarrow> string \<Rightarrow> async_logging \<Rightarrow> async_logging res" where
  "al_start created out mem1 mem2 a =
     bind_res (thread_start created (al_thread a)) (\<lambda>t.
     bind_res out (\<lambda>output.
       (let a = a\<lparr>al_running := True, al_thread := t\<rparr>
        in assert_res (al_running a)
          (Inr (a\<lparr>al_output := Some output, newBuffer1 := Some (fb_bzero (new_FixedBuffer mem1)),
                  newBuffer2 := Some (fb_bzero (new_FixedBuffer mem2)), al_pc := AtTop\<rparr>)))))"

definition empty_buffer :: "fixed_buffer option \<Rightarrow> bool" where
  "empty_buffer b = (case b of Some b \<Rightarrow> fb_length b = 0 | None \<Rightarrow> False)"

text \<open>The critical section after the wait.\<close>

definition al_swap :: "async_logging \<Rightarrow> async_logging res" where
  "al_swap a =
     (case currentBuffer a of
        None \<Rightarrow> Inl UseAfterFree
      | Some b \<Rightarrow>
          (let a = a\<lparr>buffersToWrite := buffers a @ [b], buffers := buffersToWrite a, currentBuffer := newBuffer1 a, newBuffer1 := None\<rparr>;
               a = (if nextBuffer a = None then a\<lparr>nextBuffer := newBuffer2 a, newBuffer2 := None\<rparr> else a)
           in Inr (a\<lparr>al_pc := Swapped\<rparr>)))"

definition al_top :: "async_logging \<Rightarrow> async_logging res" where
  "al_top a =
     (if \<not> al_running a then Inr (a\<lparr>al_output := map_option lf_flush (al_output a), al_pc := Exited\<rparr>)
      else assert_res (empty_buffer (newBuffer1 a)) (assert_res (empty_buffer (newBuffer2 a)) (assert_res (buffersToWrite a = [])
        (if buffers a = [] then Inr (a\<lparr>al_pc := WaitingCond\<rparr>) else al_swap a))))"

text \<open>\<open>io i\<close> is the surroundings of the \<open>i\<close>-th \<open>append\<close> of a round.\<close>

fun write_buffers :: "(nat \<Rightarrow> log_env) \<Rightarrow> nat \<Rightarrow> fixed_buffer list \<Rightarrow> log_file \<Rightarrow> log_file res" where
  "write_buffers io i [] l = Inr l"
| "write_buffers io i (b # bs) l = bind_res (append_unlocked (io i) (fb_toString b) l) (write_buffers io (Suc i) bs)"

definition dropped_message :: "string \<Rightarrow> nat \<Rightarrow> string" where
  "dropped_message now n = take 255 (''Dropped log messages at '' @ now @ '', '' @ dec_nat n @ '' larger buffers'' @ [CHR 0x0A])"

text \<open>\<open>pop_back\<close> of the remaining buffers into one of the spare buffers.\<close>

definition refill :: "fixed_buffer option \<Rightarrow> fixed_buffer list \<Rightarrow> (fixed_buffer option \<times> fixed_buffer list) res" where
  "refill spare bs =
     (case spare of
        Some b \<Rightarrow> Inr (spare, bs)
      | None \<Rightarrow> assert_res (bs \<noteq> []) (Inr (Some (fb_reset (last bs)), butlast bs)))"

definition al_write :: "(nat \<Rightarrow> log_env) \<Rightarrow> string \<Rightarrow> async_logging \<Rightarrow> async_logging res" where
  "al_write io now a =
     assert_res (buffersToWrite a \<noteq> [])
       (let bs = buffersToWrite a;
            many = length bs > 25;
            msg = dropped_message now (length bs - 2);
            kept = (if many then take 2 bs else bs);
            h = history a @ (if many then [Notice msg] else []) @ map (Written \<circ> fb_toString) kept
                  @ map (Dropped \<circ> fb_toString) (drop (length kept) bs)
        in bind_res (case al_output a of None \<Rightarrow> Inl UseAfterFree | Some out \<Rightarrow> if many then append_unlocked (io 0) msg out else Inr out) (\<lambda>out.
           bind_res (write_buffers io 1 kept out) (\<lambda>out.
           bind_res (refill (newBuffer1 a) (take 2 kept)) (\<lambda>(n1, rest).
           bind_res (refill (newBuffer2 a) rest) (\<lambda>(n2, rest).
             Inr (a\<lparr>newBuffer1 := n1, newBuffer2 := n2, buffersToWrite := [], al_output := Some (lf_flush out), history := h, al_pc := AtTop\<rparr>))))))"

definition al_thread_step :: "(nat \<Rightarrow> log_env) \<Rightarrow> string \<Rightarrow> async_logging \<Rightarrow> async_logging res" where
  "al_thread_step io now a =
     (case al_pc a of AtTop \<Rightarrow> al_top a | WaitingCond \<Rightarrow> al_swap a | Swapped \<Rightarrow> al_write io now a | _ \<Rightarrow> Inr a)"

definition al_stop :: "async_logging \<Rightarrow> async_logging" where
  "al_stop a = a\<lparr>al_running := False\<rparr>"

text \<open>\<open>stop\<close> joins the thread once it has returned.\<close>

definition al_join :: "async_logging \<Rightarrow> async_logging res" where
  "al_join a = (if al_pc a = Exited then bind_res (thread_join (al_thread a)) (\<lambda>t. Inr (a\<lparr>al_thread := t\<rparr>)) else Inr a)"

datatype log_event = LAppend string string | LThread "nat \<Rightarrow> log_env" string | LStop

definition al_exec :: "log_event \<Rightarrow> async_logging \<Rightarrow> async_logging res" where
  "al_exec e a = (case e of LAppend mem s \<Rightarrow> al_append mem s a | LThread io now \<Rightarrow> al_thread_step io now a | LStop \<Rightarrow> Inr (al_stop a))"

section \<open>Nothing is lost between the buffers and the file\<close>

definition chunk_stream :: "chunk \<Rightarrow> string" where
  "chunk_stream c = (case c of Written s \<Rightarrow> s | Dropped s \<Rightarrow> s | Notice s \<Rightarrow> [])"

definition chunk_text :: "chunk \<Rightarrow> string" where
  "chunk_text c = (case c of Written s \<Rightarrow> s | Dropped s \<Rightarrow> [] | Notice s \<Rightarrow> s)"

definition buffers_text :: "fixed_buffer list \<Rightarrow> string" where
  "buffers_text bs = concat (map fb_toString bs)"

text \<open>What the front end appended and the logging thread has not taken over yet.\<close>

definition pending :: "async_logging \<Rightarrow> string" where
  "pending a = buffers_text (buffersToWrite a) @ buffers_text (buffers a) @ (case currentBuffer a of Some b \<Rightarrow> fb_toString b | None \<Rightarrow> [])"

definition large :: "fixed_buffer \<Rightarrow> bool" where
  "large b \<longleftrightarrow> length (fb_data b) = kLargeBuffer \<and> fb_wf b"

definition spare :: "fixed_buffer option \<Rightarrow> bool" where
  "spare b \<longleftrightarrow> (case b of Some b \<Rightarrow> large b \<and> fb_cur b = 0 | None \<Rightarrow> False)"

definition buffers_ok :: "async_logging \<Rightarrow> bool" where
  "buffers_ok a \<longleftrightarrow> (case currentBuffer a of Some b \<Rightarrow> large b | None \<Rightarrow> False)
     \<and> (nextBuffer a \<noteq> None \<longrightarrow> spare (nextBuffer a)) \<and> (nextBuffer a = None \<longrightarrow> buffers a \<noteq> [])
     \<and> (\<forall>b \<in> set (buffers a) \<union> set (buffersToWrite a). large b)"

definition thread_ok :: "async_logging \<Rightarrow> bool" where
  "thread_ok a \<longleftrightarrow> (case al_pc a of
       AtTop \<Rightarrow> spare (newBuffer1 a) \<and> spare (newBuffer2 a) \<and> buffersToWrite a = []
     | WaitingCond \<Rightarrow> spare (newBuffer1 a) \<and> spare (newBuffer2 a) \<and> buffersToWrite a = []
     | Swapped \<Rightarrow> newBuffer1 a = None \<and> buffersToWrite a \<noteq> []
         \<and> (if newBuffer2 a = None then 2 \<le> length (buffersToWrite a) else spare (newBuffer2 a))
     | Exited \<Rightarrow> True
     | NotStarted \<Rightarrow> False)"

definition output_ok :: "async_logging \<Rightarrow> bool" where
  "output_ok a \<longleftrightarrow> (case al_output a of None \<Rightarrow> False
     | Some l \<Rightarrow> all_content l = concat (map chunk_text (history a)) \<and> closed_flushed l \<and> all_flushed l)"

definition al_ok :: "string \<Rightarrow> async_logging \<Rightarrow> bool" where
  "al_ok lines a \<longleftrightarrow> buffers_ok a \<and> thread_ok a \<and> output_ok a \<and> concat (map chunk_stream (history a)) @ pending a = lines"

lemma front_end_frame [simp]:
  "thread_ok (a\<lparr>currentBuffer := c\<rparr>) = thread_ok a" "output_ok (a\<lparr>currentBuffer := c\<rparr>) = output_ok a"
  "thread_ok (a\<lparr>nextBuffer := c\<rparr>) = thread_ok a" "output_ok (a\<lparr>nextBuffer := c\<rparr>) = output_ok a"
  "thread_ok (a\<lparr>buffers := bs\<rparr>) = thread_ok a" "output_ok (a\<lparr>buffers := bs\<rparr>) = output_ok a"
  by (auto simp: thread_ok_def output_ok_def split: option.split logging_pc.split)

lemma back_end_frame [simp]:
  "output_ok (a\<lparr>buffersToWrite := bs\<rparr>) = output_ok a" "output_ok (a\<lparr>newBuffer1 := c\<rparr>) = output_ok a"
  "output_ok (a\<lparr>newBuffer2 := c\<rparr>) = output_ok a" "output_ok (a\<lparr>al_pc := pc\<rparr>) = output_ok a"
  by (simp_all add: output_ok_def split: option.split)

lemma next_none: "nextBuffer a = None \<Longrightarrow> a\<lparr>nextBuffer := None\<rparr> = a"
  by (cases a) simp

lemma fb_append_large:
  assumes "large b" and "avail b > int (length s)"
  shows "\<exists>b'. fb_append s b = Some b' \<and> large b' \<and> fb_toString b' = fb_toString b @ s"
proof -
  have "fb_cur b + length s < length (fb_data b)" using assms(2) by (simp add: avail_def)
  then show ?thesis
    using fb_write_advance [of b s "[]"] assms by (auto simp: fb_append_def fb_add_def large_def)
qed

lemma spare_buffer: "spare (Some b) \<Longrightarrow> large b \<and> fb_toString b = [] \<and> avail b = int kLargeBuffer"
  by (simp add: spare_def large_def fb_toString_def avail_def)

lemma new_buffer_spare: "length mem = kLargeBuffer \<Longrightarrow> spare (Some (new_FixedBuffer mem)) \<and> spare (Some (fb_bzero (new_FixedBuffer mem)))"
  by (simp add: spare_def large_def new_FixedBuffer_def fb_wf_def fb_bzero_def kLargeBuffer_def)

text \<open>A line longer than a buffer is skipped.\<close>

definition accepted_line :: "string \<Rightarrow> string" where
  "accepted_line s = (if length s < kLargeBuffer then s else [])"

lemma al_append_to_spare:
  assumes "currentBuffer a = Some b" and "spare (Some b)"
  shows "\<exists>b'. al_append_to s a = Inr (a\<lparr>currentBuffer := Some b'\<rparr>) \<and> large b' \<and> fb_toString b' = accepted_line s"
proof (cases "length s < kLargeBuffer")
  case True
  then show ?thesis using fb_append_large [of b s] spare_buffer [OF assms(2)] assms(1) by (auto simp: al_append_to_def accepted_line_def)
next
  case False
  then show ?thesis using spare_buffer [OF assms(2)] assms(1) by (intro exI [of _ b]) (simp add: al_append_to_def fb_append_def accepted_line_def)
qed

lemma al_append_ok:
  assumes ok: "al_ok lines a" and mem: "length mem = kLargeBuffer"
  shows "\<exists>a'. al_append mem s a = Inr a' \<and> al_ok (lines @ accepted_line s) a'"
proof -
  obtain b where b: "currentBuffer a = Some b" "large b" using ok by (auto simp: al_ok_def buffers_ok_def split: option.splits)
  show ?thesis
  proof (cases "avail b > int (length s)")
    case True
    obtain b' where b': "fb_append s b = Some b'" "large b'" "fb_toString b' = fb_toString b @ s"
      using fb_append_large [OF b(2) True] by blast
    have "length s < kLargeBuffer" using True b(2) by (simp add: avail_def large_def)
    with b b' True ok show ?thesis
      by (auto simp: al_append_def al_append_to_def al_ok_def buffers_ok_def pending_def accepted_line_def)
  next
    case False
    let ?n = "case nextBuffer a of Some n \<Rightarrow> n | None \<Rightarrow> new_FixedBuffer mem"
    let ?a = "a\<lparr>buffers := buffers a @ [b], currentBuffer := Some ?n, nextBuffer := None\<rparr>"
    have "spare (Some ?n)" using ok new_buffer_spare [OF mem] by (auto simp: al_ok_def buffers_ok_def split: option.splits)
    then obtain b' where b': "al_append_to s ?a = Inr (?a\<lparr>currentBuffer := Some b'\<rparr>)" "large b'" "fb_toString b' = accepted_line s"
      using al_append_to_spare [of ?a ?n s] by auto
    have "al_append mem s a = al_append_to s ?a" using False b(1) by (cases "nextBuffer a") (simp_all add: al_append_def next_none)
    moreover have "al_ok (lines @ accepted_line s) (?a\<lparr>currentBuffer := Some b'\<rparr>)"
      using ok b b' by (auto simp: al_ok_def buffers_ok_def pending_def buffers_text_def)
    ultimately show ?thesis using b'(1) by simp
  qed
qed

lemma al_swap_ok:
  assumes ok: "al_ok lines a" and pc: "al_pc a = AtTop \<or> al_pc a = WaitingCond"
  shows "\<exists>a'. al_swap a = Inr a' \<and> al_ok lines a'"
proof -
  obtain b where b: "currentBuffer a = Some b" "large b" using ok by (auto simp: al_ok_def buffers_ok_def split: option.splits)
  have t: "spare (newBuffer1 a)" "spare (newBuffer2 a)" "buffersToWrite a = []" using ok pc by (auto simp: al_ok_def thread_ok_def)
  then obtain n1 n2 where n: "newBuffer1 a = Some n1" "newBuffer2 a = Some n2" by (auto simp: spare_def split: option.splits)
  then show ?thesis using ok b t spare_buffer [of n1]
    by (cases "nextBuffer a")
      (auto simp: al_swap_def al_ok_def buffers_ok_def thread_ok_def [of "_ \<lparr>al_pc := _\<rparr>"] pending_def buffers_text_def
        Suc_le_eq neq_Nil_conv)
qed

lemma al_top_ok:
  assumes ok: "al_ok lines a" and pc: "al_pc a = AtTop"
  shows "\<exists>a'. al_top a = Inr a' \<and> al_ok lines a'"
proof -
  have t: "spare (newBuffer1 a)" "spare (newBuffer2 a)" "buffersToWrite a = []" using ok pc by (auto simp: al_ok_def thread_ok_def)
  have "al_ok lines (a\<lparr>al_output := map_option lf_flush (al_output a), al_pc := Exited\<rparr>)" "al_ok lines (a\<lparr>al_pc := WaitingCond\<rparr>)"
    using ok t by (auto simp: al_ok_def buffers_ok_def thread_ok_def output_ok_def pending_def split: option.splits)
  moreover have "empty_buffer (newBuffer1 a)" "empty_buffer (newBuffer2 a)"
    using t by (auto simp: empty_buffer_def spare_def fb_length_def split: option.splits)
  ultimately show ?thesis using al_swap_ok [OF ok] pc t(3) by (simp add: al_top_def)
qed

lemma write_buffers_appended:
  assumes "\<forall>i. env_ok (io i)"
  shows "\<exists>l'. write_buffers io i bs l = Inr l' \<and> appended l (buffers_text bs) l'"
proof (induction bs arbitrary: i l)
  case Nil
  then show ?case by (simp add: appended_def buffers_text_def)
next
  case (Cons b bs)
  from append_unlocked_appended [of "io i" "fb_toString b" l] assms
  obtain l1 where l1: "append_unlocked (io i) (fb_toString b) l = Inr l1" "appended l (fb_toString b) l1" by blast
  from Cons [of "Suc i" l1] obtain l2 where "write_buffers io (Suc i) bs l1 = Inr l2" "appended l1 (buffers_text bs) l2" by blast
  with l1 show ?case by (auto simp: appended_def buffers_text_def)
qed

lemma spare_reset: "large b \<Longrightarrow> spare (Some (fb_reset b))"
  by (auto simp: spare_def large_def fb_wf_def fb_reset_def)

lemma refill_ok:
  assumes n2: "if n2 = None then 2 \<le> length bs else bs \<noteq> [] \<and> spare n2" and bs: "\<forall>b \<in> set bs. large b"
  shows "\<exists>m1 m2 r1 r2. refill None (take 2 bs) = Inr (m1, r1) \<and> refill n2 r1 = Inr (m2, r2) \<and> spare m1 \<and> spare m2"
proof -
  have ne: "bs \<noteq> []"
  proof
    assume "bs = []"
    then show False using n2 by (simp split: if_splits)
  qed
  have one: "spare (Some (fb_reset (last (take 2 bs))))" using spare_reset bs ne in_set_takeD [of _ 2 bs] last_in_set [of "take 2 bs"] by simp
  show ?thesis
  proof (cases n2)
    case None
    then have two: "butlast (take 2 bs) \<noteq> []" using n2 ne by (simp add: butlast_take take_eq_Nil)
    then have "spare (Some (fb_reset (last (butlast (take 2 bs)))))"
      using spare_reset bs last_in_set [OF two] in_set_butlastD [of _ "take 2 bs"] in_set_takeD [of _ 2 bs] by blast
    then show ?thesis using one two ne None by (simp add: refill_def)
  next
    case (Some b)
    then show ?thesis using one ne n2 by (simp add: refill_def)
  qed
qed

lemma concat_chunks:
  "concat (map (chunk_text \<circ> (Written \<circ> fb_toString)) bs) = buffers_text bs"
  "concat (map (chunk_stream \<circ> (Written \<circ> fb_toString)) bs) = buffers_text bs"
  "concat (map (chunk_text \<circ> (Dropped \<circ> fb_toString)) bs) = []"
  "concat (map (chunk_stream \<circ> (Dropped \<circ> fb_toString)) bs) = buffers_text bs"
  "chunk_text (Notice s) = s" "chunk_stream (Notice s) = []"
  by (induction bs) (simp_all add: chunk_text_def chunk_stream_def buffers_text_def)

lemma buffers_text_Nil [simp]: "buffers_text [] = []"
  by (simp add: buffers_text_def)

lemma buffers_text_append: "buffers_text (xs @ ys) = buffers_text xs @ buffers_text ys"
  by (simp add: buffers_text_def)

text \<open>The part of a round that writes to the file.\<close>

lemma al_output_written:
  assumes "output_ok a" and io: "\<forall>i. env_ok (io i)"
  shows "\<exists>l1 l2. (case al_output a of None \<Rightarrow> Inl UseAfterFree | Some out \<Rightarrow> if many then append_unlocked (io 0) msg out else Inr out) = Inr l1
      \<and> write_buffers io 1 bs l1 = Inr l2 \<and> closed_flushed l2
      \<and> all_content l2 = concat (map chunk_text (history a)) @ (if many then msg else []) @ buffers_text bs"
proof -
  obtain l where l: "al_output a = Some l" "all_content l = concat (map chunk_text (history a))" "closed_flushed l"
    using assms(1) by (auto simp: output_ok_def split: option.splits)
  obtain l1 where l1: "(if many then append_unlocked (io 0) msg l else Inr l) = Inr l1" "appended l (if many then msg else []) l1"
    using append_unlocked_appended [of "io 0" msg l] io by (cases many) (auto simp: appended_def)
  obtain l2 where "write_buffers io 1 bs l1 = Inr l2" "appended l1 (buffers_text bs) l2"
    using write_buffers_appended [OF io] by blast
  then show ?thesis using l l1 by (auto simp: appended_def)
qed

lemma al_write_ok:
  assumes ok: "al_ok lines a" and pc: "al_pc a = Swapped" and io: "\<forall>i. env_ok (io i)"
  shows "\<exists>a'. al_write io now a = Inr a' \<and> al_ok lines a'"
proof -
  let ?bs = "buffersToWrite a"
  let ?many = "25 < length ?bs"
  let ?msg = "dropped_message now (length ?bs - 2)"
  let ?kept = "if ?many then take 2 ?bs else ?bs"
  have t: "newBuffer1 a = None" "?bs \<noteq> []" "if newBuffer2 a = None then 2 \<le> length ?bs else spare (newBuffer2 a)"
    using ok pc by (simp_all add: al_ok_def thread_ok_def)
  have k: "if newBuffer2 a = None then 2 \<le> length ?kept else ?kept \<noteq> [] \<and> spare (newBuffer2 a)" using t by auto
  have "\<forall>b \<in> set ?kept. large b" using ok in_set_takeD [of _ 2 ?bs] by (auto simp: al_ok_def buffers_ok_def)
  from refill_ok [OF k this] obtain m1 m2 r1 r2 where
    r: "refill None (take 2 ?kept) = Inr (m1, r1)" "refill (newBuffer2 a) r1 = Inr (m2, r2)" "spare m1" "spare m2" by blast
  from al_output_written [of a io ?many ?msg ?kept] ok io obtain l1 l2 where
    l: "(case al_output a of None \<Rightarrow> Inl UseAfterFree | Some out \<Rightarrow> if ?many then append_unlocked (io 0) ?msg out else Inr out) = Inr l1"
      "write_buffers io 1 ?kept l1 = Inr l2" "closed_flushed l2"
      "all_content l2 = concat (map chunk_text (history a)) @ (if ?many then ?msg else []) @ buffers_text ?kept"
    by (auto simp: al_ok_def)
  let ?h = "history a @ (if ?many then [Notice ?msg] else []) @ map (Written \<circ> fb_toString) ?kept @ map (Dropped \<circ> fb_toString) (drop (length ?kept) ?bs)"
  let ?a = "a\<lparr>newBuffer1 := m1, newBuffer2 := m2, buffersToWrite := [], al_output := Some (lf_flush l2), history := ?h, al_pc := AtTop\<rparr>"
  have w: "al_write io now a = Inr ?a" using t(1,2) l(1,2) r by (simp only: al_write_def Let_def assert_res_simps bind_res_simps prod.case if_True simp_thms)
  have "?kept @ drop (length ?kept) ?bs = ?bs" by simp
  then have "buffers_text ?kept @ buffers_text (drop (length ?kept) ?bs) = buffers_text ?bs"
    by (simp only: buffers_text_append [symmetric])
  moreover have "concat (map chunk_stream ?h) = concat (map chunk_stream (history a)) @ buffers_text ?kept @ buffers_text (drop (length ?kept) ?bs)"
    by (cases ?many) (simp_all add: concat_chunks)
  ultimately have "concat (map chunk_stream ?h) = concat (map chunk_stream (history a)) @ buffers_text ?bs" by (simp only:)
  then have "concat (map chunk_stream (history ?a)) @ pending ?a = lines"
    using ok by (simp add: al_ok_def pending_def del: map_append concat_append)
  moreover have "output_ok ?a" using l(3,4) by (simp add: output_ok_def concat_chunks)
  moreover have "thread_ok ?a" "buffers_ok ?a" using r(3,4) ok by (simp_all add: thread_ok_def al_ok_def buffers_ok_def)
  ultimately show ?thesis using w by (intro exI [of _ ?a]) (simp only: al_ok_def simp_thms)
qed

definition log_event_ok :: "log_event \<Rightarrow> bool" where
  "log_event_ok e \<longleftrightarrow> (case e of LAppend mem s \<Rightarrow> length mem = kLargeBuffer | LThread io now \<Rightarrow> \<forall>i. env_ok (io i) | LStop \<Rightarrow> True)"

definition event_lines :: "log_event \<Rightarrow> string" where
  "event_lines e = (case e of LAppend mem s \<Rightarrow> accepted_line s | _ \<Rightarrow> [])"

lemma al_exec_ok:
  assumes ok: "al_ok lines a" and e: "log_event_ok e"
  shows "\<exists>a'. al_exec e a = Inr a' \<and> al_ok (lines @ event_lines e) a'"
proof (cases e)
  case (LAppend mem s)
  then show ?thesis using al_append_ok [OF ok] e by (simp add: al_exec_def log_event_ok_def event_lines_def)
next
  case (LThread io now)
  then have io: "\<forall>i. env_ok (io i)" using e by (simp add: log_event_ok_def)
  have "\<exists>a'. al_thread_step io now a = Inr a' \<and> al_ok lines a'"
  proof (cases "al_pc a")
    case Swapped
    then show ?thesis using al_write_ok [OF ok _ io] by (simp add: al_thread_step_def)
  qed (use ok al_top_ok [OF ok] al_swap_ok [OF ok] in \<open>simp_all add: al_thread_step_def\<close>)
  then show ?thesis using LThread by (simp add: al_exec_def event_lines_def)
next
  case LStop
  have "al_ok lines (a\<lparr>al_running := False\<rparr>)"
    using ok by (auto simp: al_ok_def buffers_ok_def thread_ok_def output_ok_def pending_def split: option.splits logging_pc.splits)
  then show ?thesis using LStop by (simp add: al_exec_def al_stop_def event_lines_def)
qed

lemma al_run_ok:
  "\<forall>e \<in> set es. log_event_ok e \<Longrightarrow> al_ok lines a \<Longrightarrow> \<exists>a'. fold_res al_exec es a = Inr a' \<and> al_ok (lines @ concat (map event_lines es)) a'"
proof (induction es arbitrary: lines a)
  case (Cons e es)
  from al_exec_ok [OF Cons.prems(2), of e] Cons.prems(1)
  obtain a1 where a1: "al_exec e a = Inr a1" "al_ok (lines @ event_lines e) a1" by auto
  from Cons.IH [OF _ a1(2)] Cons.prems(1) a1(1) show ?case by simp
qed simp

lemma al_started:
  assumes "al_start created (new_LogFile env basename roll flush every) m3 m4 (new_AsyncLogging num m1 m2) = Inr a"
    and m: "\<forall>m \<in> {m1, m2, m3, m4}. length m = kLargeBuffer"
  shows "al_ok [] a"
proof -
  obtain l where l: "new_LogFile env basename roll flush every = Inr l" "al_output a = Some l"
    "currentBuffer a = Some (fb_bzero (new_FixedBuffer m1))" "nextBuffer a = Some (fb_bzero (new_FixedBuffer m2))"
    "newBuffer1 a = Some (fb_bzero (new_FixedBuffer m3))" "newBuffer2 a = Some (fb_bzero (new_FixedBuffer m4))"
    "buffers a = []" "buffersToWrite a = []" "history a = []" "al_pc a = AtTop"
    using assms(1) by (auto simp: al_start_def res_simps new_AsyncLogging_def Let_def)
  then have "output_ok a"
    by (auto simp: output_ok_def new_LogFile_def res_simps Let_def new_AppendFile_def all_content_def closed_flushed_def all_flushed_def split: if_splits)
  moreover have "spare (Some (fb_bzero (new_FixedBuffer m)))" if "m \<in> {m1, m2, m3, m4}" for m using new_buffer_spare m that by blast
  ultimately show ?thesis using l(3-) spare_buffer by (simp add: al_ok_def buffers_ok_def thread_ok_def pending_def)
qed

text \<open>After \<open>stop\<close> the thread returns within three of its steps, and can be joined.\<close>

lemma al_stop_exits:
  assumes ok: "al_ok lines a" and "\<not> al_running a" and io: "\<forall>i. env_ok (io i)"
  shows "\<exists>a'. fold_res al_exec (replicate 3 (LThread io now)) a = Inr a' \<and> al_pc a' = Exited"
proof -
  have top: "\<exists>b'. al_thread_step io now b = Inr b' \<and> al_pc b' = Exited" if "al_pc b = AtTop \<or> al_pc b = Exited" "\<not> al_running b" for b
    using that by (auto simp: al_thread_step_def al_top_def)
  have swapped: "\<exists>b'. al_thread_step io now b = Inr b' \<and> al_pc b' = AtTop \<and> \<not> al_running b'"
    if "al_ok lines b" "al_pc b = Swapped" "\<not> al_running b" for b
    using al_write_ok [OF that(1,2) io, of now] that(2,3)
    by (auto simp: al_thread_step_def al_write_def Let_def res_simps)
  have waiting: "\<exists>b'. al_thread_step io now b = Inr b' \<and> al_ok lines b' \<and> al_pc b' = Swapped \<and> \<not> al_running b'"
    if "al_ok lines b" "al_pc b = WaitingCond" "\<not> al_running b" for b
    using al_swap_ok [OF that(1)] that(2,3) by (auto simp: al_thread_step_def al_swap_def Let_def split: option.splits)
  have exited: "al_thread_step io now b = Inr b" if "al_pc b = Exited" for b using that by (simp add: al_thread_step_def)
  have "al_pc a \<noteq> NotStarted" using ok by (auto simp: al_ok_def thread_ok_def)
  then consider "al_pc a = AtTop \<or> al_pc a = Exited" | "al_pc a = Swapped" | "al_pc a = WaitingCond" by (cases "al_pc a") auto
  then show ?thesis
  proof cases
    case 1
    from top [OF 1 assms(2)] obtain b where "al_thread_step io now a = Inr b" "al_pc b = Exited" by blast
    then show ?thesis using exited [of b] by (simp add: al_exec_def numeral_3_eq_3)
  next
    case 2
    from swapped [OF ok 2 assms(2)] obtain b where b: "al_thread_step io now a = Inr b" "al_pc b = AtTop" "\<not> al_running b" by blast
    from top [of b] b obtain c where "al_thread_step io now b = Inr c" "al_pc c = Exited" by blast
    then show ?thesis using b exited [of c] by (simp add: al_exec_def numeral_3_eq_3)
  next
    case 3
    from waiting [OF ok 3 assms(2)] obtain b where b: "al_thread_step io now a = Inr b" "al_ok lines b" "al_pc b = Swapped" "\<not> al_running b" by blast
    from swapped [OF b(2-)] obtain c where c: "al_thread_step io now b = Inr c" "al_pc c = AtTop" "\<not> al_running c" by blast
    from top [of c] c obtain d where "al_thread_step io now c = Inr d" "al_pc d = Exited" by blast
    then show ?thesis using b c by (simp add: al_exec_def numeral_3_eq_3)
  qed
qed

text \<open>A round of at most 25 buffers drops nothing.\<close>

lemma al_write_drops_nothing:
  assumes "al_write io now a = Inr a'" and "length (buffersToWrite a) \<le> 25"
  shows "history a' = history a @ map (Written \<circ> fb_toString) (buffersToWrite a)"
  using assms by (auto simp: al_write_def Let_def res_simps)

lemma all_written:
  "\<forall>c \<in> set h. \<exists>s. c = Written s \<Longrightarrow> concat (map chunk_text h) = concat (map chunk_stream h)"
  by (induction h) (auto simp: chunk_text_def chunk_stream_def)

definition witness_env :: log_env where
  "witness_env = \<lparr>fname = getLogFileName ''app'' ''host'' 7, opens = (\<lambda>_. True), now1 = 100000, now2 = 100000, fwrites = (\<lambda>k n. n)\<rparr>"

lemma witness_env_ok: "env_ok witness_env"
  by (simp add: env_ok_def witness_env_def)

text \<open>
  A line appended after the last swap is lost: the thread leaves its loop as soon as \<open>running_\<close> is false and
  writes out neither \<open>currentBuffer_\<close> nor \<open>buffers_\<close>.
\<close>

lemma stop_loses_lines:
  assumes "al_ok lines a" and "al_pc a = AtTop" and "pending a \<noteq> []"
  shows "\<exists>a' l. fold_res al_exec [LStop, LThread io now] a = Inr a' \<and> al_pc a' = Exited \<and> pending a' = pending a
    \<and> al_output a' = Some l \<and> all_content l = concat (map chunk_text (history a))"
  using assms by (auto simp: al_exec_def al_stop_def al_thread_step_def al_top_def pending_def al_ok_def output_ok_def split: option.splits)

text \<open>
  (C99) However the front end and the logging thread interleave, no assertion fails, no buffer overflows, and
  every appended line that fits a buffer is, in order, written to the log files, dropped with its whole buffer, or still
  pending; the files hold exactly the written buffers and the notices of dropped ones, and after every
  round all of it is flushed. Without drops the files continued by the pending buffers are the appended text.
  \<open>fopen\<close> succeeds and \<open>fwrite\<close> makes progress.
\<close>

theorem async_log_in_order:
  assumes "al_start created (new_LogFile env basename roll flush every) m3 m4 (new_AsyncLogging num m1 m2) = Inr a0"
    and "\<forall>m \<in> {m1, m2, m3, m4}. length m = kLargeBuffer"
    and "\<forall>e \<in> set es. log_event_ok e"
  shows "\<exists>a l. fold_res al_exec es a0 = Inr a \<and> al_output a = Some l
    \<and> concat (map chunk_stream (history a)) @ pending a = concat (map event_lines es)
    \<and> all_content l = concat (map chunk_text (history a)) \<and> all_flushed l
    \<and> ((\<forall>c \<in> set (history a). \<exists>s. c = Written s) \<longrightarrow> all_content l @ pending a = concat (map event_lines es))"
proof -
  from al_run_ok [OF assms(3) al_started [OF assms(1,2)]] obtain a where a: "fold_res al_exec es a0 = Inr a"
    "al_ok (concat (map event_lines es)) a" by auto
  then obtain l where "al_output a = Some l" "all_content l = concat (map chunk_text (history a))" "all_flushed l"
    by (auto simp: al_ok_def output_ok_def split: option.splits)
  with a show ?thesis using all_written [of "history a"] by (auto simp: al_ok_def)
qed

theorem async_log_in_order_witness:
  "\<exists>a0 a l. al_start True (new_LogFile witness_env ''app'' 1000 3 1024) (replicate kLargeBuffer CHR ''.'') (replicate kLargeBuffer CHR ''.'')
       (new_AsyncLogging 1 (replicate kLargeBuffer CHR ''.'') (replicate kLargeBuffer CHR ''.'')) = Inr a0
     \<and> fold_res al_exec [LAppend (replicate kLargeBuffer CHR ''.'') ''one'', LThread (\<lambda>_. witness_env) ''now'', LThread (\<lambda>_. witness_env) ''now'',
         LAppend (replicate kLargeBuffer CHR ''.'') ''two'', LThread (\<lambda>_. witness_env) ''now''] a0 = Inr a
     \<and> al_output a = Some l \<and> all_flushed l \<and> concat (map chunk_stream (history a)) @ pending a = ''onetwo''"
proof -
  let ?m = "replicate kLargeBuffer CHR ''.''"
  let ?es = "[LAppend ?m ''one'', LThread (\<lambda>_. witness_env) ''now'', LThread (\<lambda>_. witness_env) ''now'', LAppend ?m ''two'', LThread (\<lambda>_. witness_env) ''now'']"
  have "\<exists>a0. al_start True (new_LogFile witness_env ''app'' 1000 3 1024) ?m ?m (new_AsyncLogging 1 ?m ?m) = Inr a0"
    by (simp add: al_start_def new_LogFile_def new_AsyncLogging_def thread_start_def new_Thread_def witness_env_def new_AppendFile_def)
  then obtain a0 where a0: "al_start True (new_LogFile witness_env ''app'' 1000 3 1024) ?m ?m (new_AsyncLogging 1 ?m ?m) = Inr a0" by blast
  have "\<forall>m \<in> {?m, ?m, ?m, ?m}. length m = kLargeBuffer" by simp
  moreover have "\<forall>e \<in> set ?es. log_event_ok e" using witness_env_ok by (simp add: log_event_ok_def)
  ultimately obtain a l where "fold_res al_exec ?es a0 = Inr a" "al_output a = Some l" "all_flushed l"
    "concat (map chunk_stream (history a)) @ pending a = concat (map event_lines ?es)"
    using async_log_in_order [OF a0, of ?es] by blast
  then show ?thesis using a0 by (intro exI [of _ a0] exI [of _ a] exI [of _ l]) (simp add: event_lines_def accepted_line_def kLargeBuffer_def)
qed

end
