(* ===== verification/Tcp_Server.thy ===== *)
theory Tcp_Server
  imports Tcp_Connection Thread_Sync
begin

text \<open>
  \<^verbatim>\<open>src/mynetlib/net/\<close>: \<open>Acceptor\<close>, \<open>EventLoopThread\<close>, \<open>EventLoopThreadPool\<close> and \<open>TcpServer\<close>, over
  the connections of \<open>Tcp_Connection\<close>. Loops are numbered, the acceptor's loop is 0; every loop has a queue
  of functors, and running the first one is an event, so that the loops interleave freely.
\<close>

section \<open>Accepting\<close>

definition EMFILE :: int where "EMFILE = 24"

record acceptor =
  listenning :: bool
  acceptChannel :: channel
  acc_callback :: bool
  idleFd :: int

definition new_Acceptor :: "int \<Rightarrow> int \<Rightarrow> acceptor res" where
  "new_Acceptor sockfd idle =
     assert_res (idle \<ge> 0) (Inr \<lparr>listenning = False, acceptChannel = setReadCallback (new_Channel sockfd),
       acc_callback = False, idleFd = idle\<rparr>)"

definition acc_setNewConnectionCallback :: "acceptor \<Rightarrow> acceptor" where
  "acc_setNewConnectionCallback a = a\<lparr>acc_callback := True\<rparr>"

definition acc_listen :: "acceptor \<Rightarrow> acceptor" where
  "acc_listen a = a\<lparr>listenning := True,
     acceptChannel := (acceptChannel a)\<lparr>ch_events := ch_events (acceptChannel a) OR kReadEvent, ch_addedToLoop := True\<rparr>\<rparr>"

definition destroy_Acceptor :: "acceptor \<Rightarrow> acceptor res" where
  "destroy_Acceptor a =
     (let ch = (acceptChannel a)\<lparr>ch_events := kNoneEvent, ch_addedToLoop := True\<rparr>
      in assert_res (isNoneEvent ch) (Inr (a\<lparr>acceptChannel := ch\<lparr>ch_addedToLoop := False\<rparr>\<rparr>)))"

text \<open>
  \<open>r\<close> is the answer of \<open>accept\<close>; when the process is out of descriptors, \<open>refused\<close> is the descriptor of the
  second \<open>accept\<close> and \<open>reopened\<close> the new idle descriptor. The results are the descriptor for the callback and
  the descriptors closed here.
\<close>

definition acc_handleRead :: "int + int \<Rightarrow> int \<Rightarrow> int \<Rightarrow> acceptor \<Rightarrow> int option \<times> int list \<times> acceptor" where
  "acc_handleRead r refused reopened a =
     (case r of
        Inr connfd \<Rightarrow> if acc_callback a then (Some connfd, [], a) else (None, [connfd], a)
      | Inl errno \<Rightarrow> if errno = EMFILE then (None, [idleFd a, refused], a\<lparr>idleFd := reopened\<rparr>) else (None, [], a))"

section \<open>Loop threads\<close>

record loop_thread =
  lt_loop :: "nat option"
  exiting :: bool
  lt_thread :: thread

definition new_EventLoopThread :: "int \<Rightarrow> string \<Rightarrow> loop_thread" where
  "new_EventLoopThread num n = \<lparr>lt_loop = None, exiting = False, lt_thread = new_Thread num n\<rparr>"

text \<open>\<open>startLoop\<close> returns once the thread has published its loop.\<close>

definition lt_threadFunc :: "nat \<Rightarrow> loop_thread \<Rightarrow> loop_thread" where
  "lt_threadFunc loop t = t\<lparr>lt_loop := Some loop\<rparr>"

definition startLoop :: "bool \<Rightarrow> nat \<Rightarrow> loop_thread \<Rightarrow> (nat \<times> loop_thread) res" where
  "startLoop created loop t =
     assert_res (\<not> started (lt_thread t))
       (bind_res (thread_start created (lt_thread t)) (\<lambda>th.
          let t = lt_threadFunc loop (t\<lparr>lt_thread := th\<rparr>)
          in case lt_loop t of Some l \<Rightarrow> Inr (l, t) | None \<Rightarrow> Inl UseAfterFree))"

definition destroy_EventLoopThread :: "loop_thread \<Rightarrow> loop_thread res" where
  "destroy_EventLoopThread t =
     (let t = t\<lparr>exiting := True\<rparr>
      in if lt_loop t \<noteq> None then bind_res (thread_join (lt_thread t)) (\<lambda>th. Inr (t\<lparr>lt_thread := th\<rparr>)) else Inr t)"

record loop_pool =
  lp_name :: string
  lp_started :: bool
  numThreads :: nat
  next_loop :: nat
  lp_threads :: "loop_thread list"
  loops :: "nat list"

definition baseLoop :: nat where "baseLoop = 0"

definition new_EventLoopThreadPool :: "string \<Rightarrow> loop_pool" where
  "new_EventLoopThreadPool n = \<lparr>lp_name = n, lp_started = False, numThreads = 0, next_loop = 0, lp_threads = [], loops = []\<rparr>"

text \<open>\<open>created i\<close> tells whether the \<open>i\<close>-th thread can be created, \<open>num\<close> is the number of threads so far.\<close>

definition lp_spawn :: "int \<Rightarrow> (nat \<Rightarrow> bool) \<Rightarrow> nat \<Rightarrow> loop_pool \<Rightarrow> loop_pool res" where
  "lp_spawn num created i p =
     bind_res (startLoop (created i) (Suc i) (new_EventLoopThread (num + int i) (lp_name p @ dec_int (int i)))) (\<lambda>(l, t).
       Inr (p\<lparr>lp_threads := lp_threads p @ [t], loops := loops p @ [l]\<rparr>))"

definition lp_start :: "int \<Rightarrow> (nat \<Rightarrow> bool) \<Rightarrow> loop_pool \<Rightarrow> loop_pool res" where
  "lp_start num created p =
     assert_res (\<not> lp_started p) (fold_res (lp_spawn num created) [0..<numThreads p] (p\<lparr>lp_started := True\<rparr>))"

definition getNextLoop :: "loop_pool \<Rightarrow> (nat \<times> loop_pool) res" where
  "getNextLoop p =
     assert_res (lp_started p)
       (if loops p \<noteq> []
        then (let loop = loops p ! next_loop p;
                  n = next_loop p + 1
              in Inr (loop, p\<lparr>next_loop := if n \<ge> length (loops p) then 0 else n\<rparr>))
        else Inr (baseLoop, p))"

definition getLoopForHash :: "nat \<Rightarrow> loop_pool \<Rightarrow> nat" where
  "getLoopForHash hashCode p = (if loops p \<noteq> [] then loops p ! (hashCode mod length (loops p)) else baseLoop)"

definition getAllLoops :: "loop_pool \<Rightarrow> nat list res" where
  "getAllLoops p = assert_res (lp_started p) (Inr (if loops p = [] then [baseLoop] else loops p))"

section \<open>The server\<close>

datatype functor_call = FEstablish nat | FRemove nat | FDestroy nat

record server_conn =
  sc_name :: string
  sc_loop :: nat
  sc_conn :: tcp_conn

record tcp_server =
  srv_name :: string
  ipPort :: string
  srv_acceptor :: acceptor
  threadPool :: loop_pool
  srv_started :: bool
  writeCompleteSet :: bool        \<comment> \<open>whether \<open>writeCompleteCallback_\<close> is set\<close>
  nextConnId :: int
  connections :: "string \<Rightarrow> nat option"
  conns :: "server_conn list"     \<comment> \<open>every connection object created so far\<close>
  queues :: "nat \<Rightarrow> functor_call list"

definition new_TcpServer :: "int \<Rightarrow> int \<Rightarrow> string \<Rightarrow> string \<Rightarrow> tcp_server res" where
  "new_TcpServer sockfd idle addr n =
     bind_res (new_Acceptor sockfd idle) (\<lambda>a.
       Inr \<lparr>srv_name = n, ipPort = addr, srv_acceptor = acc_setNewConnectionCallback a, threadPool = new_EventLoopThreadPool n, srv_started = False,
            writeCompleteSet = False, nextConnId = 1, connections = Map.empty, conns = [], queues = (\<lambda>_. [])\<rparr>)"

definition setThreadNum :: "int \<Rightarrow> tcp_server \<Rightarrow> tcp_server res" where
  "setThreadNum n s = assert_res (0 \<le> n) (Inr (s\<lparr>threadPool := (threadPool s)\<lparr>numThreads := nat n\<rparr>\<rparr>))"

definition srv_start :: "int \<Rightarrow> (nat \<Rightarrow> bool) \<Rightarrow> tcp_server \<Rightarrow> tcp_server res" where
  "srv_start num created s =
     (if \<not> srv_started s
      then bind_res (lp_start num created (threadPool s)) (\<lambda>p.
             assert_res (\<not> listenning (srv_acceptor s))
               (Inr (s\<lparr>srv_started := True, threadPool := p, srv_acceptor := acc_listen (srv_acceptor s)\<rparr>)))
      else Inr s)"

text \<open>\<open>queueInLoop\<close>, and the connection operations on an object of the server.\<close>

definition srv_queue :: "nat \<Rightarrow> functor_call \<Rightarrow> tcp_server \<Rightarrow> tcp_server" where
  "srv_queue l f s = s\<lparr>queues := (queues s)(l := queues s l @ [f])\<rparr>"

definition on_conn :: "nat \<Rightarrow> (tcp_conn \<Rightarrow> tcp_conn res) \<Rightarrow> tcp_server \<Rightarrow> tcp_server res" where
  "on_conn c f s = bind_res (f (sc_conn (conns s ! c))) (\<lambda>t. Inr (s\<lparr>conns := (conns s)[c := (conns s ! c)\<lparr>sc_conn := t\<rparr>]\<rparr>))"

definition connName :: "tcp_server \<Rightarrow> int \<Rightarrow> string" where
  "connName s i = srv_name s @ take 63 (''-'' @ ipPort s @ ''#'' @ dec_int i)"

definition srv_setWriteCompleteCallback :: "tcp_server \<Rightarrow> tcp_server" where
  "srv_setWriteCompleteCallback s = s\<lparr>writeCompleteSet := True\<rparr>"

text \<open>A new connection object with the callbacks handed on to it.\<close>

definition fresh_conn :: "bool \<Rightarrow> int \<Rightarrow> tcp_conn" where
  "fresh_conn writeComplete sockfd =
     (if writeComplete then setWriteCompleteCallback (new_TcpConnection sockfd) else new_TcpConnection sockfd)"

definition newConnection :: "int \<Rightarrow> tcp_server \<Rightarrow> tcp_server res" where
  "newConnection sockfd s =
     bind_res (getNextLoop (threadPool s)) (\<lambda>(ioLoop, p).
       let n = connName s (nextConnId s);
           c = length (conns s);
           s = s\<lparr>threadPool := p, nextConnId := nextConnId s + 1,
                 conns := conns s @ [\<lparr>sc_name = n, sc_loop = ioLoop, sc_conn = fresh_conn (writeCompleteSet s) sockfd\<rparr>],
                 connections := (connections s)(n \<mapsto> c)\<rparr>
       in if ioLoop = baseLoop then on_conn c connectEstablished s else Inr (srv_queue ioLoop (FEstablish c) s))"

definition removeConnectionInLoop :: "nat \<Rightarrow> tcp_server \<Rightarrow> tcp_server res" where
  "removeConnectionInLoop c s =
     (let n = sc_name (conns s ! c)
      in assert_res (connections s n \<noteq> None)
           (Inr (srv_queue (sc_loop (conns s ! c)) (FDestroy c) (s\<lparr>connections := (connections s)(n := None)\<rparr>))))"

definition removeConnection :: "nat \<Rightarrow> tcp_server \<Rightarrow> tcp_server res" where
  "removeConnection c s = (if sc_loop (conns s ! c) = baseLoop then removeConnectionInLoop c s else Inr (srv_queue baseLoop (FRemove c) s))"

definition srv_functor :: "functor_call \<Rightarrow> tcp_server \<Rightarrow> tcp_server res" where
  "srv_functor f s = (case f of FEstablish c \<Rightarrow> on_conn c connectEstablished s | FRemove c \<Rightarrow> removeConnectionInLoop c s | FDestroy c \<Rightarrow> on_conn c connectDestroyed s)"

text \<open>Every close callback a connection event makes calls \<open>removeConnection\<close>.\<close>

definition srv_conn_event :: "nat \<Rightarrow> tc_event \<Rightarrow> tcp_server \<Rightarrow> tcp_server res" where
  "srv_conn_event c e s =
     bind_res (on_conn c (tc_exec e) s) (\<lambda>s'.
       fold_res (\<lambda>_. removeConnection c) (filter ((=) CloseCb) (drop (length (calls (sc_conn (conns s ! c)))) (calls (sc_conn (conns s' ! c))))) s')"

text \<open>The destructor, over the connections still in the map.\<close>

definition destroy_one :: "nat \<Rightarrow> tcp_server \<Rightarrow> tcp_server res" where
  "destroy_one c s = (if sc_loop (conns s ! c) = baseLoop then on_conn c connectDestroyed s else Inr (srv_queue (sc_loop (conns s ! c)) (FDestroy c) s))"

definition destroy_TcpServer :: "tcp_server \<Rightarrow> tcp_server res" where
  "destroy_TcpServer s =
     bind_res (fold_res destroy_one (filter (\<lambda>c. connections s (sc_name (conns s ! c)) = Some c) [0..<length (conns s)]) s) (\<lambda>s.
       Inr (s\<lparr>connections := Map.empty\<rparr>))"

text \<open>
  The events of a server. A connection is known to nobody before \<open>connectEstablished\<close>, and \<open>Established\<close> and
  \<open>Destroyed\<close> are the server's own calls.
\<close>

datatype srv_event = SStart int "nat \<Rightarrow> bool" | SSetWriteComplete | SAccept "int + int" int int | SConn nat tc_event | SRun nat

definition srv_exec :: "srv_event \<Rightarrow> tcp_server \<Rightarrow> tcp_server res" where
  "srv_exec e s = (case e of
       SStart num created \<Rightarrow> srv_start num created s
     | SSetWriteComplete \<Rightarrow> Inr (srv_setWriteCompleteCallback s)
     | SAccept r refused reopened \<Rightarrow>
         if listenning (srv_acceptor s)
         then (case acc_handleRead r refused reopened (srv_acceptor s) of
                 (Some fd, _, a) \<Rightarrow> newConnection fd (s\<lparr>srv_acceptor := a\<rparr>)
               | (None, _, a) \<Rightarrow> Inr (s\<lparr>srv_acceptor := a\<rparr>))
         else Inr s
     | SConn c ev \<Rightarrow>
         if c < length (conns s) \<and> tc_state (sc_conn (conns s ! c)) \<noteq> kConnecting \<and> ev \<noteq> Established \<and> ev \<noteq> Destroyed
         then srv_conn_event c ev s else Inr s
     | SRun l \<Rightarrow> (case queues s l of [] \<Rightarrow> Inr s | f # fs \<Rightarrow> srv_functor f (s\<lparr>queues := (queues s)(l := fs)\<rparr>)))"

section \<open>Callbacks of a connection only accumulate\<close>

definition calls_grow :: "tcp_conn \<Rightarrow> tcp_conn \<Rightarrow> bool" where
  "calls_grow s s' \<longleftrightarrow> prefix (calls s) (calls s')"

lemma calls_grow_refl [simp]: "calls_grow s s"
  by (simp add: calls_grow_def)

lemma calls_grow_same: "calls s' = calls s \<Longrightarrow> calls_grow s s'"
  by (simp add: calls_grow_def)

lemma calls_grow_trans: "calls_grow s t \<Longrightarrow> calls_grow t u \<Longrightarrow> calls_grow s u"
  unfolding calls_grow_def by (rule prefix_order.trans)

lemma direct_write_calls: "calls_grow s (snd (snd (direct_write data r s)))"
  by (auto simp: direct_write_def calls_grow_def Let_def split: sum.splits)

lemma queue_rest_calls: "queue_rest data n s = Inr s' \<Longrightarrow> calls_grow s s'"
  by (cases "buf_append (drop n data) (outputBuffer s)") (auto simp: queue_rest_def calls_grow_def Let_def res_simps)

lemma sendInLoop_calls:
  assumes "sendInLoop data r s = Inr s'"
  shows "calls_grow s s'"
proof (cases "tc_state s = kDisconnected")
  case True
  then show ?thesis using assms by (simp add: sendInLoop_def)
next
  case False
  obtain n f s1 where d: "direct_write data r s = (n, f, s1)" by (cases "direct_write data r s") auto
  have g: "calls_grow s s1" using direct_write_calls [of s data r] d by simp
  have "calls_grow s1 s'"
    using assms d False queue_rest_calls [of data n s1 s'] by (auto simp: sendInLoop_def calls_grow_def res_simps split: if_splits)
  with g show ?thesis by (rule calls_grow_trans)
qed

lemma handleClose_calls: "tc_handleClose s = Inr s' \<Longrightarrow> calls_grow s s'"
  by (auto simp: tc_handleClose_def calls_grow_def Let_def res_simps)

lemma handleRead_calls:
  assumes "tc_handleRead r t s = Inr s'"
  shows "calls_grow s s'"
proof (cases "readFd r (inputBuffer s)")
  case (Inr x)
  then obtain n e b where "readFd r (inputBuffer s) = Inr (n, e, b)" by (cases x) simp
  then show ?thesis
    using assms handleClose_calls [of "s\<lparr>inputBuffer := b\<rparr>" s']
    by (auto simp: tc_handleRead_def tc_handleError_def calls_grow_def Let_def split: if_splits)
qed (use assms in \<open>simp add: tc_handleRead_def\<close>)

lemma handleWrite_calls: "tc_handleWrite r s = Inr s' \<Longrightarrow> calls_grow s s'"
  by (auto simp: tc_handleWrite_def calls_grow_def Let_def shutdownInLoop_def res_simps split: if_splits sum.splits)

lemma run_chan_call_calls: "run_chan_call rd wr c s = Inr s' \<Longrightarrow> calls_grow s s'"
  by (cases c) (auto simp: run_chan_call_def tc_handleError_def intro: handleClose_calls handleRead_calls handleWrite_calls)

lemma dispatch_calls: "fold_res (run_chan_call rd wr) cs s = Inr s' \<Longrightarrow> calls_grow s s'"
  by (rule fold_res_inv [where P = "calls_grow s" and f = "run_chan_call rd wr" and xs = cs and s = s])
     (auto intro: calls_grow_trans run_chan_call_calls)

lemma tc_exec_calls:
  assumes "tc_exec e s = Inr s'"
  shows "calls_grow s s'"
proof (cases e)
  case (RunSend r)
  then show ?thesis
    using assms sendInLoop_calls [of "hd (sends_queued s)" r "s\<lparr>sends_queued := tl (sends_queued s)\<rparr>" s']
    by (auto simp: tc_exec_def calls_grow_def split: list.splits)
next
  case (Dispatch rev t rd wr)
  then show ?thesis using assms by (auto simp: tc_exec_def tc_dispatch_def intro: dispatch_calls split: if_splits)
next
  case (Send m r)
  then show ?thesis using assms by (auto simp: tc_exec_def send_def intro: sendInLoop_calls split: if_splits)
next
  case RunForceClose
  then show ?thesis
    using assms handleClose_calls [of "s\<lparr>closes_queued := closes_queued s - 1\<rparr>" s']
    by (auto simp: tc_exec_def forceCloseInLoop_def calls_grow_def split: if_splits)
next
  case Destroyed
  then show ?thesis using assms by (auto simp: tc_exec_def connectDestroyed_def tc_remove_def calls_grow_def Let_def res_simps)
next
  case Established
  then show ?thesis using assms by (auto simp: tc_exec_def connectEstablished_def calls_grow_def Let_def res_simps)
qed (use assms in \<open>auto simp: tc_exec_def send_queued_def startReadInLoop_def stopReadInLoop_def shutdown_def
    shutdownInLoop_def forceClose_def res_simps calls_grow_def split: if_splits\<close>)

text \<open>An event makes the close callback at most once, and only the first time.\<close>

definition closed_conn :: "tcp_conn \<Rightarrow> bool" where
  "closed_conn t \<longleftrightarrow> CloseCb \<in> set (calls t)"

lemma life_close_count: "life_ok t \<Longrightarrow> count_list (calls t) CloseCb = of_bool (closed_conn t)"
proof -
  assume ok: "life_ok t"
  have "count_list cs CloseCb = count_list (filter (\<lambda>c. c \<in> {ConnectionCb True, ConnectionCb False, CloseCb}) cs) CloseCb" for cs
    by (induction cs) auto
  then have "count_list (calls t) CloseCb = count_list (life_calls t) CloseCb" unfolding life_calls_def by blast
  moreover have "CloseCb \<in> set (calls t) \<longleftrightarrow> CloseCb \<in> set (life_calls t)" by (simp add: life_calls_def)
  moreover have "count_list (life_calls t) CloseCb \<le> 1" using ok by (auto simp: life_ok_def)
  ultimately show ?thesis using count_list_0_iff [of "life_calls t" CloseCb] by (auto simp: closed_conn_def le_Suc_eq)
qed

lemma new_close_calls:
  assumes "life_ok t" and "life_ok t'" and "calls_grow t t'"
  shows "filter ((=) CloseCb) (drop (length (calls t)) (calls t')) = (if closed_conn t' \<and> \<not> closed_conn t then [CloseCb] else [])"
    and "closed_conn t \<Longrightarrow> closed_conn t'"
proof -
  obtain cs where cs: "calls t' = calls t @ cs" using assms(3) by (auto simp: calls_grow_def prefix_def)
  then have c: "count_list (calls t) CloseCb + count_list cs CloseCb = count_list (calls t') CloseCb" by simp
  then have n: "count_list cs CloseCb = of_bool (closed_conn t' \<and> \<not> closed_conn t)"
    using life_close_count [OF assms(1)] life_close_count [OF assms(2)] by (cases "closed_conn t"; cases "closed_conn t'") auto
  have "filter ((=) CloseCb) cs = replicate (count_list cs CloseCb) CloseCb"
    by (induction cs) auto
  then show "filter ((=) CloseCb) (drop (length (calls t)) (calls t')) = (if closed_conn t' \<and> \<not> closed_conn t then [CloseCb] else [])"
    using n cs by simp
  show "closed_conn t \<Longrightarrow> closed_conn t'" using cs by (simp add: closed_conn_def)
qed

section \<open>Connection names\<close>

lemma dec_int_inj: "0 \<le> i \<Longrightarrow> 0 \<le> j \<Longrightarrow> dec_int i = dec_int j \<Longrightarrow> i = j"
  by (metis dec_int_def dec_value_dec_nat eq_nat_nat_iff not_less)

lemma connName_inj:
  assumes "length (ipPort s) \<le> 51" and "0 \<le> i" "i < 10 ^ 10" and "0 \<le> j" "j < 10 ^ 10" and "connName s i = connName s j"
  shows "i = j"
proof -
  have "length (dec_int i) \<le> 10" "length (dec_int j) \<le> 10"
    using assms length_dec_nat [of "nat i" 10] length_dec_nat [of "nat j" 10] by (simp_all add: dec_int_def nat_less_iff)
  then show ?thesis using assms by (intro dec_int_inj) (simp_all add: connName_def)
qed

section \<open>The connection map\<close>

definition in_map :: "tcp_server \<Rightarrow> nat \<Rightarrow> bool" where
  "in_map s c \<longleftrightarrow> connections s (sc_name (conns s ! c)) = Some c"

text \<open>How the state of one connection, the map and the pending functors belong together.\<close>

definition conn_phase :: "tcp_conn \<Rightarrow> nat \<Rightarrow> bool \<Rightarrow> (functor_call \<Rightarrow> nat \<Rightarrow> nat) \<Rightarrow> nat \<Rightarrow> bool" where
  "conn_phase t loop mapped pend c \<longleftrightarrow>
     life_ok t \<and> (\<not> closed_conn t \<longrightarrow> mapped)
     \<and> (\<forall>l. pend (FEstablish c) l = of_bool (l = loop \<and> tc_state t = kConnecting))
     \<and> (\<forall>l. pend (FRemove c) l = of_bool (l = baseLoop \<and> closed_conn t \<and> mapped))
     \<and> (\<forall>l. pend (FDestroy c) l \<le> of_bool (l = loop \<and> \<not> mapped))"

definition pend_in :: "(nat \<Rightarrow> functor_call list) \<Rightarrow> functor_call \<Rightarrow> nat \<Rightarrow> nat" where
  "pend_in q f l = count_list (q l) f"

definition conn_ok :: "tcp_server \<Rightarrow> nat \<Rightarrow> bool" where
  "conn_ok s c \<longleftrightarrow> conn_phase (sc_conn (conns s ! c)) (sc_loop (conns s ! c)) (in_map s c) (pend_in (queues s)) c"

definition functor_conn :: "functor_call \<Rightarrow> nat" where
  "functor_conn f = (case f of FEstablish c \<Rightarrow> c | FRemove c \<Rightarrow> c | FDestroy c \<Rightarrow> c)"

lemma functor_conn_simps [simp]: "functor_conn (FEstablish c) = c" "functor_conn (FRemove c) = c" "functor_conn (FDestroy c) = c"
  by (simp_all add: functor_conn_def)

definition map_ok :: "tcp_server \<Rightarrow> bool" where
  "map_ok s \<longleftrightarrow> nextConnId s = int (length (conns s)) + 1
     \<and> (\<forall>c < length (conns s). sc_name (conns s ! c) = connName s (int c + 1))
     \<and> (\<forall>n c. connections s n = Some c \<longrightarrow> c < length (conns s) \<and> sc_name (conns s ! c) = n)
     \<and> (\<forall>l. \<forall>f \<in> set (queues s l). functor_conn f < length (conns s))"

definition pool_ok :: "nat \<Rightarrow> tcp_server \<Rightarrow> bool" where
  "pool_ok n s \<longleftrightarrow> numThreads (threadPool s) = n
     \<and> (if lp_started (threadPool s)
        then loops (threadPool s) = map Suc [0..<n] \<and> (n > 0 \<longrightarrow> next_loop (threadPool s) = length (conns s) mod n)
        else conns s = [] \<and> loops (threadPool s) = [] \<and> next_loop (threadPool s) = 0 \<and> \<not> srv_started s \<and> \<not> listenning (srv_acceptor s))
     \<and> (\<forall>c < length (conns s). sc_loop (conns s ! c) = (if n = 0 then baseLoop else Suc (c mod n)))"

definition srv_ok :: "nat \<Rightarrow> tcp_server \<Rightarrow> bool" where
  "srv_ok n s \<longleftrightarrow> map_ok s \<and> pool_ok n s \<and> (\<forall>c < length (conns s). conn_ok s c)"

text \<open>Only the state of connection \<open>c\<close> changes.\<close>

definition set_conn :: "nat \<Rightarrow> tcp_conn \<Rightarrow> tcp_server \<Rightarrow> tcp_server" where
  "set_conn c t s = s\<lparr>conns := (conns s)[c := (conns s ! c)\<lparr>sc_conn := t\<rparr>]\<rparr>"

lemma on_conn_set: "on_conn c f s = Inr s' \<longleftrightarrow> (\<exists>t. f (sc_conn (conns s ! c)) = Inr t \<and> s' = set_conn c t s)"
  by (cases "f (sc_conn (conns s ! c))") (auto simp: on_conn_def set_conn_def)

lemma set_conn_simps [simp]:
  "length (conns (set_conn c t s)) = length (conns s)" "connections (set_conn c t s) = connections s"
  "queues (set_conn c t s) = queues s" "nextConnId (set_conn c t s) = nextConnId s" "threadPool (set_conn c t s) = threadPool s"
  "srv_started (set_conn c t s) = srv_started s" "srv_acceptor (set_conn c t s) = srv_acceptor s"
  "ipPort (set_conn c t s) = ipPort s" "srv_name (set_conn c t s) = srv_name s" "connName (set_conn c t s) = connName s"
  by (simp_all add: set_conn_def connName_def fun_eq_iff)

lemma set_conn_nth:
  "c < length (conns s) \<Longrightarrow> sc_name (conns (set_conn c t s) ! d) = sc_name (conns s ! d)"
  "c < length (conns s) \<Longrightarrow> sc_loop (conns (set_conn c t s) ! d) = sc_loop (conns s ! d)"
  "c < length (conns s) \<Longrightarrow> sc_conn (conns (set_conn c t s) ! d) = (if d = c then t else sc_conn (conns s ! d))"
  by (cases "d = c"; simp add: set_conn_def)+

lemma set_conn_ok:
  assumes "c < length (conns s)"
  shows "map_ok (set_conn c t s) = map_ok s" and "pool_ok n (set_conn c t s) = pool_ok n s"
    and "in_map (set_conn c t s) d = in_map s d" and "d \<noteq> c \<Longrightarrow> conn_ok (set_conn c t s) d = conn_ok s d"
proof -
  have "conns s = [] \<longleftrightarrow> conns (set_conn c t s) = []" by (simp add: set_conn_def)
  then show "map_ok (set_conn c t s) = map_ok s" "pool_ok n (set_conn c t s) = pool_ok n s"
    using assms by (simp_all add: map_ok_def pool_ok_def set_conn_nth)
  show "in_map (set_conn c t s) d = in_map s d" using assms by (simp add: in_map_def set_conn_nth)
  then show "d \<noteq> c \<Longrightarrow> conn_ok (set_conn c t s) d = conn_ok s d" using assms by (simp add: conn_ok_def set_conn_nth)
qed

lemma in_map_unique:
  assumes "map_ok s" and "length (ipPort s) \<le> 51" "length (conns s) < 2 ^ 31" and "c < length (conns s)" "d < length (conns s)" "c \<noteq> d"
  shows "sc_name (conns s ! c) \<noteq> sc_name (conns s ! d)"
proof
  assume "sc_name (conns s ! c) = sc_name (conns s ! d)"
  then have "connName s (int c + 1) = connName s (int d + 1)" using assms by (simp add: map_ok_def)
  then have "int c + 1 = int d + 1" by (rule connName_inj [OF assms(2), rotated 4]) (use assms in simp_all)
  then show False using assms by simp
qed

text \<open>What the three server steps do to a connection's phase.\<close>

lemma pend_in_push: "pend_in (queues (srv_queue l f s)) g k = pend_in (queues s) g k + of_bool (g = f \<and> k = l)"
  by (auto simp: pend_in_def srv_queue_def)

lemma pend_in_pop: "queues s l = f # fs \<Longrightarrow> pend_in (queues s) g k = pend_in ((queues s)(l := fs)) g k + of_bool (g = f \<and> k = l)"
  by (auto simp: pend_in_def)

lemma conn_phase_cong:
  "conn_phase t loop m p c \<Longrightarrow> (\<And>f l. functor_conn f = c \<Longrightarrow> p' f l = p f l) \<Longrightarrow> conn_phase t loop m p' c"
  by (simp add: conn_phase_def functor_conn_def)

lemma phase_new: "pend (FEstablish c) = (\<lambda>l. of_bool (l = loop)) \<Longrightarrow> pend (FRemove c) = (\<lambda>_. 0) \<Longrightarrow> pend (FDestroy c) = (\<lambda>_. 0)
    \<Longrightarrow> conn_phase (fresh_conn w fd) loop True pend c"
  by (simp add: conn_phase_def fresh_conn_def life_ok_def life_calls_def new_TcpConnection_def closed_conn_def setWriteCompleteCallback_def)

lemma event_keeps:
  assumes "life_ok t" and "tc_exec e t = Inr t'"
  shows "life_ok t'" and "calls_grow t t'" and "closed_conn t \<Longrightarrow> closed_conn t'" and "tc_state t \<noteq> kConnecting \<Longrightarrow> tc_state t' \<noteq> kConnecting"
proof -
  show l: "life_ok t'" "calls_grow t t'" using assms tc_exec_life tc_exec_calls by auto
  show "closed_conn t \<Longrightarrow> closed_conn t'" using new_close_calls(2) [OF assms(1) l] .
  show "tc_state t' \<noteq> kConnecting" if "tc_state t \<noteq> kConnecting"
  proof
    assume "tc_state t' = kConnecting"
    then have "life_calls t' = []" using l(1) by (auto simp: life_ok_def)
    then have "life_calls t = []" using l(2) by (auto simp: calls_grow_def prefix_def life_calls_def)
    then show False using assms(1) that by (auto simp: life_ok_def)
  qed
qed

lemma closed_state: "life_ok t \<Longrightarrow> closed_conn t \<Longrightarrow> tc_state t = kDisconnected"
proof -
  assume "life_ok t" "closed_conn t"
  moreover from this(2) have "CloseCb \<in> set (life_calls t)" by (simp add: closed_conn_def life_calls_def)
  ultimately show ?thesis by (auto simp: life_ok_def)
qed

lemma phase_event:
  assumes "conn_phase t loop m pend c" and "tc_exec e t = Inr t'" and "tc_state t \<noteq> kConnecting"
  shows "closed_conn t' = closed_conn t \<Longrightarrow> conn_phase t' loop m pend c"
    and "\<not> closed_conn t \<Longrightarrow> closed_conn t' \<Longrightarrow> m"
    and "\<not> closed_conn t \<Longrightarrow> closed_conn t' \<Longrightarrow> conn_phase t' loop True (\<lambda>f l. pend f l + of_bool (f = FRemove c \<and> l = baseLoop)) c"
    and "\<not> closed_conn t \<Longrightarrow> closed_conn t' \<Longrightarrow> conn_phase t' loop False (\<lambda>f l. pend f l + of_bool (f = FDestroy c \<and> l = loop)) c"
proof -
  have t: "life_ok t" using assms(1) by (simp add: conn_phase_def)
  note k = event_keeps [OF t assms(2)]
  show "closed_conn t' = closed_conn t \<Longrightarrow> conn_phase t' loop m pend c"
    using assms k(1) k(4) [OF assms(3)] by (simp add: conn_phase_def)
  show "\<not> closed_conn t \<Longrightarrow> closed_conn t' \<Longrightarrow> m" using assms(1) by (simp add: conn_phase_def)
  show "\<not> closed_conn t \<Longrightarrow> closed_conn t' \<Longrightarrow> conn_phase t' loop True (\<lambda>f l. pend f l + of_bool (f = FRemove c \<and> l = baseLoop)) c"
    "\<not> closed_conn t \<Longrightarrow> closed_conn t' \<Longrightarrow> conn_phase t' loop False (\<lambda>f l. pend f l + of_bool (f = FDestroy c \<and> l = loop)) c"
    using assms k(1) k(4) [OF assms(3)] by (auto simp: conn_phase_def)
qed

lemma conn_phaseD:
  assumes "conn_phase t loop m pend c"
  shows "pend (FEstablish c) l = of_bool (l = loop \<and> tc_state t = kConnecting)"
    and "pend (FRemove c) l = of_bool (l = baseLoop \<and> closed_conn t \<and> m)"
    and "pend (FDestroy c) l \<le> of_bool (l = loop \<and> \<not> m)"
  using assms by (simp_all add: conn_phase_def)

lemma phase_remove:
  assumes "conn_phase t loop m (\<lambda>f l. pend f l + of_bool (f = FRemove c \<and> l = k)) c"
  shows "m \<and> conn_phase t loop False (\<lambda>f l. pend f l + of_bool (f = FDestroy c \<and> l = loop)) c"
proof -
  have "pend (FRemove c) k + 1 = of_bool (k = baseLoop \<and> closed_conn t \<and> m)" using conn_phaseD(2) [OF assms, of k] by simp
  then have "k = baseLoop \<and> closed_conn t \<and> m" by (cases "k = baseLoop \<and> closed_conn t \<and> m") simp_all
  then show ?thesis using assms by (auto simp: conn_phase_def)
qed

lemma phase_establish:
  assumes "conn_phase t loop m (\<lambda>f l. pend f l + of_bool (f = FEstablish c \<and> l = k)) c" and "connectEstablished t = Inr t'"
  shows "conn_phase t' loop m pend c"
proof -
  have "pend (FEstablish c) k + 1 = of_bool (k = loop \<and> tc_state t = kConnecting)" using conn_phaseD(1) [OF assms(1), of k] by simp
  then have k: "k = loop" "tc_state t = kConnecting" by (cases "k = loop \<and> tc_state t = kConnecting"; simp)+
  have ex: "tc_exec Established t = Inr t'" using assms(2) by (simp add: tc_exec_def)
  have t: "life_ok t" using assms(1) by (simp add: conn_phase_def)
  note kk = event_keeps [OF t ex]
  have st: "tc_state t' = kConnected" using assms(2) by (auto simp: connectEstablished_def Let_def res_simps)
  have "\<not> closed_conn t" using closed_state [OF t] k(2) by auto
  moreover have "\<not> closed_conn t'" using closed_state [OF kk(1)] st by auto
  ultimately show ?thesis using assms(1) k st kk(1) by (auto simp: conn_phase_def)
qed

lemma phase_destroy:
  assumes "conn_phase t loop m (\<lambda>f l. pend f l + of_bool (f = FDestroy c \<and> l = k)) c" and "connectDestroyed t = Inr t'"
  shows "conn_phase t' loop m pend c"
proof -
  have "pend (FDestroy c) k + 1 \<le> of_bool (k = loop \<and> \<not> m)" using conn_phaseD(3) [OF assms(1), of k] by simp
  then have k: "k = loop" "\<not> m" by (cases "k = loop \<and> \<not> m"; simp)+
  have ex: "tc_exec Destroyed t = Inr t'" using assms(2) by (simp add: tc_exec_def)
  have t: "life_ok t" "closed_conn t" using assms(1) k by (auto simp: conn_phase_def)
  note kk = event_keeps [OF t(1) ex]
  have "tc_state t = kDisconnected" by (rule closed_state [OF t])
  then show ?thesis using assms(1) k kk t(2) by (auto simp: conn_phase_def)
qed

text \<open>A step that concerns one connection keeps the invariant of the others.\<close>

lemma srv_ok_update:
  assumes ok: "srv_ok n s" and b: "length (ipPort s) \<le> 51" "length (conns s) < 2 ^ 31" and c: "c < length (conns s)"
    and s': "s' = (set_conn c t s)\<lparr>connections := cm, queues := q\<rparr>"
    and cm: "cm = connections s \<or> cm = (connections s)(sc_name (conns s ! c) := None)"
    and q: "\<And>f l. functor_conn f \<noteq> c \<Longrightarrow> pend_in q f l = pend_in (queues s) f l"
    and q2: "\<forall>l. \<forall>f \<in> set (q l). functor_conn f < length (conns s)"
    and ph: "conn_phase t (sc_loop (conns s ! c)) (cm (sc_name (conns s ! c)) = Some c) (pend_in q) c"
  shows "srv_ok n s'"
proof -
  have m: "map_ok s" and p: "pool_ok n s" using ok by (simp_all add: srv_ok_def)
  have conns: "conns s' = conns (set_conn c t s)" by (simp add: s')
  have cs: "sc_name (conns s' ! d) = sc_name (conns s ! d)" "sc_loop (conns s' ! d) = sc_loop (conns s ! d)"
     "sc_conn (conns s' ! d) = (if d = c then t else sc_conn (conns s ! d))" for d
    unfolding conns using c by (rule set_conn_nth)+
  have len: "length (conns s') = length (conns s)" by (simp add: conns)
  have name: "connName s' = connName s" by (simp add: s' connName_def fun_eq_iff set_conn_def)
  have fields: "connections s' = cm" "queues s' = q" "nextConnId s' = nextConnId s" by (simp_all add: s')
  have "map_ok s'"
    using m cm q2 unfolding map_ok_def cs len name fields by (auto split: if_splits)
  moreover have "pool_ok n s'" using p c by (simp add: pool_ok_def cs len) (simp add: s' conns set_conn_def)
  moreover have "conn_ok s' d" if d: "d < length (conns s')" for d
  proof (cases "d = c")
    case True
    then show ?thesis using ph by (simp add: conn_ok_def cs in_map_def) (simp add: s')
  next
    case False
    have "sc_name (conns s ! d) \<noteq> sc_name (conns s ! c)" using in_map_unique [OF m b] c d False by (simp add: len)
    then have i: "in_map s' d = in_map s d" using cm by (auto simp: in_map_def cs) (simp_all add: s')
    have "conn_ok s d" using ok d by (simp add: srv_ok_def len)
    then have "conn_phase (sc_conn (conns s ! d)) (sc_loop (conns s ! d)) (in_map s d) (pend_in q) d"
      unfolding conn_ok_def by (rule conn_phase_cong) (use q False in auto)
    then show ?thesis using False by (simp add: conn_ok_def cs i) (simp add: s')
  qed
  ultimately show ?thesis by (simp add: srv_ok_def)
qed

lemma set_conn_id: "c < length (conns s) \<Longrightarrow> set_conn c (sc_conn (conns s ! c)) s = s"
  by (simp add: set_conn_def list_update_id)

lemma set_conn_twice: "set_conn c t (set_conn c u s) = set_conn c t s"
  by (cases "c < length (conns s)") (simp_all add: set_conn_def list_update_beyond)

lemma pend_in_fun: "queues s l = f # fs \<Longrightarrow> pend_in (queues s) = (\<lambda>g k. pend_in ((queues s)(l := fs)) g k + of_bool (g = f \<and> k = l))"
  using pend_in_pop by (intro ext) blast

lemma pend_in_queue: "pend_in (q(l := q l @ [f])) = (\<lambda>g k. pend_in q g k + of_bool (g = f \<and> k = l))"
  by (auto simp: pend_in_def fun_eq_iff)

lemma queue_all: "\<forall>l. \<forall>f \<in> set (q l). P f \<Longrightarrow> P g \<Longrightarrow> \<forall>l. \<forall>f \<in> set ((q(k := q k @ [g])) l). P f"
  by auto

lemma removeConnectionInLoop_ok:
  assumes "removeConnectionInLoop c s = Inr s'" and "c < length (conns s)"
  shows "s' = (set_conn c (sc_conn (conns s ! c)) s)\<lparr>connections := (connections s)(sc_name (conns s ! c) := None),
     queues := (queues s)(sc_loop (conns s ! c) := queues s (sc_loop (conns s ! c)) @ [FDestroy c])\<rparr>"
  using assms by (simp add: removeConnectionInLoop_def srv_queue_def set_conn_id Let_def res_simps)

lemma srv_run_ok:
  assumes ok: "srv_ok n s" and b: "length (ipPort s) \<le> 51" "length (conns s) < 2 ^ 31"
    and run: "srv_exec (SRun l) s = Inr s'"
  shows "srv_ok n s'"
proof (cases "queues s l")
  case Nil
  then show ?thesis using ok run by (simp add: srv_exec_def)
next
  case (Cons f fs)
  let ?q = "(queues s)(l := fs)"
  let ?s = "s\<lparr>queues := ?q\<rparr>"
  let ?c = "functor_conn f"
  have run': "srv_functor f ?s = Inr s'" using run Cons by (simp add: srv_exec_def)
  have fin: "\<forall>l. \<forall>f \<in> set (queues s l). functor_conn f < length (conns s)" using ok by (simp add: srv_ok_def map_ok_def)
  then have c: "?c < length (conns s)" using Cons by (metis list.set_intros(1))
  have q2: "\<forall>l. \<forall>f \<in> set (?q l). functor_conn f < length (conns s)" using fin Cons by (metis fun_upd_apply list.set_intros(2))
  have q: "pend_in ?q g k = pend_in (queues s) g k" if "functor_conn g \<noteq> ?c" for g k
    using pend_in_pop [OF Cons, of g k] that by auto
  have ph: "conn_phase (sc_conn (conns s ! ?c)) (sc_loop (conns s ! ?c)) (in_map s ?c)
      (\<lambda>g k. pend_in ?q g k + of_bool (g = f \<and> k = l)) ?c"
    using ok c pend_in_fun [OF Cons] by (simp add: srv_ok_def conn_ok_def)
  have upd: "srv_ok n (set_conn ?c t ?s)" if "conn_phase t (sc_loop (conns s ! ?c)) (in_map s ?c) (pend_in ?q) ?c" for t
    by (rule srv_ok_update [OF ok b c, where t = t and cm = "connections s" and q = ?q]) (use that q q2 in \<open>auto simp: set_conn_def in_map_def\<close>)
  show ?thesis
  proof (cases f)
    case (FEstablish d)
    then obtain t where "connectEstablished (sc_conn (conns s ! d)) = Inr t" "s' = set_conn d t ?s"
      using run' by (auto simp: srv_functor_def on_conn_set)
    then show ?thesis using phase_establish [of _ _ _ "pend_in ?q" d l t] ph upd FEstablish by (simp add: functor_conn_def)
  next
    case (FDestroy d)
    then obtain t where "connectDestroyed (sc_conn (conns s ! d)) = Inr t" "s' = set_conn d t ?s"
      using run' by (auto simp: srv_functor_def on_conn_set)
    then show ?thesis using phase_destroy [of _ _ _ "pend_in ?q" d l t] ph upd FDestroy by (simp add: functor_conn_def)
  next
    case (FRemove d)
    let ?x = "conns s ! d"
    let ?q' = "?q(sc_loop ?x := ?q (sc_loop ?x) @ [FDestroy d])"
    have d: "d = ?c" using FRemove by (simp add: functor_conn_def)
    have "removeConnectionInLoop d ?s = Inr s'" using run' FRemove by (simp add: srv_functor_def)
    from removeConnectionInLoop_ok [OF this] c d
    have s': "s' = (set_conn d (sc_conn ?x) s)\<lparr>connections := (connections s)(sc_name ?x := None), queues := ?q'\<rparr>" by (simp add: set_conn_def)
    have "conn_phase (sc_conn ?x) (sc_loop ?x) (in_map s d) (\<lambda>g k. pend_in ?q g k + of_bool (g = FRemove d \<and> k = l)) d"
      using ph unfolding d [symmetric] unfolding FRemove .
    then have "conn_phase (sc_conn ?x) (sc_loop ?x) False (pend_in ?q') d"
      unfolding pend_in_queue by (rule phase_remove [THEN conjunct2])
    then have ph': "conn_phase (sc_conn ?x) (sc_loop ?x) (((connections s)(sc_name ?x := None)) (sc_name ?x) = Some d) (pend_in ?q') d" by simp
    have q': "pend_in ?q' g k = pend_in (queues s) g k" if "functor_conn g \<noteq> d" for g k
      unfolding pend_in_queue using q that d by (auto simp: functor_conn_def)
    have q2': "\<forall>l. \<forall>f \<in> set (?q' l). functor_conn f < length (conns s)"
      by (rule queue_all [OF q2]) (use c d in simp)
    show ?thesis by (rule srv_ok_update [OF ok b _ s' _ q' q2' ph']) (use c d in \<open>simp_all add: fun_upd_def\<close>)
  qed
qed

lemma srv_conn_ok:
  assumes ok: "srv_ok n s" and b: "length (ipPort s) \<le> 51" "length (conns s) < 2 ^ 31"
    and c: "c < length (conns s)" and st: "tc_state (sc_conn (conns s ! c)) \<noteq> kConnecting" and run: "srv_conn_event c e s = Inr s'"
  shows "srv_ok n s'"
proof -
  let ?x = "conns s ! c"
  let ?t = "sc_conn ?x"
  obtain t where t: "tc_exec e ?t = Inr t" and
    fold: "fold_res (\<lambda>_. removeConnection c) (filter ((=) CloseCb) (drop (length (calls ?t)) (calls t))) (set_conn c t s) = Inr s'"
    using run c by (auto simp: srv_conn_event_def bind_res_Inr on_conn_set set_conn_nth)
  have ph: "conn_phase ?t (sc_loop ?x) (in_map s c) (pend_in (queues s)) c" using ok c by (simp add: srv_ok_def conn_ok_def)
  then have life: "life_ok ?t" by (simp add: conn_phase_def)
  note keep = event_keeps [OF life t]
  note pe = phase_event [OF ph t st]
  have fin: "\<forall>l. \<forall>f \<in> set (queues s l). functor_conn f < length (conns s)" using ok by (simp add: srv_ok_def map_ok_def)
  show ?thesis
  proof (cases "closed_conn t \<and> \<not> closed_conn ?t")
    case False
    then have same: "closed_conn t = closed_conn ?t" using keep(3) by blast
    then have "s' = set_conn c t s" using fold new_close_calls(1) [OF life keep(1,2)] by simp
    then have s': "s' = (set_conn c t s)\<lparr>connections := connections s, queues := queues s\<rparr>" by (simp add: set_conn_def)
    show ?thesis
      by (rule srv_ok_update [OF ok b c s' _ _ fin]) (use pe(1) [OF same] in \<open>simp_all add: in_map_def\<close>)
  next
    case True
    then have rem: "removeConnection c (set_conn c t s) = Inr s'" using fold new_close_calls(1) [OF life keep(1,2)] by (simp add: bind_res_def split: sum.splits)
    show ?thesis
    proof (cases "sc_loop ?x = baseLoop")
      case base: True
      let ?q = "(queues s)(sc_loop ?x := queues s (sc_loop ?x) @ [FDestroy c])"
      have "removeConnectionInLoop c (set_conn c t s) = Inr s'" using rem base c by (simp add: removeConnection_def set_conn_nth)
      from removeConnectionInLoop_ok [OF this] c
      have s': "s' = (set_conn c t s)\<lparr>connections := (connections s)(sc_name ?x := None), queues := ?q\<rparr>" by (simp add: set_conn_twice set_conn_nth)
      have "conn_phase t (sc_loop ?x) False (pend_in ?q) c" using pe(4) True by (simp only: pend_in_queue simp_thms)
      then show ?thesis
        by (intro srv_ok_update [OF ok b c s'] queue_all [OF fin]) (use c in \<open>auto simp: pend_in_queue functor_conn_def\<close>)
    next
      case remote: False
      let ?q = "(queues s)(baseLoop := queues s baseLoop @ [FRemove c])"
      have s': "s' = (set_conn c t s)\<lparr>connections := connections s, queues := ?q\<rparr>"
        using rem remote c by (simp add: removeConnection_def set_conn_nth srv_queue_def) (simp add: set_conn_def)
      have "in_map s c" using pe(2) True by blast
      moreover have "conn_phase t (sc_loop ?x) True (pend_in ?q) c" using pe(3) True by (simp only: pend_in_queue simp_thms)
      ultimately show ?thesis
        by (intro srv_ok_update [OF ok b c s'] queue_all [OF fin]) (use c in \<open>auto simp: pend_in_queue functor_conn_def in_map_def\<close>)
    qed
  qed
qed

text \<open>A new connection, with its \<open>connectEstablished\<close> queued.\<close>

lemma new_conn_ok:
  assumes ok: "srv_ok n s" and b: "length (ipPort s) \<le> 51" "Suc (length (conns s)) < 2 ^ 31"
    and nx: "getNextLoop (threadPool s) = Inr (l, p)"
    and s': "s' = srv_queue l (FEstablish (length (conns s))) (s\<lparr>threadPool := p, nextConnId := nextConnId s + 1,
        conns := conns s @ [\<lparr>sc_name = connName s (nextConnId s), sc_loop = l, sc_conn = fresh_conn (writeCompleteSet s) fd\<rparr>],
        connections := (connections s)(connName s (nextConnId s) \<mapsto> length (conns s))\<rparr>)"
  shows "srv_ok n s'"
proof -
  let ?c = "length (conns s)"
  let ?n = "connName s (int ?c + 1)"
  have m: "map_ok s" and p: "pool_ok n s" using ok by (simp_all add: srv_ok_def)
  have id: "nextConnId s = int ?c + 1" using m by (simp add: map_ok_def)
  have fin: "\<forall>l. \<forall>f \<in> set (queues s l). functor_conn f < ?c" using m by (simp add: map_ok_def)
  have name: "connName s' = connName s" by (simp add: s' srv_queue_def connName_def fun_eq_iff)
  have f: "conns s' = conns s @ [\<lparr>sc_name = ?n, sc_loop = l, sc_conn = fresh_conn (writeCompleteSet s) fd\<rparr>]"
    "connections s' = (connections s)(?n \<mapsto> ?c)" "nextConnId s' = int ?c + 2" "threadPool s' = p" "srv_started s' = srv_started s"
    "srv_acceptor s' = srv_acceptor s" "queues s' = (queues s)(l := queues s l @ [FEstablish ?c])"
    by (simp_all add: s' srv_queue_def id)
  have fresh: "sc_name (conns s ! d) \<noteq> ?n" if "d < ?c" for d
  proof
    assume "sc_name (conns s ! d) = ?n"
    then have "connName s (int d + 1) = connName s (int ?c + 1)" using m that by (simp add: map_ok_def)
    then have "int d + 1 = int ?c + 1" by (rule connName_inj [OF b(1), rotated 4]) (use b that in simp_all)
    then show False using that by simp
  qed
  have "map_ok s'"
    using m fin unfolding map_ok_def f name by (auto simp: nth_append less_Suc_eq split: if_splits) metis
  moreover have "pool_ok n s'"
    using p nx unfolding pool_ok_def f
    by (auto simp: getNextLoop_def Let_def nth_append less_Suc_eq mod_Suc res_simps split: if_splits)
       (metis Suc_leI le_antisym mod_less_divisor)
  moreover have "conn_ok s' d" if "d < length (conns s')" for d
  proof (cases "d = ?c")
    case True
    have zero: "count_list (queues s k) g = 0" if "functor_conn g = ?c" for k g
      using fin that by (metis count_list_0_iff less_irrefl)
    have "conn_phase (fresh_conn (writeCompleteSet s) fd) l True (pend_in (queues s')) ?c"
      unfolding f pend_in_queue by (rule phase_new) (auto simp: pend_in_def zero fun_eq_iff)
    then show ?thesis using True by (simp add: conn_ok_def in_map_def f)
  next
    case False
    then have d: "d < ?c" using that by (simp add: f)
    then have "conn_ok s d" using ok by (simp add: srv_ok_def)
    moreover have "in_map s' d = in_map s d" using d fresh [OF d] by (simp add: in_map_def f nth_append)
    moreover have "pend_in (queues s') g k = pend_in (queues s) g k" if "functor_conn g = d" for g k
      unfolding f pend_in_queue using that False by auto
    ultimately show ?thesis using d conn_phase_cong by (simp add: conn_ok_def f nth_append)
  qed
  ultimately show ?thesis by (simp add: srv_ok_def)
qed

lemma newConnection_ok:
  assumes ok: "srv_ok n s" and b: "length (ipPort s) \<le> 51" "Suc (length (conns s)) < 2 ^ 31" and run: "newConnection fd s = Inr s'"
  shows "srv_ok n s'"
proof -
  let ?c = "length (conns s)"
  obtain l p where nx: "getNextLoop (threadPool s) = Inr (l, p)" using run by (cases "getNextLoop (threadPool s)") (auto simp: newConnection_def)
  let ?s1 = "s\<lparr>threadPool := p, nextConnId := nextConnId s + 1,
        conns := conns s @ [\<lparr>sc_name = connName s (nextConnId s), sc_loop = l, sc_conn = fresh_conn (writeCompleteSet s) fd\<rparr>],
        connections := (connections s)(connName s (nextConnId s) \<mapsto> ?c)\<rparr>"
  let ?s2 = "srv_queue l (FEstablish ?c) ?s1"
  have ok2: "srv_ok n ?s2" by (rule new_conn_ok [OF ok b nx refl])
  show ?thesis
  proof (cases "l = baseLoop")
    case False
    then show ?thesis using ok2 run nx by (simp add: newConnection_def Let_def)
  next
    case True
    then obtain t where t: "connectEstablished (sc_conn (conns ?s1 ! ?c)) = Inr t" "s' = set_conn ?c t ?s1"
      using run nx by (auto simp: newConnection_def Let_def on_conn_set)
    have s': "s' = (set_conn ?c t ?s2)\<lparr>connections := connections ?s2, queues := queues s\<rparr>"
      using t(2) by (simp add: set_conn_def srv_queue_def)
    have c2: "?c < length (conns ?s2)" by (simp add: srv_queue_def)
    have "conn_phase (sc_conn (conns ?s2 ! ?c)) (sc_loop (conns ?s2 ! ?c)) (in_map ?s2 ?c) (pend_in (queues ?s2)) ?c"
      using ok2 c2 by (simp only: srv_ok_def conn_ok_def)
    then have "conn_phase (sc_conn (conns ?s1 ! ?c)) (sc_loop (conns ?s2 ! ?c)) (in_map ?s2 ?c) (\<lambda>g k. pend_in (queues s) g k + of_bool (g = FEstablish ?c \<and> k = l)) ?c"
      using pend_in_queue [of "queues s" l "FEstablish ?c"] by (simp add: srv_queue_def)
    from phase_establish [OF this t(1)]
    have ph: "conn_phase t (sc_loop (conns ?s2 ! ?c)) (connections ?s2 (sc_name (conns ?s2 ! ?c)) = Some ?c) (pend_in (queues s)) ?c"
      by (simp only: in_map_def)
    have q: "pend_in (queues s) g k = pend_in (queues ?s2) g k" if "functor_conn g \<noteq> ?c" for g k
      using pend_in_queue [of "queues s" l "FEstablish ?c"] that by (auto simp: srv_queue_def)
    have fin: "\<forall>l. \<forall>f \<in> set (queues s l). functor_conn f < length (conns ?s2)"
      using ok by (auto simp: srv_ok_def map_ok_def srv_queue_def less_Suc_eq)
    show ?thesis by (rule srv_ok_update [OF ok2 _ _ c2 s' _ q fin ph]) (use b in \<open>simp_all add: srv_queue_def fun_upd_def\<close>)
  qed
qed

lemma lp_spawned:
  assumes "fold_res (lp_spawn num created) [0..<k] p = Inr p'" and "loops p = []"
  shows "loops p' = map Suc [0..<k] \<and> next_loop p' = next_loop p \<and> numThreads p' = numThreads p \<and> lp_started p' = lp_started p"
  using assms
proof (induction k arbitrary: p')
  case (Suc k)
  then obtain q where q: "fold_res (lp_spawn num created) [0..<k] p = Inr q" "lp_spawn num created k q = Inr p'"
    by (auto simp: fold_res_append bind_res_def split: sum.splits)
  then show ?case using Suc.IH [OF q(1) Suc.prems(2)]
    by (auto simp: lp_spawn_def startLoop_def lt_threadFunc_def Let_def res_simps new_EventLoopThread_def)
qed simp

lemma srv_start_ok:
  assumes ok: "srv_ok n s" and run: "srv_start num created s = Inr s'"
  shows "srv_ok n s' \<and> conns s' = conns s \<and> ipPort s' = ipPort s"
proof (cases "srv_started s")
  case True
  then show ?thesis using ok run by (simp add: srv_start_def)
next
  case False
  then obtain p where p: "lp_start num created (threadPool s) = Inr p"
    and s': "s' = s\<lparr>srv_started := True, threadPool := p, srv_acceptor := acc_listen (srv_acceptor s)\<rparr>"
    using run by (auto simp: srv_start_def res_simps)
  then have st: "\<not> lp_started (threadPool s)" by (simp add: lp_start_def res_simps)
  then have z: "conns s = []" "loops (threadPool s) = []" "next_loop (threadPool s) = 0" "numThreads (threadPool s) = n"
    using ok by (auto simp: srv_ok_def pool_ok_def)
  have "loops p = map Suc [0..<n] \<and> next_loop p = 0 \<and> numThreads p = n \<and> lp_started p"
    using lp_spawned [of num created n "(threadPool s)\<lparr>lp_started := True\<rparr>" p] p st z by (simp add: lp_start_def)
  then show ?thesis using ok z by (simp add: s' srv_ok_def map_ok_def pool_ok_def connName_def)
qed

section \<open>Every connection is found by its name until it has closed\<close>

lemma on_conn_frame: "on_conn c f s = Inr s' \<Longrightarrow> length (conns s') = length (conns s) \<and> ipPort s' = ipPort s"
  by (auto simp: on_conn_set)

lemma remove_frame:
  "removeConnectionInLoop c s = Inr s' \<Longrightarrow> length (conns s') = length (conns s) \<and> ipPort s' = ipPort s"
  "removeConnection c s = Inr s' \<Longrightarrow> length (conns s') = length (conns s) \<and> ipPort s' = ipPort s"
  by (auto simp: removeConnection_def removeConnectionInLoop_def srv_queue_def Let_def res_simps split: if_splits)

lemma newConnection_frame:
  assumes "newConnection fd s = Inr s'"
  shows "length (conns s') = Suc (length (conns s)) \<and> ipPort s' = ipPort s"
proof (cases "getNextLoop (threadPool s)")
  case (Inr x)
  then obtain l p where "getNextLoop (threadPool s) = Inr (l, p)" by (cases x) simp
  then show ?thesis using assms
    by (cases "l = baseLoop") (auto simp: newConnection_def Let_def srv_queue_def on_conn_set)
qed (use assms in \<open>simp add: newConnection_def\<close>)

lemma srv_exec_frame:
  assumes "srv_exec e s = Inr s'"
  shows "length (conns s) \<le> length (conns s') \<and> ipPort s' = ipPort s"
proof (cases e)
  case (SConn c ev)
  have "length (conns t') = length (conns t) \<and> ipPort t' = ipPort t" if "fold_res (\<lambda>_. removeConnection c) xs t = Inr t'" for xs :: "conn_call list" and t t'
    by (rule fold_res_inv [where P = "\<lambda>t'. length (conns t') = length (conns t) \<and> ipPort t' = ipPort t", OF _ that])
       (auto dest: remove_frame(2))
  note rem = this
  show ?thesis
  proof (cases "srv_exec e s = srv_conn_event c ev s")
    case True
    then have "srv_conn_event c ev s = Inr s'" using assms by simp
    then obtain u where u: "on_conn c (tc_exec ev) s = Inr u"
      "fold_res (\<lambda>_. removeConnection c) (filter ((=) CloseCb) (drop (length (calls (sc_conn (conns s ! c)))) (calls (sc_conn (conns u ! c))))) u = Inr s'"
      unfolding srv_conn_event_def bind_res_Inr by blast
    show ?thesis using rem [OF u(2)] on_conn_frame [OF u(1)] by simp
  next
    case False
    then show ?thesis using assms SConn by (simp add: srv_exec_def split: if_splits)
  qed
next
  case (SRun l)
  then show ?thesis using assms
    by (auto simp: srv_exec_def srv_functor_def dest: on_conn_frame remove_frame(1) split: list.splits functor_call.splits)
next
  case (SAccept r refused reopened)
  then show ?thesis using assms
    by (auto simp: srv_exec_def dest!: newConnection_frame split: if_splits prod.splits option.splits)
next
  case (SStart num created)
  then show ?thesis using assms by (auto simp: srv_exec_def srv_start_def res_simps split: if_splits)
next
  case SSetWriteComplete
  then show ?thesis using assms by (auto simp: srv_exec_def srv_setWriteCompleteCallback_def)
qed

lemma setWriteComplete_ok:
  assumes "srv_ok n s"
  shows "srv_ok n (srv_setWriteCompleteCallback s)"
proof -
  let ?s = "srv_setWriteCompleteCallback s"
  have "map_ok ?s = map_ok s" "pool_ok n ?s = pool_ok n s" "length (conns ?s) = length (conns s)"
    by (simp_all add: map_ok_def pool_ok_def connName_def srv_setWriteCompleteCallback_def)
  moreover have "conn_ok ?s c = conn_ok s c" for c by (simp add: conn_ok_def in_map_def srv_setWriteCompleteCallback_def)
  ultimately show ?thesis using assms by (simp add: srv_ok_def)
qed

lemma srv_exec_ok:
  assumes ok: "srv_ok n s" and b: "length (ipPort s) \<le> 51" "length (conns s') < 2 ^ 31" and run: "srv_exec e s = Inr s'"
  shows "srv_ok n s'"
proof (cases e)
  case (SStart num created)
  then show ?thesis using srv_start_ok [OF ok] run by (simp add: srv_exec_def)
next
  case SSetWriteComplete
  then show ?thesis using setWriteComplete_ok [OF ok] run by (auto simp: srv_exec_def)
next
  case (SConn c ev)
  have len: "length (conns s) < 2 ^ 31" using b(2) srv_exec_frame [OF run] by simp
  show ?thesis
  proof (cases "c < length (conns s) \<and> tc_state (sc_conn (conns s ! c)) \<noteq> kConnecting \<and> ev \<noteq> Established \<and> ev \<noteq> Destroyed")
    case True
    then have "srv_conn_event c ev s = Inr s'" using run SConn by (simp add: srv_exec_def)
    then show ?thesis using True by (intro srv_conn_ok [OF ok b(1) len]) simp_all
  next
    case False
    then have "s' = s" using run SConn by (simp add: srv_exec_def split: if_splits)
    then show ?thesis using ok by simp
  qed
next
  case (SRun l)
  then show ?thesis using srv_run_ok [OF ok b(1)] b(2) srv_exec_frame [OF run] run by simp
next
  case (SAccept r refused reopened)
  show ?thesis
  proof (cases "listenning (srv_acceptor s)")
    case False
    then show ?thesis using ok run SAccept by (simp add: srv_exec_def)
  next
    case True
    obtain fd cl a where a: "acc_handleRead r refused reopened (srv_acceptor s) = (fd, cl, a)" by (rule prod_cases3)
    let ?s = "s\<lparr>srv_acceptor := a\<rparr>"
    have "listenning a = listenning (srv_acceptor s)" using a by (auto simp: acc_handleRead_def split: sum.splits if_splits)
    moreover have "map_ok ?s = map_ok s" by (simp add: map_ok_def connName_def)
    moreover have "conn_ok ?s c = conn_ok s c" for c by (simp add: conn_ok_def in_map_def)
    ultimately have ok': "srv_ok n ?s" using ok by (simp add: srv_ok_def pool_ok_def)
    show ?thesis
    proof (cases fd)
      case None
      then show ?thesis using ok' run SAccept True a by (simp add: srv_exec_def)
    next
      case (Some f)
      then have new: "newConnection f ?s = Inr s'" using run SAccept True a by (simp add: srv_exec_def)
      have "length (conns s') = Suc (length (conns s))" using newConnection_frame [OF new] by simp
      then show ?thesis using newConnection_ok [OF ok' _ _ new] b by simp
    qed
  qed
qed

lemma srv_run_all:
  "fold_res srv_exec es s = Inr t \<Longrightarrow> srv_ok n s \<Longrightarrow> length (ipPort s) \<le> 51 \<Longrightarrow> length (conns t) < 2 ^ 31 \<Longrightarrow> srv_ok n t"
proof (induction es arbitrary: s)
  case (Cons e es)
  then obtain u where u: "srv_exec e s = Inr u" "fold_res srv_exec es u = Inr t" by (auto simp: bind_res_Inr)
  have "length (conns u) \<le> length (conns t)"
    by (rule fold_res_inv [where P = "\<lambda>t. length (conns u) \<le> length (conns t)", OF _ u(2)]) (auto dest: srv_exec_frame intro: order_trans)
  then have "srv_ok n u" using srv_exec_ok [OF Cons.prems(2,3) _ u(1)] Cons.prems(4) by simp
  then show ?case using Cons.IH [OF u(2)] Cons.prems srv_exec_frame [OF u(1)] by simp
qed simp

lemma new_server_ok:
  assumes "new_TcpServer sockfd idle addr name = Inr s0" and "setThreadNum n s0 = Inr s1"
  shows "srv_ok (nat n) s1 \<and> ipPort s1 = addr \<and> 0 \<le> n"
  using assms
  by (auto simp: new_TcpServer_def setThreadNum_def res_simps srv_ok_def map_ok_def pool_ok_def new_EventLoopThreadPool_def new_Acceptor_def
      acc_setNewConnectionCallback_def)

text \<open>
  (C99) However the acceptor's loop, the connection loops, the users of the connections and the peers interleave:
  connection names are unique; the loops are dealt out in turn; the map finds every connection by its name
  at least until its close callback, and exactly until its removal runs, so that the removal finds its entry and
  happens once; it is destroyed only after it has left the map, and established before anything else.
  The address text has at most 51 characters and fewer than \<open>2 ^ 31\<close> connections are made.
\<close>

theorem tcp_server_connections:
  assumes "new_TcpServer sockfd idle addr name = Inr s0" and "setThreadNum n s0 = Inr s1" and "fold_res srv_exec es s1 = Inr s"
    and "length addr \<le> 51" and "length (conns s) < 2 ^ 31"
  shows "distinct (map sc_name (conns s))
    \<and> (\<forall>m c. connections s m = Some c \<longrightarrow> c < length (conns s) \<and> sc_name (conns s ! c) = m)
    \<and> (\<forall>c < length (conns s). sc_loop (conns s ! c) = (if n = 0 then baseLoop else Suc (c mod nat n))
      \<and> (\<not> closed_conn (sc_conn (conns s ! c)) \<longrightarrow> in_map s c)
      \<and> count_list (queues s baseLoop) (FRemove c) = of_bool (closed_conn (sc_conn (conns s ! c)) \<and> in_map s c)
      \<and> count_list (queues s (sc_loop (conns s ! c))) (FDestroy c) \<le> of_bool (\<not> in_map s c)
      \<and> count_list (queues s (sc_loop (conns s ! c))) (FEstablish c) = of_bool (tc_state (sc_conn (conns s ! c)) = kConnecting))"
proof -
  note new = new_server_ok [OF assms(1,2)]
  then have ok: "srv_ok (nat n) s" using srv_run_all [OF assms(3)] assms(4,5) by simp
  have ip: "ipPort s = addr"
    by (rule fold_res_inv [where P = "\<lambda>s. ipPort s = addr", OF _ assms(3)]) (use new srv_exec_frame in auto)
  have "inj_on (\<lambda>c. sc_name (conns s ! c)) {..<length (conns s)}"
    using in_map_unique [of s] ok assms(4,5) ip by (auto simp: inj_on_def srv_ok_def)
  then have "distinct (map sc_name (conns s))"
    by (auto simp: distinct_conv_nth inj_on_def)
  moreover have "\<forall>m c. connections s m = Some c \<longrightarrow> c < length (conns s) \<and> sc_name (conns s ! c) = m"
    using ok unfolding srv_ok_def map_ok_def by blast
  moreover have "sc_loop (conns s ! c) = (if n = 0 then baseLoop else Suc (c mod nat n))" if "c < length (conns s)" for c
    using ok that new by (simp add: srv_ok_def pool_ok_def)
  moreover have "(\<not> closed_conn (sc_conn (conns s ! c)) \<longrightarrow> in_map s c)
      \<and> count_list (queues s baseLoop) (FRemove c) = of_bool (closed_conn (sc_conn (conns s ! c)) \<and> in_map s c)
      \<and> count_list (queues s (sc_loop (conns s ! c))) (FDestroy c) \<le> of_bool (\<not> in_map s c)
      \<and> count_list (queues s (sc_loop (conns s ! c))) (FEstablish c) = of_bool (tc_state (sc_conn (conns s ! c)) = kConnecting)"
    if "c < length (conns s)" for c
  proof -
    have ph: "conn_phase (sc_conn (conns s ! c)) (sc_loop (conns s ! c)) (in_map s c) (pend_in (queues s)) c"
      using ok that by (simp add: srv_ok_def conn_ok_def)
    have "\<not> closed_conn (sc_conn (conns s ! c)) \<longrightarrow> in_map s c" using ph by (simp add: conn_phase_def)
    with conn_phaseD(2) [OF ph, of baseLoop] conn_phaseD(1,3) [OF ph, of "sc_loop (conns s ! c)"]
    show ?thesis by (simp add: pend_in_def)
  qed
  ultimately show ?thesis by blast
qed

lemmas srv_eval = srv_exec_def srv_start_def lp_start_def lp_spawn_def startLoop_def lt_threadFunc_def new_EventLoopThread_def
  thread_start_def new_Thread_def acc_listen_def acc_handleRead_def newConnection_def getNextLoop_def srv_queue_def srv_functor_def
  on_conn_def srv_conn_event_def removeConnection_def removeConnectionInLoop_def new_TcpServer_def new_Acceptor_def
  new_EventLoopThreadPool_def setThreadNum_def baseLoop_def acc_setNewConnectionCallback_def

lemma ex_established: "\<exists>t. connectEstablished (fresh_conn w 7) = Inr t \<and> tc_state t = kConnected \<and> calls t = [ConnectionCb True]"
  by (simp add: connectEstablished_def fresh_conn_def new_TcpConnection_def setWriteCompleteCallback_def Let_def tc_update_def tc_log_def)

theorem tcp_server_connections_witness:
  "\<exists>s0 s1 s. new_TcpServer 3 4 ''10.0.0.1:80'' ''web'' = Inr s0 \<and> setThreadNum 2 s0 = Inr s1
     \<and> fold_res srv_exec [SStart 0 (\<lambda>_. True), SAccept (Inr 7) 0 0, SAccept (Inr 8) 0 0, SRun 1] s1 = Inr s
     \<and> length (conns s) = 2 \<and> distinct (map sc_name (conns s)) \<and> sc_loop (conns s ! 1) = 2 \<and> tc_state (sc_conn (conns s ! 0)) = kConnected"
proof -
  let ?es = "[SStart 0 (\<lambda>_. True), SAccept (Inr 7) 0 0, SAccept (Inr 8) 0 0, SRun 1]"
  obtain t where t: "connectEstablished (fresh_conn False 7) = Inr t" "tc_state t = kConnected"
    using ex_established by blast
  have u: "[0..<2] = [0, Suc 0]" by (simp add: upt_rec)
  have "\<exists>s0 s1 s. new_TcpServer 3 4 ''10.0.0.1:80'' ''web'' = Inr s0 \<and> setThreadNum 2 s0 = Inr s1
    \<and> fold_res srv_exec ?es s1 = Inr s \<and> length (conns s) = 2 \<and> tc_state (sc_conn (conns s ! 0)) = kConnected"
    by (simp add: srv_eval t u Let_def)
  then obtain s0 s1 s where s: "new_TcpServer 3 4 ''10.0.0.1:80'' ''web'' = Inr s0" "setThreadNum 2 s0 = Inr s1"
    "fold_res srv_exec ?es s1 = Inr s" "length (conns s) = 2" "tc_state (sc_conn (conns s ! 0)) = kConnected" by blast
  from tcp_server_connections [OF s(1-3)] s show ?thesis
    by (intro exI [of _ s0] exI [of _ s1] exI [of _ s]) simp
qed

text \<open>
  Reading can be switched on again after the connection has closed, since \<open>startReadInLoop\<close> does not look at
  the state; the pending \<open>connectDestroyed\<close> then fails the assertion of \<open>Channel::remove\<close>.
\<close>

lemma start_read_after_close:
  "fold_res tc_exec [Established, StopRead, ForceClose, RunForceClose, StartRead, Destroyed] (new_TcpConnection fd) = Inl AssertFailed"
  by (simp add: tc_exec_def connectEstablished_def new_TcpConnection_def Let_def tc_update_def tc_log_def stopReadInLoop_def forceClose_def
      forceCloseInLoop_def tc_handleClose_def startReadInLoop_def connectDestroyed_def tc_remove_def isNoneEvent_def kReadEvent_def kNoneEvent_def poll_masks)

end
