(* ===== verification/Tcp_Client.thy ===== *)
theory Tcp_Client
  imports Tcp_Server Connectors
begin

text \<open>
  \<^verbatim>\<open>src/mynetlib/net/TcpClient.cc\<close>: a client, over its \<open>Connector\<close> and its connections. All of it runs in
  the client's loop, so \<open>runInLoop\<close> calls directly and only \<open>queueInLoop\<close> defers; the answers of the kernel
  for a new socket accompany the events that may open one.
\<close>

section \<open>The client\<close>

record tcp_client =
  cl_name :: string
  cl_connector :: connector
  retry_flag :: bool
  cl_connect :: bool
  cl_writeComplete :: bool
  cl_nextConnId :: int
  connection :: "nat option"
  cl_conns :: "(string \<times> tcp_conn) list"   \<comment> \<open>every connection object, with its name\<close>
  cl_destroys :: "nat list"                 \<comment> \<open>queued \<open>connectDestroyed\<close>\<close>

definition new_TcpClient :: "string \<Rightarrow> tcp_client" where
  "new_TcpClient n = \<lparr>cl_name = n, cl_connector = new_Connector, retry_flag = False, cl_connect = True, cl_writeComplete = False, cl_nextConnId = 1,
     connection = None, cl_conns = [], cl_destroys = []\<rparr>"

definition enableRetry :: "tcp_client \<Rightarrow> tcp_client" where
  "enableRetry s = s\<lparr>retry_flag := True\<rparr>"

definition cl_setWriteCompleteCallback :: "tcp_client \<Rightarrow> tcp_client" where
  "cl_setWriteCompleteCallback s = s\<lparr>cl_writeComplete := True\<rparr>"

text \<open>\<open>peer\<close> is the text of the peer's address; the buffer holds 32 bytes.\<close>

definition cl_connName :: "string \<Rightarrow> tcp_client \<Rightarrow> string" where
  "cl_connName peer s = cl_name s @ take 31 ('':'' @ peer @ ''#'' @ dec_int (cl_nextConnId s))"

definition cl_newConnection :: "string \<Rightarrow> int \<Rightarrow> tcp_client \<Rightarrow> tcp_client res" where
  "cl_newConnection peer sockfd s =
     bind_res (connectEstablished (fresh_conn (cl_writeComplete s) sockfd)) (\<lambda>t.
       Inr (s\<lparr>cl_nextConnId := cl_nextConnId s + 1, connection := Some (length (cl_conns s)),
              cl_conns := cl_conns s @ [(cl_connName peer s, t)]\<rparr>))"

definition connector_do :: "(connector \<Rightarrow> connector res) \<Rightarrow> tcp_client \<Rightarrow> tcp_client res" where
  "connector_do f s = bind_res (f (cl_connector s)) (\<lambda>cn. Inr (s\<lparr>cl_connector := cn\<rparr>))"

definition cl_start :: "int \<Rightarrow> int \<Rightarrow> tcp_client \<Rightarrow> tcp_client res" where
  "cl_start sockfd err s = connector_do (start sockfd err) (s\<lparr>cl_connect := True\<rparr>)"

definition conn_do :: "nat \<Rightarrow> (tcp_conn \<Rightarrow> tcp_conn res) \<Rightarrow> tcp_client \<Rightarrow> tcp_client res" where
  "conn_do c f s =
     bind_res (f (snd (cl_conns s ! c))) (\<lambda>t. Inr (s\<lparr>cl_conns := (cl_conns s)[c := (fst (cl_conns s ! c), t)]\<rparr>))"

definition cl_disconnect :: "tcp_client \<Rightarrow> tcp_client res" where
  "cl_disconnect s =
     (let s = s\<lparr>cl_connect := False\<rparr>
      in case connection s of Some c \<Rightarrow> conn_do c (\<lambda>t. Inr (shutdown t)) s | None \<Rightarrow> Inr s)"

definition cl_stop :: "tcp_client \<Rightarrow> tcp_client res" where
  "cl_stop s = connector_do (\<lambda>cn. Inr (stop cn)) (s\<lparr>cl_connect := False\<rparr>)"

definition cl_removeConnection :: "int \<Rightarrow> int \<Rightarrow> nat \<Rightarrow> tcp_client \<Rightarrow> tcp_client res" where
  "cl_removeConnection sockfd err c s =
     assert_res (connection s = Some c)
       (let s = s\<lparr>connection := None, cl_destroys := cl_destroys s @ [c]\<rparr>
        in if retry_flag s \<and> cl_connect s then connector_do (restart_connector sockfd err) s else Inr s)"

text \<open>
  The destructor: a connection that nobody else holds is closed by force, and its close callback from then on
  only queues \<open>connectDestroyed\<close>; without a connection the connector is stopped.
\<close>

definition destroy_TcpClient :: "bool \<Rightarrow> tcp_client \<Rightarrow> tcp_client res" where
  "destroy_TcpClient unique s =
     (case connection s of
        Some c \<Rightarrow> if unique then conn_do c (\<lambda>t. Inr (forceClose t)) s else Inr s
      | None \<Rightarrow> connector_do (\<lambda>cn. Inr (stop cn)) s)"

section \<open>Events\<close>

text \<open>A socket the connector hands over becomes a connection.\<close>

definition cl_connector_event :: "string \<Rightarrow> cn_event \<Rightarrow> tcp_client \<Rightarrow> tcp_client res" where
  "cl_connector_event peer e s =
     bind_res (connector_do (cn_exec e) s) (\<lambda>s'.
       fold_res (cl_newConnection peer) (drop (length (handed (cl_connector s))) (handed (cl_connector s'))) s')"

definition cl_conn_event :: "int \<Rightarrow> int \<Rightarrow> nat \<Rightarrow> tc_event \<Rightarrow> tcp_client \<Rightarrow> tcp_client res" where
  "cl_conn_event sockfd err c e s =
     bind_res (conn_do c (tc_exec e) s) (\<lambda>s'.
       fold_res (\<lambda>_. cl_removeConnection sockfd err c)
         (filter ((=) CloseCb) (drop (length (calls (snd (cl_conns s ! c)))) (calls (snd (cl_conns s' ! c))))) s')"

datatype client_event = CConnect int int | CDisconnect | CStop | CEnableRetry | CSetWriteComplete | CConnector string cn_event
  | CConn int int nat tc_event | CRunDestroy

definition connector_event :: "cn_event \<Rightarrow> bool" where
  "connector_event e = (case e of Start _ _ \<Rightarrow> False | Restart _ _ \<Rightarrow> False | Stop \<Rightarrow> False | _ \<Rightarrow> True)"

definition cl_exec :: "client_event \<Rightarrow> tcp_client \<Rightarrow> tcp_client res" where
  "cl_exec e s = (case e of
       CConnect fd err \<Rightarrow> cl_start fd err s
     | CDisconnect \<Rightarrow> cl_disconnect s
     | CStop \<Rightarrow> cl_stop s
     | CEnableRetry \<Rightarrow> Inr (enableRetry s)
     | CSetWriteComplete \<Rightarrow> Inr (cl_setWriteCompleteCallback s)
     | CConnector peer ev \<Rightarrow> if connector_event ev then cl_connector_event peer ev s else Inr s
     | CConn fd err c ev \<Rightarrow> if c < length (cl_conns s) \<and> ev \<noteq> Established \<and> ev \<noteq> Destroyed then cl_conn_event fd err c ev s else Inr s
     | CRunDestroy \<Rightarrow> (case cl_destroys s of [] \<Rightarrow> Inr s | c # cs \<Rightarrow> conn_do c connectDestroyed (s\<lparr>cl_destroys := cs\<rparr>)))"

section \<open>At most one live connection\<close>

definition client_conn_ok :: "nat option \<Rightarrow> nat \<Rightarrow> tcp_conn \<Rightarrow> bool" where
  "client_conn_ok cur c t \<longleftrightarrow> life_ok t \<and> tc_state t \<noteq> Tcp_Connection.kConnecting \<and> (closed_conn t \<longleftrightarrow> cur \<noteq> Some c)"

definition cl_ok :: "tcp_client \<Rightarrow> bool" where
  "cl_ok s \<longleftrightarrow> cn_inv (cl_connector s) \<and> length (cl_conns s) = length (handed (cl_connector s))
     \<and> (connection s \<noteq> None \<longrightarrow> state (cl_connector s) = Connectors.kConnected)
     \<and> (\<forall>c. connection s = Some c \<longrightarrow> Suc c = length (cl_conns s))
     \<and> (\<forall>c < length (cl_conns s). client_conn_ok (connection s) c (snd (cl_conns s ! c)))
     \<and> (\<forall>c \<in> set (cl_destroys s). c < length (cl_conns s) \<and> connection s \<noteq> Some c)"

text \<open>The connector hands over at most one socket at a time, and only when it is connecting.\<close>

definition hands :: "connector \<Rightarrow> connector \<Rightarrow> bool" where
  "hands s s' \<longleftrightarrow> handed s' = handed s \<and> (state s = Connectors.kConnected \<longrightarrow> state s' = Connectors.kConnected)
     \<or> (\<exists>fd. handed s' = handed s @ [fd]) \<and> state s = Connectors.kConnecting \<and> state s' = Connectors.kConnected"

lemma retry_hands: "handed (retry fd s) = handed s"
  by (simp add: retry_def setState_def cn_close_def Let_def)

lemma connect_hands: "connect fd err s = Inr s' \<Longrightarrow> handed s' = handed s"
  by (auto simp: connect_def connecting_def cn_close_def setState_def retry_hands Let_def res_simps split: if_splits)

lemma startInLoop_hands: "startInLoop fd err s = Inr s' \<Longrightarrow> handed s' = handed s \<and> state s = Connectors.kDisconnected"
  by (auto simp: startInLoop_def res_simps dest: connect_hands split: if_splits)

lemma handleWrite_hands: "handleWrite err self s = Inr s' \<Longrightarrow> state s \<noteq> Connectors.kConnected \<Longrightarrow> hands s s'"
  by (auto simp: handleWrite_def removeAndResetChannel_def hands_def retry_hands cn_close_def setState_def Let_def assert_res_Inr split: if_splits option.splits)

lemma handleError_hands: "handleError s = Inr s' \<Longrightarrow> handed s' = handed s \<and> (state s \<noteq> Connectors.kConnected \<longrightarrow> state s' \<noteq> Connectors.kConnected)"
  by (auto simp: handleError_def removeAndResetChannel_def retry_def setState_def cn_close_def Let_def split: if_splits option.splits)

lemma watched_connecting: "cn_inv s \<Longrightarrow> watched s \<Longrightarrow> state s = Connectors.kConnecting"
  by (auto simp: cn_inv_def idle_channel_def split: if_splits)

lemma connector_hands:
  assumes inv: "cn_inv s" and ev: "connector_event e" and run: "cn_exec e s = Inr s'"
  shows "hands s s'"
proof (cases e)
  case RunStop
  then show ?thesis using run
    by (auto simp: cn_exec_def stopInLoop_def removeAndResetChannel_def hands_def retry_hands setState_def bind_res_Inr split: if_splits option.splits)
next
  case (Timer fd err)
  then show ?thesis using run by (auto simp: cn_exec_def hands_def dest: startInLoop_hands split: if_splits)
next
  case (Writable err self)
  then show ?thesis using run watched_connecting [OF inv] handleWrite_hands [of err self s s']
    by (auto simp: cn_exec_def hands_def split: if_splits)
next
  case Errored
  then show ?thesis using run watched_connecting [OF inv] handleError_hands [of s s'] by (auto simp: cn_exec_def hands_def split: if_splits)
next
  case (ErroredWritable err self)
  show ?thesis
  proof (cases "watched s")
    case True
    then have st: "state s = Connectors.kConnecting" by (rule watched_connecting [OF inv])
    from True run ErroredWritable obtain t where t: "handleError s = Inr t" "handleWrite err self t = Inr s'"
      by (auto simp: cn_exec_def bind_res_Inr)
    have "hands t s'" "handed t = handed s" using handleWrite_hands [OF t(2)] handleError_hands [OF t(1)] st by simp_all
    then show ?thesis using st by (auto simp: hands_def)
  next
    case False
    then show ?thesis using run ErroredWritable by (simp add: cn_exec_def hands_def)
  qed
qed (use ev run in \<open>auto simp: connector_event_def cn_exec_def hands_def resetChannel_def split: if_splits\<close>)

text \<open>Changes of one connection, and of the connector alone.\<close>

lemma cl_ok_conn:
  assumes ok: "cl_ok s" and c: "c < length (cl_conns s)" and t: "client_conn_ok (connection s) c t"
  shows "cl_ok (s\<lparr>cl_conns := (cl_conns s)[c := (n, t)]\<rparr>)"
proof -
  have "client_conn_ok (connection s) d (snd ((cl_conns s)[c := (n, t)] ! d))" if "d < length (cl_conns s)" for d
    using ok t that by (cases "d = c") (simp_all add: cl_ok_def)
  then show ?thesis using ok by (auto simp: cl_ok_def)
qed

lemma cl_ok_connector:
  assumes "cl_ok s" and "cn_inv cn" and "handed cn = handed (cl_connector s)" and "connection s \<noteq> None \<longrightarrow> state cn = Connectors.kConnected"
  shows "cl_ok (s\<lparr>cl_connector := cn\<rparr>)"
  using assms by (auto simp: cl_ok_def)

lemma client_conn_event:
  assumes "client_conn_ok cur c t" and "tc_exec e t = Inr t'"
  shows "closed_conn t' = closed_conn t \<Longrightarrow> client_conn_ok cur c t'"
    and "closed_conn t' \<Longrightarrow> \<not> closed_conn t \<Longrightarrow> cur = Some c \<and> client_conn_ok None c t'"
  using assms event_keeps [of t e t'] by (auto simp: client_conn_ok_def)

lemma removal_ok:
  assumes ok: "cl_ok s" and cur: "connection s = Some c" and closed: "client_conn_ok None c t"
    and run: "cl_removeConnection fd err c (s\<lparr>cl_conns := (cl_conns s)[c := (n, t)]\<rparr>) = Inr s'"
  shows "cl_ok s'"
proof -
  let ?s = "s\<lparr>cl_conns := (cl_conns s)[c := (n, t)], connection := None, cl_destroys := cl_destroys s @ [c]\<rparr>"
  have len: "Suc c = length (cl_conns s)" "state (cl_connector s) = Connectors.kConnected" "cn_inv (cl_connector s)"
    using ok cur by (auto simp: cl_ok_def)
  have "client_conn_ok None d (snd ((cl_conns s)[c := (n, t)] ! d))" if "d < length (cl_conns s)" for d
  proof (cases "d = c")
    case True
    then show ?thesis using closed that by simp
  next
    case False
    then have "client_conn_ok (connection s) d (snd (cl_conns s ! d))" using ok that by (simp add: cl_ok_def)
    then show ?thesis using False cur by (simp add: client_conn_ok_def)
  qed
  then have ok': "cl_ok ?s" using ok len by (auto simp: cl_ok_def)
  show ?thesis
  proof (cases "retry_flag s \<and> cl_connect s")
    case False
    then show ?thesis using run ok' cur by (auto simp: cl_removeConnection_def Let_def)
  next
    case True
    then obtain cn where cn: "restart_connector fd err (cl_connector s) = Inr cn" "s' = ?s\<lparr>cl_connector := cn\<rparr>"
      using run cur by (auto simp: cl_removeConnection_def connector_do_def Let_def bind_res_Inr)
    have "cn_inv cn" using cn_exec_inv [OF len(3), of "Restart fd err" cn] cn(1) len(2) by (simp add: cn_exec_def)
    moreover have "handed cn = handed (cl_connector s)"
      using startInLoop_hands cn(1) by (fastforce simp: restart_connector_def setState_def)
    ultimately show ?thesis using cl_ok_connector [OF ok'] cn(2) by simp
  qed
qed

lemma cl_conn_event_ok:
  assumes ok: "cl_ok s" and c: "c < length (cl_conns s)" and run: "cl_conn_event fd err c e s = Inr s'"
  shows "cl_ok s'"
proof -
  let ?t = "snd (cl_conns s ! c)"
  obtain t where t: "tc_exec e ?t = Inr t" and
    fold: "fold_res (\<lambda>_. cl_removeConnection fd err c) (filter ((=) CloseCb) (drop (length (calls ?t)) (calls t)))
      (s\<lparr>cl_conns := (cl_conns s)[c := (fst (cl_conns s ! c), t)]\<rparr>) = Inr s'"
    using run c by (auto simp: cl_conn_event_def conn_do_def bind_res_Inr)
  have co: "client_conn_ok (connection s) c ?t" using ok c by (simp add: cl_ok_def)
  then have life: "life_ok ?t" by (simp add: client_conn_ok_def)
  note keep = event_keeps [OF life t]
  note new = new_close_calls(1) [OF life keep(1,2)]
  show ?thesis
  proof (cases "closed_conn t \<and> \<not> closed_conn ?t")
    case False
    then have "closed_conn t = closed_conn ?t" using keep(3) by blast
    then show ?thesis using fold new cl_ok_conn [OF ok c client_conn_event(1) [OF co t]] by auto
  next
    case True
    then have rem: "cl_removeConnection fd err c (s\<lparr>cl_conns := (cl_conns s)[c := (fst (cl_conns s ! c), t)]\<rparr>) = Inr s'"
      using fold new by (simp add: bind_res_def split: sum.splits)
    from client_conn_event(2) [OF co t] True show ?thesis using removal_ok [OF ok _ _ rem] by blast
  qed
qed

lemma fresh_established:
  assumes "connectEstablished (fresh_conn w fd) = Inr t"
  shows "client_conn_ok (Some c) c t"
proof -
  have "life_ok (fresh_conn w fd)"
    by (simp add: fresh_conn_def life_ok_def life_calls_def new_TcpConnection_def setWriteCompleteCallback_def)
  moreover have "tc_exec Established (fresh_conn w fd) = Inr t" using assms by (simp add: tc_exec_def)
  ultimately have l: "life_ok t" by (rule tc_exec_life)
  have "tc_state t = Tcp_Connection.kConnected" using assms by (auto simp: connectEstablished_def Let_def res_simps)
  then show ?thesis using l closed_state [OF l] by (auto simp: client_conn_ok_def)
qed

lemma new_client_conn_ok:
  assumes ok: "cl_ok s" and cur: "connection s = None" and cn: "cn_inv cn" "handed cn = handed (cl_connector s) @ [fd]" "state cn = Connectors.kConnected"
    and run: "cl_newConnection peer fd (s\<lparr>cl_connector := cn\<rparr>) = Inr s'"
  shows "cl_ok s'"
proof -
  let ?c = "length (cl_conns s)"
  obtain t where t: "connectEstablished (fresh_conn (cl_writeComplete s) fd) = Inr t"
    and s': "s' = s\<lparr>cl_connector := cn, cl_nextConnId := cl_nextConnId s + 1, connection := Some ?c,
              cl_conns := cl_conns s @ [(cl_connName peer (s\<lparr>cl_connector := cn\<rparr>), t)]\<rparr>"
    using run by (auto simp: cl_newConnection_def bind_res_Inr)
  have "client_conn_ok (Some ?c) d (snd (cl_conns s ! d))" if "d < ?c" for d
    using ok that cur by (auto simp: cl_ok_def client_conn_ok_def)
  then have "client_conn_ok (Some ?c) d (snd (cl_conns s' ! d))" if "d < Suc ?c" for d
    using that fresh_established [OF t] by (auto simp: s' nth_append less_Suc_eq)
  then show ?thesis using ok cn by (auto simp: cl_ok_def s')
qed

lemma cl_connector_event_ok:
  assumes ok: "cl_ok s" and ev: "connector_event e" and run: "cl_connector_event peer e s = Inr s'"
  shows "cl_ok s'"
proof -
  obtain cn where cn: "cn_exec e (cl_connector s) = Inr cn" and
    fold: "fold_res (cl_newConnection peer) (drop (length (handed (cl_connector s))) (handed cn)) (s\<lparr>cl_connector := cn\<rparr>) = Inr s'"
    using run by (auto simp: cl_connector_event_def connector_do_def bind_res_Inr)
  have inv: "cn_inv (cl_connector s)" using ok by (simp add: cl_ok_def)
  have inv': "cn_inv cn" by (rule cn_exec_inv [OF inv cn])
  from connector_hands [OF inv ev cn] consider
      (quiet) "handed cn = handed (cl_connector s)" "state (cl_connector s) = Connectors.kConnected \<longrightarrow> state cn = Connectors.kConnected"
    | (hand) fd where "handed cn = handed (cl_connector s) @ [fd]" "state (cl_connector s) = Connectors.kConnecting" "state cn = Connectors.kConnected"
    by (auto simp: hands_def)
  then show ?thesis
  proof cases
    case quiet
    then have "cl_ok (s\<lparr>cl_connector := cn\<rparr>)" using ok by (intro cl_ok_connector [OF ok inv']) (auto simp: cl_ok_def)
    then show ?thesis using fold quiet(1) by simp
  next
    case (hand fd)
    have "connection s = None" using ok hand(2) by (auto simp: cl_ok_def)
    moreover have "cl_newConnection peer fd (s\<lparr>cl_connector := cn\<rparr>) = Inr s'" using fold hand(1) by (simp add: bind_res_def split: sum.splits)
    ultimately show ?thesis using new_client_conn_ok [OF ok _ inv' hand(1,3)] by blast
  qed
qed

lemma cl_start_ok:
  assumes ok: "cl_ok s" and run: "cl_start fd err s = Inr s'"
  shows "cl_ok s'"
proof -
  obtain cn where cn: "start fd err (cl_connector s) = Inr cn" and s': "s' = s\<lparr>cl_connect := True, cl_connector := cn\<rparr>"
    using run by (auto simp: cl_start_def connector_do_def bind_res_Inr)
  have h: "handed cn = handed (cl_connector s)" "state (cl_connector s) = Connectors.kDisconnected"
    using startInLoop_hands cn by (fastforce simp: start_def)+
  have "cn_inv cn" using cn_exec_inv [of "cl_connector s" "Start fd err" cn] ok cn by (simp add: cn_exec_def cl_ok_def)
  then have "cl_ok (s\<lparr>cl_connector := cn\<rparr>)" using h ok by (intro cl_ok_connector [OF ok]) (auto simp: cl_ok_def)
  then show ?thesis by (auto simp: s' cl_ok_def)
qed

lemma cl_exec_ok:
  assumes ok: "cl_ok s" and run: "cl_exec e s = Inr s'"
  shows "cl_ok s'"
proof (cases e)
  case (CConnect fd err)
  then show ?thesis using run cl_start_ok [OF ok] by (simp add: cl_exec_def)
next
  case CDisconnect
  have ok': "cl_ok (s\<lparr>cl_connect := False\<rparr>)" using ok by (auto simp: cl_ok_def)
  show ?thesis
  proof (cases "connection s")
    case None
    then show ?thesis using run ok' CDisconnect by (simp add: cl_exec_def cl_disconnect_def Let_def)
  next
    case (Some c)
    let ?t = "snd (cl_conns s ! c)"
    have c: "c < length (cl_conns s)" using ok Some by (auto simp: cl_ok_def)
    have sh: "tc_exec Shutdown ?t = Inr (shutdown ?t)" by (simp add: tc_exec_def)
    have co: "client_conn_ok (connection s) c ?t" using ok c by (simp add: cl_ok_def)
    have "calls (shutdown ?t) = calls ?t" by (simp add: shutdown_def shutdownInLoop_def)
    then have "closed_conn (shutdown ?t) = closed_conn ?t" by (simp add: closed_conn_def)
    from client_conn_event(1) [OF co sh this] have "cl_ok (s\<lparr>cl_connect := False, cl_conns := (cl_conns s)[c := (fst (cl_conns s ! c), shutdown ?t)]\<rparr>)"
      using cl_ok_conn [OF ok', of c "shutdown ?t"] c by simp
    then show ?thesis using run CDisconnect Some by (auto simp: cl_exec_def cl_disconnect_def conn_do_def Let_def)
  qed
next
  case CStop
  then have s': "s' = s\<lparr>cl_connect := False, cl_connector := stop (cl_connector s)\<rparr>" using run by (auto simp: cl_exec_def cl_stop_def connector_do_def)
  have "cn_inv (stop (cl_connector s))" using cn_exec_inv [of "cl_connector s" Stop] ok by (simp add: cn_exec_def cl_ok_def)
  then have "cl_ok (s\<lparr>cl_connector := stop (cl_connector s)\<rparr>)" using ok by (intro cl_ok_connector [OF ok]) (auto simp: stop_def cl_ok_def)
  then show ?thesis by (auto simp: s' cl_ok_def)
next
  case (CConnector peer ev)
  then show ?thesis using run ok cl_connector_event_ok [OF ok] by (simp add: cl_exec_def split: if_splits)
next
  case (CConn fd err c ev)
  then show ?thesis using run ok cl_conn_event_ok [OF ok] by (simp add: cl_exec_def split: if_splits)
next
  case CRunDestroy
  show ?thesis
  proof (cases "cl_destroys s")
    case Nil
    then show ?thesis using run ok CRunDestroy by (simp add: cl_exec_def)
  next
    case (Cons c cs)
    have ok': "cl_ok (s\<lparr>cl_destroys := cs\<rparr>)" using ok Cons by (auto simp: cl_ok_def)
    have c: "c < length (cl_conns s)" "connection s \<noteq> Some c" using ok Cons by (auto simp: cl_ok_def)
    then have co: "client_conn_ok (connection s) c (snd (cl_conns s ! c))" using ok by (simp add: cl_ok_def)
    obtain t where t: "connectDestroyed (snd (cl_conns s ! c)) = Inr t"
      and s': "s' = s\<lparr>cl_destroys := cs, cl_conns := (cl_conns s)[c := (fst (cl_conns s ! c), t)]\<rparr>"
      using run CRunDestroy Cons by (auto simp: cl_exec_def conn_do_def bind_res_Inr)
    have ex: "tc_exec Destroyed (snd (cl_conns s ! c)) = Inr t" using t by (simp add: tc_exec_def)
    have "closed_conn t = closed_conn (snd (cl_conns s ! c))"
      using co c(2) event_keeps(3) [OF _ ex] by (auto simp: client_conn_ok_def)
    from client_conn_event(1) [OF co ex this] show ?thesis using cl_ok_conn [OF ok', of c t] c(1) s' by simp
  qed
qed (use run ok in \<open>auto simp: cl_exec_def enableRetry_def cl_setWriteCompleteCallback_def cl_ok_def\<close>)

lemma new_client_ok: "cl_ok (new_TcpClient n)"
  by (simp add: cl_ok_def new_TcpClient_def cn_inv_new new_Connector_def) (simp add: cn_inv_new [unfolded new_Connector_def])

text \<open>
  (C99) However user calls, connector events, connection events and queued functors interleave, a client makes
  exactly one connection of every socket its connector hands over, has at most one connection that has not
  closed, and \<open>connection_\<close> is exactly this one, so that the assertion of \<open>removeConnection\<close> holds for the
  connection whose close callback comes; while it lives the connector stays connected and opens no other
  socket, and only closed connections are queued for destruction.
\<close>

theorem tcp_client_single_connection:
  assumes "fold_res cl_exec es (new_TcpClient name) = Inr s"
  shows "length (cl_conns s) = length (handed (cl_connector s))
    \<and> (\<forall>c < length (cl_conns s). \<not> closed_conn (snd (cl_conns s ! c)) \<longleftrightarrow> connection s = Some c)
    \<and> (\<forall>c. connection s = Some c \<longrightarrow> Suc c = length (cl_conns s) \<and> state (cl_connector s) = Connectors.kConnected)
    \<and> (\<forall>c \<in> set (cl_destroys s). c < length (cl_conns s) \<and> closed_conn (snd (cl_conns s ! c)))"
proof -
  have "cl_ok s" by (rule fold_res_inv [where P = cl_ok, OF new_client_ok assms]) (rule cl_exec_ok)
  then show ?thesis by (auto simp: cl_ok_def client_conn_ok_def)
qed

lemmas cl_eval = cl_exec_def cl_start_def connector_do_def start_def startInLoop_def connect_def connecting_def setState_def
  connector_event_def cl_connector_event_def cn_exec_def handleWrite_def removeAndResetChannel_def cl_newConnection_def
  new_TcpClient_def new_Connector_def errno_defs conn_do_def cl_conn_event_def cl_removeConnection_def Let_def

lemma ex_closed:
  "\<exists>t t' t''. connectEstablished (fresh_conn False 7) = Inr t \<and> tc_exec ForceClose t = Inr t' \<and> tc_exec RunForceClose t' = Inr t''
     \<and> calls t = [ConnectionCb True] \<and> calls t' = [ConnectionCb True] \<and> calls t'' = [ConnectionCb True, ConnectionCb False, CloseCb]"
  by (simp add: connectEstablished_def fresh_conn_def new_TcpConnection_def Let_def tc_update_def tc_log_def tc_exec_def forceClose_def
      forceCloseInLoop_def tc_handleClose_def)

lemma ex_client:
  "\<exists>s. fold_res cl_exec [CConnect 7 115, CConnector ''10.0.0.1:80'' (Writable 0 False), CConn 0 0 0 ForceClose, CConn 0 0 0 RunForceClose]
       (new_TcpClient ''c'') = Inr s
     \<and> length (cl_conns s) = 1 \<and> connection s = None \<and> cl_destroys s = [0] \<and> state (cl_connector s) = Connectors.kConnected"
proof -
  obtain t t' t'' where "connectEstablished (fresh_conn False 7) = Inr t" "tc_exec ForceClose t = Inr t'" "tc_exec RunForceClose t' = Inr t''"
     "calls t = [ConnectionCb True]" "calls t' = [ConnectionCb True]" "calls t'' = [ConnectionCb True, ConnectionCb False, CloseCb]"
    using ex_closed by blast
  then show ?thesis by (simp add: cl_eval)
qed

theorem tcp_client_single_connection_witness:
  "\<exists>s. fold_res cl_exec [CConnect 7 115, CConnector ''10.0.0.1:80'' (Writable 0 False), CConn 0 0 0 ForceClose, CConn 0 0 0 RunForceClose]
       (new_TcpClient ''c'') = Inr s
     \<and> length (handed (cl_connector s)) = 1 \<and> closed_conn (snd (cl_conns s ! 0)) \<and> cl_destroys s = [0]"
proof -
  obtain s where s: "fold_res cl_exec [CConnect 7 115, CConnector ''10.0.0.1:80'' (Writable 0 False), CConn 0 0 0 ForceClose, CConn 0 0 0 RunForceClose]
       (new_TcpClient ''c'') = Inr s" "length (cl_conns s) = 1" "connection s = None" "cl_destroys s = [0]" using ex_client by blast
  from tcp_client_single_connection [OF s(1)] s show ?thesis by (intro exI [of _ s]) auto
qed

text \<open>
  A client without retries cannot be used twice: the connector stays in \<open>kConnected\<close> after its connection is gone,
  so that a second \<open>connect\<close> fails the assertion of \<open>startInLoop\<close>.
\<close>

lemma second_connect_asserts:
  "fold_res cl_exec [CConnect 7 115, CConnector ''10.0.0.1:80'' (Writable 0 False), CConn 0 0 0 ForceClose, CConn 0 0 0 RunForceClose, CConnect 8 115]
     (new_TcpClient ''c'') = Inl AssertFailed"
proof -
  obtain s where s: "fold_res cl_exec [CConnect 7 115, CConnector ''10.0.0.1:80'' (Writable 0 False), CConn 0 0 0 ForceClose, CConn 0 0 0 RunForceClose]
       (new_TcpClient ''c'') = Inr s" "state (cl_connector s) = Connectors.kConnected" using ex_client by blast
  have "cl_exec (CConnect 8 115) s = Inl AssertFailed" using s(2) by (simp add: cl_exec_def cl_start_def connector_do_def start_def startInLoop_def)
  with s(1) show ?thesis
    using fold_res_append [of cl_exec "[CConnect 7 115, CConnector ''10.0.0.1:80'' (Writable 0 False), CConn 0 0 0 ForceClose, CConn 0 0 0 RunForceClose]"
      "[CConnect 8 115]" "new_TcpClient ''c''"] by (simp del: fold_res.simps(2)) simp
qed

text \<open>A peer address of 30 or more characters, as of IPv6, pushes the number out of the name.\<close>

lemma long_peer_same_name:
  assumes "30 \<le> length peer"
  shows "cl_connName peer (s\<lparr>cl_nextConnId := i\<rparr>) = cl_connName peer (s\<lparr>cl_nextConnId := j\<rparr>)"
  using assms by (simp add: cl_connName_def)

end
