(* ===== verification/Spec2Isabelle.thy ===== *)
theory Spec2Isabelle
  imports Byte_Buffer Pollers Timers Event_Loop Connectors Tcp_Connection Config_File Logger Async_Log Tcp_Client
begin

text \<open>A verification development of the network library of EasyLib.\<close>

end
